(* ===== verification/Prelude.thy ===== *)
theory Prelude
  imports Main "HOL-Library.Word"
begin

text \<open>
  Shared vocabulary of the development: the C integer types, the outcome of a
  call that may stop in a failed assertion or an out-of-bounds access, the
  \<^verbatim>\<open>for\<close> loop over such calls, arrays that are written at an
  offset, little-endian encodings, and the two generic interfaces that several
  components share (fixed-width codecs and inductive invariants).
\<close>

unbundle bit_operations_syntax

section \<open>Machine integers\<close>

text \<open>
  The program is compiled by the 16-bit Watcom compiler: \<^verbatim>\<open>int\<close> and
  \<^verbatim>\<open>size_t\<close> have 16 bits. Unsigned fields keep their width as words;
  the signed \<^verbatim>\<open>short\<close> fields of the driver interface are integers.
\<close>

type_synonym u8 = "8 word"
type_synonym u16 = "16 word"
type_synonym u32 = "32 word"

text \<open>Conversion of a 32-bit value to the 16-bit signed \<^verbatim>\<open>int\<close>.\<close>

definition int16_of_u32 :: "u32 \<Rightarrow> int" where
  "int16_of_u32 x = sint (ucast x :: u16)"

lemma int16_of_u32_small:
  assumes "unat x < 2 ^ 15"
  shows "int16_of_u32 x = int (unat x)"
proof -
  have "unat (ucast x :: u16) = unat x"
    using assms by (simp add: unsigned_ucast_eq take_bit_nat_eq_self)
  then have eq: "uint (ucast x :: u16) = int (unat x)"
    by (metis uint_nat)
  have "signed_take_bit 15 (int (unat x)) = int (unat x)"
  proof (rule signed_take_bit_int_eq_self)
    show "int (unat x) < 2 ^ 15" using assms by (metis of_nat_less_iff of_nat_numeral of_nat_power)
  qed (simp del: of_nat_unat)
  with eq show ?thesis
    by (simp add: int16_of_u32_def sint_uint [of "ucast x :: u16"])
qed

text \<open>Bounds and conversions of the word types.\<close>

lemma unat_u8_less [simp]: "unat (b :: u8) < 256"
  using unsigned_less [of b, where ?'a = nat] by simp

lemma unat_u16_less [simp]: "unat (b :: u16) < 65536"
  using unsigned_less [of b, where ?'a = nat] by simp

lemma unat_u32_less [simp]: "unat (b :: u32) < 4294967296"
  using unsigned_less [of b, where ?'a = nat] by simp

lemma unat_of_nat_u8 [simp]: "n < 256 \<Longrightarrow> unat (of_nat n :: u8) = n"
  by (simp add: unat_of_nat take_bit_nat_eq_self)

lemma unat_of_nat_u16 [simp]: "n < 65536 \<Longrightarrow> unat (of_nat n :: u16) = n"
  by (simp add: unat_of_nat take_bit_nat_eq_self)

lemma unat_of_nat_u32 [simp]: "n < 4294967296 \<Longrightarrow> unat (of_nat n :: u32) = n"
  by (simp add: unat_of_nat take_bit_nat_eq_self)

lemma unat_u8_as_u32 [simp]: "unat (ucast (b :: u8) :: u32) = unat b"
proof -
  have "unat b < 2 ^ 32" by (rule less_trans [OF unat_u8_less]) simp
  then have "take_bit 32 (unat b) = unat b" by (rule take_bit_nat_eq_self)
  then show ?thesis by (simp add: unsigned_ucast_eq del: take_bit_nat_eq_self)
qed

lemma unat_add_small: "unat a + unat b < 2 ^ LENGTH('a) \<Longrightarrow> unat (a + b) = unat a + unat b" for a b :: "'a::len word"
  by (simp add: unat_word_ariths)

lemma unat_sub_small: "unat b \<le> unat a \<Longrightarrow> unat (a - b) = unat a - unat b" for a b :: "'a::len word"
  by (simp add: unat_sub word_le_nat_alt)

lemma xor_cancel_left [simp]: "c XOR a = c XOR b \<longleftrightarrow> a = b" for a b c :: "'a::len word"
proof
  assume "c XOR a = c XOR b"
  then have "c XOR (c XOR a) = c XOR (c XOR b)" by simp
  then show "a = b" by (simp add: xor.assoc [symmetric])
qed simp

lemma xor_cancel_right [simp]: "a XOR c = b XOR c \<longleftrightarrow> a = b" for a b c :: "'a::len word"
  by (metis xor.commute xor_cancel_left)

lemma xor_eq_zero [simp]: "a XOR b = 0 \<longleftrightarrow> a = b" for a b :: "'a::len word"
  by (metis xor_cancel_left xor_self_eq)

section \<open>Outcomes\<close>

text \<open>
  A call returns (\<open>Done\<close>), stops in a failed assertion or does what C leaves undefined,
  an access outside an array or a division by zero (\<open>Fault\<close>), or is still waiting when the given answers of the
  network driver are used up (\<open>Blocked\<close>).
\<close>

datatype fault = AssertFailed | OutOfBounds | DivideByZero

datatype 'a outcome = Done 'a | Blocked | Fault fault

fun obind :: "'a outcome \<Rightarrow> ('a \<Rightarrow> 'b outcome) \<Rightarrow> 'b outcome" where
  "obind (Done x) f = f x"
| "obind Blocked f = Blocked"
| "obind (Fault e) f = Fault e"

lemma obind_cong [fundef_cong]:
  "x = y \<Longrightarrow> (\<And>a. y = Done a \<Longrightarrow> f a = g a) \<Longrightarrow> obind x f = obind y g"
  by (cases x) auto

lemma obind_assoc: "obind (obind x f) g = obind x (\<lambda>a. obind (f a) g)"
  by (cases x) auto

lemma obind_eq_Done: "obind x f = Done b \<longleftrightarrow> (\<exists>a. x = Done a \<and> f a = Done b)"
  by (cases x) auto

lemma obind_Done_right [simp]: "obind x Done = x"
  by (cases x) auto

text \<open>A \<^verbatim>\<open>for\<close> loop whose body may stop.\<close>

fun ofold :: "('x \<Rightarrow> 's \<Rightarrow> 's outcome) \<Rightarrow> 'x list \<Rightarrow> 's \<Rightarrow> 's outcome" where
  "ofold f [] s = Done s"
| "ofold f (x # xs) s = obind (f x s) (ofold f xs)"

lemma ofold_append: "ofold f (xs @ ys) s = obind (ofold f xs s) (ofold f ys)"
proof (induction xs arbitrary: s)
  case (Cons x xs)
  then show ?case by (cases "f x s") auto
qed simp

lemma ofold_invariant:
  assumes "\<And>x s s'. x \<in> set xs \<Longrightarrow> P s \<Longrightarrow> f x s = Done s' \<Longrightarrow> P s'"
    and "P s" and "ofold f xs s = Done s'"
  shows "P s'"
  using assms by (induction xs arbitrary: s) (auto simp: obind_eq_Done)

lemma ofold_total:
  assumes "\<And>x s. x \<in> set xs \<Longrightarrow> P s \<Longrightarrow> \<exists>s'. f x s = Done s' \<and> P s'"
    and "P s"
  shows "\<exists>s'. ofold f xs s = Done s' \<and> P s'"
  using assms
proof (induction xs arbitrary: s)
  case (Cons x xs)
  from Cons.prems obtain s' where "f x s = Done s'" "P s'" by force
  moreover from Cons.IH [OF Cons.prems(1) \<open>P s'\<close>]
  obtain s'' where "ofold f xs s' = Done s'' \<and> P s''" by auto
  ultimately show ?case by auto
qed simp

text \<open>A step that is either total or faults: the loop faults at the first bad element.\<close>

lemma ofold_or_fault:
  assumes "\<And>x s. x \<in> set xs \<Longrightarrow> P s \<Longrightarrow> \<not> bad x \<Longrightarrow> \<exists>s'. f x s = Done s' \<and> P s'"
    and "\<And>x s. x \<in> set xs \<Longrightarrow> P s \<Longrightarrow> bad x \<Longrightarrow> f x s = Fault e"
    and "P s"
  shows "if \<exists>x \<in> set xs. bad x then ofold f xs s = Fault e else \<exists>s'. ofold f xs s = Done s' \<and> P s'"
  using assms
proof (induction xs arbitrary: s)
  case (Cons x xs)
  show ?case
  proof (cases "bad x")
    case True
    with Cons.prems(2) [of x s] Cons.prems(3) show ?thesis by simp
  next
    case False
    with Cons.prems(1) [of x s] Cons.prems(3) obtain s' where "f x s = Done s'" "P s'" by auto
    with False Cons.IH [of s'] Cons.prems(1,2) show ?thesis by auto
  qed
qed simp

section \<open>Arrays\<close>

text \<open>\<open>overwrite xs k ys\<close> is the array \<open>xs\<close> after the elements of \<open>ys\<close> have been
  stored from index \<open>k\<close> on; \<open>slice k n xs\<close> is what \<open>n\<close> loads from index \<open>k\<close> read.\<close>

definition overwrite :: "'a list \<Rightarrow> nat \<Rightarrow> 'a list \<Rightarrow> 'a list" where
  "overwrite xs k ys = take k xs @ ys @ drop (k + length ys) xs"

definition slice :: "nat \<Rightarrow> nat \<Rightarrow> 'a list \<Rightarrow> 'a list" where
  "slice k n xs = take n (drop k xs)"

named_theorems array_simps \<open>reading an array after a store\<close>

lemma length_overwrite [simp, array_simps]:
  "k + length ys \<le> length xs \<Longrightarrow> length (overwrite xs k ys) = length xs"
  by (simp add: overwrite_def)

lemma length_slice [simp, array_simps]: "k + n \<le> length xs \<Longrightarrow> length (slice k n xs) = n"
  by (simp add: slice_def)

lemma nth_slice [array_simps]: "i < n \<Longrightarrow> k + n \<le> length xs \<Longrightarrow> slice k n xs ! i = xs ! (k + i)"
  by (simp add: slice_def)

lemma nth_overwrite [array_simps]:
  "k + length ys \<le> length xs \<Longrightarrow> i < length xs \<Longrightarrow>
    overwrite xs k ys ! i = (if k \<le> i \<and> i < k + length ys then ys ! (i - k) else xs ! i)"
  by (auto simp: overwrite_def nth_append min_def not_less)

lemma overwrite_Nil [simp]: "overwrite xs k [] = xs"
  by (simp add: overwrite_def)

lemma overwrite_adjacent [array_simps]:
  assumes "k + length ys + length zs \<le> length xs" and "j = k + length ys"
  shows "overwrite (overwrite xs k ys) j zs = overwrite xs k (ys @ zs)"
  using assms by (simp add: overwrite_def add_ac)

lemma overwrite_in_front [array_simps]:
  assumes "k + length ys + length zs \<le> length xs" and "j = k + length ys"
  shows "overwrite (overwrite xs j zs) k ys = overwrite xs k (ys @ zs)"
  using assms by (simp add: overwrite_def min_def add_ac)

lemma take_overwrite_0 [array_simps]:
  "n = length ys \<Longrightarrow> take n (overwrite xs 0 ys) = ys"
  by (simp add: overwrite_def)

lemma slice_overwrite_0 [array_simps]:
  "k + n \<le> length ys \<Longrightarrow> slice k n (overwrite xs 0 ys) = slice k n ys"
  by (simp add: overwrite_def slice_def)

lemma list_update_overwrite: "k < length xs \<Longrightarrow> xs[k := y] = overwrite xs k [y]"
  by (simp add: overwrite_def upd_conv_take_nth_drop)

text \<open>\<^verbatim>\<open>memmove(xs, xs + k, n)\<close> inside one array.\<close>

definition shift_down :: "nat \<Rightarrow> nat \<Rightarrow> 'a list \<Rightarrow> 'a list" where
  "shift_down k n xs = overwrite xs 0 (slice k n xs)"

lemma length_shift_down [simp, array_simps]:
  "k + n \<le> length xs \<Longrightarrow> length (shift_down k n xs) = length xs"
  by (simp add: shift_down_def)

lemma nth_shift_down [array_simps]:
  "k + n \<le> length xs \<Longrightarrow> i < n \<Longrightarrow> shift_down k n xs ! i = xs ! (k + i)"
  by (simp add: shift_down_def nth_overwrite nth_slice)

section \<open>Little-endian encodings\<close>

definition le16 :: "u16 \<Rightarrow> u8 list" where
  "le16 w = [ucast w, ucast (drop_bit 8 w)]"

definition of_le16 :: "u8 list \<Rightarrow> u16" where
  "of_le16 bs = ucast (bs ! 0) OR push_bit 8 (ucast (bs ! 1))"

definition le32 :: "u32 \<Rightarrow> u8 list" where
  "le32 w = [ucast w, ucast (drop_bit 8 w), ucast (drop_bit 16 w), ucast (drop_bit 24 w)]"

definition of_le32 :: "u8 list \<Rightarrow> u32" where
  "of_le32 bs = ucast (bs ! 0) OR push_bit 8 (ucast (bs ! 1))
     OR push_bit 16 (ucast (bs ! 2)) OR push_bit 24 (ucast (bs ! 3))"

text \<open>
  The contract of an encoding of values in a fixed number of bytes: what is loaded
  from a place a value was stored at is that value, whatever follows it.
\<close>

locale fixed_codec =
  fixes enc :: "'v \<Rightarrow> u8 list" and dec :: "u8 list \<Rightarrow> 'v" and width :: nat
  assumes enc_width: "length (enc v) = width"
    and dec_enc: "dec (enc v) = v"
begin

lemma enc_inj: "enc v = enc w \<Longrightarrow> v = w"
  by (metis dec_enc)

lemma load_front: "dec (slice 0 width (enc v @ rest)) = v"
  by (simp add: slice_def enc_width dec_enc)

lemma load_at: "length pre = k \<Longrightarrow> dec (slice k width (pre @ enc v @ rest)) = v"
  by (simp add: slice_def enc_width dec_enc)

lemma load_store: "k + width \<le> length xs \<Longrightarrow> dec (slice k width (overwrite xs k (enc v))) = v"
  by (simp add: slice_def overwrite_def enc_width dec_enc)

lemma length_array: "length (concat (map enc vs)) = width * length vs"
  by (induction vs) (auto simp: enc_width)

lemma load_array:
  "i < length vs \<Longrightarrow> dec (slice (width * i) width (concat (map enc vs) @ rest)) = vs ! i"
proof (induction vs arbitrary: i)
  case (Cons v vs)
  show ?case
  proof (cases i)
    case 0
    then show ?thesis by (simp add: load_front)
  next
    case (Suc j)
    with Cons have "dec (slice (width * j) width (concat (map enc vs) @ rest)) = vs ! j" by simp
    then show ?thesis using Suc by (simp add: slice_def enc_width)
  qed
qed simp

end

text \<open>The same for a record that is only encoded when it is well formed.\<close>

locale record_codec =
  fixes enc :: "'v \<Rightarrow> u8 list" and dec :: "u8 list \<Rightarrow> 'v" and width :: nat and valid :: "'v \<Rightarrow> bool"
  assumes valid_width: "valid v \<Longrightarrow> length (enc v) = width"
    and dec_enc_append: "valid v \<Longrightarrow> dec (enc v @ rest) = v"
begin

lemma dec_store: "valid v \<Longrightarrow> dec (overwrite xs 0 (enc v)) = v"
  by (simp add: overwrite_def dec_enc_append)

lemma enc_valid_inj: "valid v \<Longrightarrow> valid w \<Longrightarrow> enc v = enc w \<Longrightarrow> v = w"
  by (metis dec_enc_append)

lemma dec_array:
  "\<forall>v \<in> set vs. valid v \<Longrightarrow> i < length vs \<Longrightarrow> dec (drop (width * i) (concat (map enc vs) @ rest)) = vs ! i"
proof (induction vs arbitrary: i)
  case (Cons v vs)
  show ?case
  proof (cases i)
    case 0
    then show ?thesis using Cons.prems by (simp add: dec_enc_append)
  next
    case (Suc j)
    have "length (enc v) = width" using Cons.prems by (simp add: valid_width)
    then have "drop (width * i) (concat (map enc (v # vs)) @ rest) = drop (width * j) (concat (map enc vs) @ rest)"
      by (simp add: Suc)
    with Suc Cons show ?thesis by simp
  qed
qed simp

lemma store_length: "valid v \<Longrightarrow> width \<le> length xs \<Longrightarrow> length (overwrite xs 0 (enc v)) = length xs"
  by (simp add: valid_width)

end

lemma of_le16_le16: "of_le16 (le16 w) = w"
  by (rule bit_word_eqI) (auto simp: of_le16_def le16_def bit_simps nth_Cons')

lemma of_le32_le32: "of_le32 (le32 w) = w"
proof (rule bit_word_eqI)
  fix n assume "n < LENGTH(32)"
  then have "n < 8 \<or> 8 \<le> n \<and> n < 16 \<or> 16 \<le> n \<and> n < 24 \<or> 24 \<le> n \<and> n < 32" by auto
  then show "bit (of_le32 (le32 w)) n = bit w n"
    by (auto simp: of_le32_def le32_def bit_simps nth_Cons')
qed

interpretation c16: fixed_codec le16 of_le16 2
  by unfold_locales (simp_all add: of_le16_le16, simp add: le16_def)

interpretation c32: fixed_codec le32 of_le32 4
  by unfold_locales (simp_all add: of_le32_le32, simp add: le32_def)

lemmas codec_lengths [simp] = c16.enc_width c32.enc_width c16.length_array

section \<open>Reachable states\<close>

text \<open>The states a step relation reaches from the initial ones.\<close>

inductive reach :: "('s \<Rightarrow> bool) \<Rightarrow> ('s \<Rightarrow> 's \<Rightarrow> bool) \<Rightarrow> 's \<Rightarrow> bool"
  for init :: "'s \<Rightarrow> bool" and step :: "'s \<Rightarrow> 's \<Rightarrow> bool" where
  reach_init: "init s \<Longrightarrow> reach init step s"
| reach_step: "reach init step s \<Longrightarrow> step s t \<Longrightarrow> reach init step t"

lemma reach_rtranclp: "step\<^sup>*\<^sup>* s t \<Longrightarrow> reach init step s \<Longrightarrow> reach init step t"
  by (induction rule: rtranclp_induct) (auto intro: reach.intros)

text \<open>
  The contract of an inductive invariant. It may be relative to a bound that only a
  later state can break (\<open>ok\<close>), such as "the tic counters have not wrapped around".
\<close>

locale bounded_invariant =
  fixes init :: "'s \<Rightarrow> bool" and step :: "'s \<Rightarrow> 's \<Rightarrow> bool"
    and ok :: "'s \<Rightarrow> bool" and inv :: "'s \<Rightarrow> bool"
  assumes inv_init: "init s \<Longrightarrow> inv s"
    and ok_back: "step s t \<Longrightarrow> ok t \<Longrightarrow> ok s"
    and inv_step: "step s t \<Longrightarrow> ok t \<Longrightarrow> inv s \<Longrightarrow> inv t"
begin

lemma reach_inv: "reach init step s \<Longrightarrow> ok s \<Longrightarrow> inv s"
proof (induction rule: reach.induct)
  case (reach_init s)
  then show ?case by (simp add: inv_init)
next
  case (reach_step s t)
  then show ?case using ok_back inv_step by blast
qed

end

locale invariant =
  fixes init :: "'s \<Rightarrow> bool" and step :: "'s \<Rightarrow> 's \<Rightarrow> bool" and inv :: "'s \<Rightarrow> bool"
  assumes inv_start: "init s \<Longrightarrow> inv s"
    and inv_kept: "step s t \<Longrightarrow> inv s \<Longrightarrow> inv t"

sublocale invariant \<subseteq> bounded_invariant init step "\<lambda>_. True" inv
  by unfold_locales (auto intro: inv_start inv_kept)

end
