(* ===== verification/Crc32.thy ===== *)
theory Crc32
  imports Prelude
begin

text \<open>
  The checksum of the packets: \<^verbatim>\<open>crc32.c\<close>. The table-driven loop is modelled
  as it is written and proved equal to the bit-by-bit CRC-32 (reflected polynomial
  0xEDB88320); the register update is shown injective, from which the detection of
  error bursts follows.
\<close>

section \<open>The code\<close>

definition crc_table :: "u32 list" where
  "crc_table = [
    0, 0x77073096, 0xEE0E612C, 0x990951BA,
    0x076DC419, 0x706AF48F, 0xE963A535, 0x9E6495A3,
    0x0EDB8832, 0x79DCB8A4, 0xE0D5E91E, 0x97D2D988,
    0x09B64C2B, 0x7EB17CBD, 0xE7B82D07, 0x90BF1D91,
    0x1DB71064, 0x6AB020F2, 0xF3B97148, 0x84BE41DE,
    0x1ADAD47D, 0x6DDDE4EB, 0xF4D4B551, 0x83D385C7,
    0x136C9856, 0x646BA8C0, 0xFD62F97A, 0x8A65C9EC,
    0x14015C4F, 0x63066CD9, 0xFA0F3D63, 0x8D080DF5,
    0x3B6E20C8, 0x4C69105E, 0xD56041E4, 0xA2677172,
    0x3C03E4D1, 0x4B04D447, 0xD20D85FD, 0xA50AB56B,
    0x35B5A8FA, 0x42B2986C, 0xDBBBC9D6, 0xACBCF940,
    0x32D86CE3, 0x45DF5C75, 0xDCD60DCF, 0xABD13D59,
    0x26D930AC, 0x51DE003A, 0xC8D75180, 0xBFD06116,
    0x21B4F4B5, 0x56B3C423, 0xCFBA9599, 0xB8BDA50F,
    0x2802B89E, 0x5F058808, 0xC60CD9B2, 0xB10BE924,
    0x2F6F7C87, 0x58684C11, 0xC1611DAB, 0xB6662D3D,
    0x76DC4190, 0x01DB7106, 0x98D220BC, 0xEFD5102A,
    0x71B18589, 0x06B6B51F, 0x9FBFE4A5, 0xE8B8D433,
    0x7807C9A2, 0x0F00F934, 0x9609A88E, 0xE10E9818,
    0x7F6A0DBB, 0x086D3D2D, 0x91646C97, 0xE6635C01,
    0x6B6B51F4, 0x1C6C6162, 0x856530D8, 0xF262004E,
    0x6C0695ED, 0x1B01A57B, 0x8208F4C1, 0xF50FC457,
    0x65B0D9C6, 0x12B7E950, 0x8BBEB8EA, 0xFCB9887C,
    0x62DD1DDF, 0x15DA2D49, 0x8CD37CF3, 0xFBD44C65,
    0x4DB26158, 0x3AB551CE, 0xA3BC0074, 0xD4BB30E2,
    0x4ADFA541, 0x3DD895D7, 0xA4D1C46D, 0xD3D6F4FB,
    0x4369E96A, 0x346ED9FC, 0xAD678846, 0xDA60B8D0,
    0x44042D73, 0x33031DE5, 0xAA0A4C5F, 0xDD0D7CC9,
    0x5005713C, 0x270241AA, 0xBE0B1010, 0xC90C2086,
    0x5768B525, 0x206F85B3, 0xB966D409, 0xCE61E49F,
    0x5EDEF90E, 0x29D9C998, 0xB0D09822, 0xC7D7A8B4,
    0x59B33D17, 0x2EB40D81, 0xB7BD5C3B, 0xC0BA6CAD,
    0xEDB88320, 0x9ABFB3B6, 0x03B6E20C, 0x74B1D29A,
    0xEAD54739, 0x9DD277AF, 0x04DB2615, 0x73DC1683,
    0xE3630B12, 0x94643B84, 0x0D6D6A3E, 0x7A6A5AA8,
    0xE40ECF0B, 0x9309FF9D, 0x0A00AE27, 0x7D079EB1,
    0xF00F9344, 0x8708A3D2, 0x1E01F268, 0x6906C2FE,
    0xF762575D, 0x806567CB, 0x196C3671, 0x6E6B06E7,
    0xFED41B76, 0x89D32BE0, 0x10DA7A5A, 0x67DD4ACC,
    0xF9B9DF6F, 0x8EBEEFF9, 0x17B7BE43, 0x60B08ED5,
    0xD6D6A3E8, 0xA1D1937E, 0x38D8C2C4, 0x4FDFF252,
    0xD1BB67F1, 0xA6BC5767, 0x3FB506DD, 0x48B2364B,
    0xD80D2BDA, 0xAF0A1B4C, 0x36034AF6, 0x41047A60,
    0xDF60EFC3, 0xA867DF55, 0x316E8EEF, 0x4669BE79,
    0xCB61B38C, 0xBC66831A, 0x256FD2A0, 0x5268E236,
    0xCC0C7795, 0xBB0B4703, 0x220216B9, 0x5505262F,
    0xC5BA3BBE, 0xB2BD0B28, 0x2BB45A92, 0x5CB36A04,
    0xC2D7FFA7, 0xB5D0CF31, 0x2CD99E8B, 0x5BDEAE1D,
    0x9B64C2B0, 0xEC63F226, 0x756AA39C, 0x026D930A,
    0x9C0906A9, 0xEB0E363F, 0x72076785, 0x05005713,
    0x95BF4A82, 0xE2B87A14, 0x7BB12BAE, 0x0CB61B38,
    0x92D28E9B, 0xE5D5BE0D, 0x7CDCEFB7, 0x0BDBDF21,
    0x86D3D2D4, 0xF1D4E242, 0x68DDB3F8, 0x1FDA836E,
    0x81BE16CD, 0xF6B9265B, 0x6FB077E1, 0x18B74777,
    0x88085AE6, 0xFF0F6A70, 0x66063BCA, 0x11010B5C,
    0x8F659EFF, 0xF862AE69, 0x616BFFD3, 0x166CCF45,
    0xA00AE278, 0xD70DD2EE, 0x4E048354, 0x3903B3C2,
    0xA7672661, 0xD06016F7, 0x4969474D, 0x3E6E77DB,
    0xAED16A4A, 0xD9D65ADC, 0x40DF0B66, 0x37D83BF0,
    0xA9BCAE53, 0xDEBB9EC5, 0x47B2CF7F, 0x30B5FFE9,
    0xBDBDF21C, 0xCABAC28A, 0x53B39330, 0x24B4A3A6,
    0xBAD03605, 0xCDD70693, 0x54DE5729, 0x23D967BF,
    0xB3667A2E, 0xC4614AB8, 0x5D681B02, 0x2A6F2B94,
    0xB40BBE37, 0xC30C8EA1, 0x5A05DF1B, 0x2D02EF8D]"

text \<open>One iteration of the loop of \<^verbatim>\<open>Crc32\<close>, then the loop over the
  \<^verbatim>\<open>buf_len\<close> bytes of the buffer.\<close>

definition crc_step :: "u8 \<Rightarrow> u32 \<Rightarrow> u32" where
  "crc_step b result =
     (let index = (result XOR ucast b) AND 0xff
      in drop_bit 8 result XOR crc_table ! unat index)"

definition Crc32 :: "u8 list \<Rightarrow> u32" where
  "Crc32 buf = fold crc_step buf 0xffffffff XOR 0xffffffff"

section \<open>The bitwise reference\<close>

definition crc_bit :: "u32 \<Rightarrow> u32" where
  "crc_bit r = (if bit r 0 then drop_bit 1 r XOR 0xEDB88320 else drop_bit 1 r)"

definition crc_byte :: "u8 \<Rightarrow> u32 \<Rightarrow> u32" where
  "crc_byte b r = (crc_bit ^^ 8) (r XOR ucast b)"

definition crc_reference :: "u8 list \<Rightarrow> u32" where
  "crc_reference buf = fold crc_byte buf 0xffffffff XOR 0xffffffff"

section \<open>Linearity of the register update\<close>

lemma crc_bit_xor: "crc_bit (a XOR b) = crc_bit a XOR crc_bit b"
  by (simp add: crc_bit_def bit_xor_iff drop_bit_xor ac_simps)

lemma crc_bits_xor: "(crc_bit ^^ n) (a XOR b) = (crc_bit ^^ n) a XOR (crc_bit ^^ n) b"
  by (induction n) (simp_all add: crc_bit_xor)

lemma crc_bits_shift: "take_bit n a = 0 \<Longrightarrow> (crc_bit ^^ n) a = drop_bit n a"
proof (induction n)
  case (Suc n)
  have z: "\<not> bit a i" if "i < Suc n" for i
    using Suc.prems that by (metis bit_take_bit_iff bit_0_eq bot_apply bot_bool_def)
  then have "take_bit n a = 0" by (intro bit_word_eqI) (auto simp: bit_take_bit_iff)
  with Suc.IH z show ?case by (simp add: crc_bit_def bit_drop_bit_eq)
qed simp

section \<open>The table is the eight-bit step\<close>

text \<open>All XOR combinations of a basis, the highest basis element first.\<close>

fun xor_span :: "u32 list \<Rightarrow> u32 list" where
  "xor_span [] = [0]"
| "xor_span (b # bs) = (let xs = xor_span bs in xs @ map ((XOR) b) xs)"

lemma word_of_nat_high:
  assumes "j < 2 ^ n"
  shows "(word_of_nat (j + 2 ^ n) :: u32) = 2 ^ n XOR word_of_nat j"
proof -
  have "(2 ^ n :: nat) AND j = 0"
    using assms
    by (auto intro!: bit_eqI simp: bit_simps)
      (metis bit_take_bit_iff take_bit_nat_eq_self less_irrefl)
  then have "j + 2 ^ n = 2 ^ n XOR j"
    by (simp add: disjunctive_add_eq_xor add.commute [of j])
  then show ?thesis by (metis of_nat_xor_eq of_nat_power of_nat_numeral)
qed

lemma upt_double: "[0..<m + m] = [0..<m] @ map (\<lambda>j. j + m) [0..<m]" for m :: nat
  unfolding map_add_upt by (rule upt_add_eq_append) simp

lemma xor_span_linear:
  assumes "\<And>a b :: u32. f (a XOR b) = f a XOR f b"
  shows "xor_span (map (\<lambda>k. f (2 ^ k)) (rev [0..<n])) = map (\<lambda>i. f (word_of_nat i)) [0..<2 ^ n]"
proof (induction n)
  case 0
  have "f 0 = 0" using assms [of 0 0] by simp
  then show ?case by simp
next
  case (Suc n)
  let ?T = "map (\<lambda>i. f (word_of_nat i)) [0..<2 ^ n]"
  have hi: "map (\<lambda>i. f (word_of_nat (i + 2 ^ n))) [0..<2 ^ n] = map ((XOR) (f (2 ^ n))) ?T"
    by (auto simp: word_of_nat_high assms simp del: of_nat_add)
  have "[0..<2 ^ Suc n] = [0..<2 ^ n] @ map (\<lambda>j. j + 2 ^ n) [0..<2 ^ n]"
    by (simp only: power_Suc mult_2 upt_double)
  then have "map (\<lambda>i. f (word_of_nat i)) [0..<2 ^ Suc n] = ?T @ map ((XOR) (f (2 ^ n))) ?T"
    by (simp only: map_append map_map o_def hi)
  moreover have "map (\<lambda>k. f (2 ^ k)) (rev [0..<Suc n]) = f (2 ^ n) # map (\<lambda>k. f (2 ^ k)) (rev [0..<n])"
    by simp
  ultimately show ?case by (simp only: xor_span.simps Suc.IH Let_def)
qed

lemma crc_bits_8:
  "(crc_bit ^^ 8) r = crc_bit (crc_bit (crc_bit (crc_bit (crc_bit (crc_bit (crc_bit (crc_bit r)))))))"
  by (simp add: eval_nat_numeral)

lemma rev_upt_8: "rev [0..<8] = [7, 6, 5, 4, 3, 2, 1, 0]"
  by (simp add: upt_rec)

lemma crc_basis:
  "map (\<lambda>k. (crc_bit ^^ 8) (2 ^ k)) (rev [0..<8])
    = [0xEDB88320, 0x76DC4190, 0x3B6E20C8, 0x1DB71064,
       0x0EDB8832, 0x076DC419, 0xEE0E612C, 0x77073096]"
  unfolding rev_upt_8 crc_bits_8 by (simp add: crc_bit_def)

lemma crc_table_span:
  "crc_table = xor_span [0xEDB88320, 0x76DC4190, 0x3B6E20C8, 0x1DB71064,
       0x0EDB8832, 0x076DC419, 0xEE0E612C, 0x77073096]"
  by (simp add: crc_table_def)

lemma crc_table_eq: "crc_table = map (\<lambda>i. (crc_bit ^^ 8) (word_of_nat i)) [0..<2 ^ 8]"
  by (simp only: crc_table_span crc_basis [symmetric] xor_span_linear crc_bits_xor)

lemma crc_table_nth: "i < 256 \<Longrightarrow> crc_table ! i = (crc_bit ^^ 8) (word_of_nat i)"
  by (simp add: crc_table_eq del: upt.simps upt_conv_Cons)

section \<open>The loop computes CRC-32\<close>

lemma low_byte: "x AND 0xff = take_bit 8 x" for x :: u32
  by (simp add: take_bit_eq_mask mask_eq_exp_minus_1)

lemma low_byte_xor_rest: "take_bit 8 x XOR push_bit 8 (drop_bit 8 x) = x" for x :: u32
  by (rule bit_word_eqI) (auto simp: bit_simps)

lemma crc_step_eq: "crc_step b r = crc_byte b r"
proof -
  define x where "x = r XOR ucast b"
  have "unat (take_bit 8 x) < 256"
    using take_bit_nat_less_exp [of 8 "unat x"] by (simp add: unsigned_take_bit_eq del: take_bit_nat_less_exp)
  then have idx: "crc_table ! unat (take_bit 8 x) = (crc_bit ^^ 8) (take_bit 8 x)"
    by (simp add: crc_table_nth)
  have "(crc_bit ^^ 8) x = (crc_bit ^^ 8) (take_bit 8 x XOR push_bit 8 (drop_bit 8 x))"
    by (simp only: low_byte_xor_rest)
  also have "\<dots> = (crc_bit ^^ 8) (take_bit 8 x) XOR drop_bit 8 (push_bit 8 (drop_bit 8 x))"
    by (simp only: crc_bits_xor) (subst crc_bits_shift [of 8 "push_bit 8 _"], auto simp: take_bit_push_bit)
  also have "drop_bit 8 (push_bit 8 (drop_bit 8 x)) = drop_bit 8 r"
    by (rule bit_word_eqI) (auto simp: bit_simps x_def dest: bit_imp_le_length)
  finally show ?thesis
    by (simp add: crc_step_def crc_byte_def low_byte Let_def idx x_def [symmetric] xor.commute)
qed

lemma Crc32_fold: "Crc32 buf = fold crc_byte buf 0xffffffff XOR 0xffffffff"
proof -
  have "crc_step = crc_byte" by (intro ext) (rule crc_step_eq)
  then show ?thesis by (simp add: Crc32_def)
qed

text \<open>C17: the table-driven \<^verbatim>\<open>Crc32\<close> returns the CRC-32 of the buffer, as the
  bit-by-bit definition with the reflected polynomial 0xEDB88320 gives it.\<close>

theorem Crc32_correct: "Crc32 buf = crc_reference buf"
  by (simp add: Crc32_fold crc_reference_def)

section \<open>Error detection\<close>

lemma crc_bit_zero: "crc_bit r = 0 \<Longrightarrow> r = 0"
proof (rule bit_word_eqI)
  fix i assume r: "crc_bit r = 0" and i: "i < LENGTH(32)"
  have "\<not> bit r 0"
  proof
    assume "bit r 0"
    with r have "drop_bit 1 r = 0xEDB88320" by (simp only: crc_bit_def if_True xor_eq_zero)
    then have "bit (drop_bit 1 r) 31" by simp
    then show False by (auto simp: bit_drop_bit_eq dest: bit_imp_le_length)
  qed
  with r have "drop_bit 1 r = 0" by (simp add: crc_bit_def)
  then have "\<not> bit (drop_bit 1 r) (i - 1)" by simp
  with \<open>\<not> bit r 0\<close> show "bit r i = bit (0 :: u32) i"
    by (cases i) (auto simp: bit_drop_bit_eq)
qed

lemma crc_bit_inj: "crc_bit a = crc_bit b \<Longrightarrow> a = b"
  using crc_bit_zero [of "a XOR b"] by (simp add: crc_bit_xor)

lemma crc_bits_inj: "(crc_bit ^^ n) a = (crc_bit ^^ n) b \<Longrightarrow> a = b"
  by (induction n) (auto dest: crc_bit_inj)

lemma crc_fold_inj: "fold crc_byte bs a = fold crc_byte bs b \<Longrightarrow> a = b"
proof (induction bs arbitrary: a b)
  case (Cons x xs)
  then have "crc_byte x a = crc_byte x b" by simp
  then have "a XOR ucast x = b XOR ucast x" unfolding crc_byte_def by (rule crc_bits_inj)
  then show ?case by simp
qed simp

text \<open>Up to four bytes enter the register as one little-endian word.\<close>

fun le_word :: "u8 list \<Rightarrow> u32" where
  "le_word [] = 0"
| "le_word (b # bs) = ucast b XOR push_bit 8 (le_word bs)"

lemma le_word_bound: "8 * length bs \<le> i \<Longrightarrow> \<not> bit (le_word bs) i"
  by (induction bs arbitrary: i) (auto simp: bit_simps dest: bit_imp_le_length)

lemma crc_fold_le_word:
  "length bs \<le> 4 \<Longrightarrow> fold crc_byte bs r = (crc_bit ^^ (8 * length bs)) (r XOR le_word bs)"
proof (induction bs arbitrary: r)
  case (Cons b bs)
  have "drop_bit 8 (push_bit 8 (le_word bs)) = le_word bs"
  proof (rule bit_word_eqI)
    fix i assume "i < LENGTH(32)"
    have "\<not> bit (le_word bs) i" if "24 \<le> i"
      using Cons.prems that by (intro le_word_bound) simp
    with \<open>i < LENGTH(32)\<close> show "bit (drop_bit 8 (push_bit 8 (le_word bs))) i = bit (le_word bs) i"
      by (cases "i < 24") (auto simp: bit_simps)
  qed
  then have "(crc_bit ^^ 8) (r XOR le_word (b # bs)) = crc_byte b r XOR le_word bs"
    by (simp add: crc_byte_def crc_bits_xor xor.assoc [symmetric] crc_bits_shift take_bit_push_bit)
  then have "(crc_bit ^^ (8 * length bs)) ((crc_bit ^^ 8) (r XOR le_word (b # bs)))
      = fold crc_byte (b # bs) r"
    using Cons by simp
  moreover have "8 * length (b # bs) = 8 * length bs + 8" by simp
  ultimately show ?case by (simp only: funpow_add o_apply)
qed simp

lemma le_word_inj: "length x = length y \<Longrightarrow> length x \<le> 4 \<Longrightarrow> le_word x = le_word y \<Longrightarrow> x = y"
proof (induction x y rule: list_induct2)
  case (Cons b bs c cs)
  have bits: "bit (le_word (b # bs)) i = bit (le_word (c # cs)) i" for i
    using Cons.prems by simp
  have "b = c"
  proof (rule bit_word_eqI)
    fix i assume "i < LENGTH(8)"
    with bits [of i] show "bit b i = bit c i" by (simp add: bit_simps)
  qed
  moreover have "le_word bs = le_word cs"
  proof (rule bit_word_eqI)
    fix i assume "i < LENGTH(32)"
    show "bit (le_word bs) i = bit (le_word cs) i"
    proof (cases "i < 24")
      case True
      with bits [of "i + 8"] show ?thesis
        by (auto simp: bit_simps dest: bit_imp_le_length)
    next
      case False
      with Cons show ?thesis by (simp add: le_word_bound)
    qed
  qed
  ultimately show ?case using Cons by simp
qed simp

text \<open>C18: an error burst inside four consecutive bytes of the buffer always changes the
  CRC of 32 bits: buffers of the same length that differ only there have different checksums. (A packet
  carries this number without its four highest bits, for which this is not claimed.)\<close>

theorem Crc32_detects_bursts:
  assumes "length x = length y" and "length x \<le> 4" and "x \<noteq> y"
  shows "Crc32 (pre @ x @ post) \<noteq> Crc32 (pre @ y @ post)"
proof
  assume eq: "Crc32 (pre @ x @ post) = Crc32 (pre @ y @ post)"
  define r where "r = fold crc_byte pre 0xffffffff"
  from eq have "fold crc_byte post (fold crc_byte x r) = fold crc_byte post (fold crc_byte y r)"
    by (simp only: Crc32_fold xor_cancel_right fold_append o_apply r_def)
  then have "fold crc_byte x r = fold crc_byte y r" by (rule crc_fold_inj)
  then have "(crc_bit ^^ (8 * length y)) (r XOR le_word x)
      = (crc_bit ^^ (8 * length y)) (r XOR le_word y)"
    using assms by (simp add: crc_fold_le_word)
  then have "r XOR le_word x = r XOR le_word y" by (rule crc_bits_inj)
  then have "le_word x = le_word y" by simp
  with assms show False by (simp add: le_word_inj)
qed

theorem Crc32_detects_bursts_witness:
  "Crc32 ([1, 2] @ [3, 4, 5, 6] @ [7]) \<noteq> Crc32 ([1, 2] @ [3, 4, 5, 9] @ [7])"
  by (rule Crc32_detects_bursts) simp_all

end
