(* ===== verification/Doomnet.thy ===== *)
theory Doomnet
  imports Prelude
begin

text \<open>
  The Doom network driver interface: \<^verbatim>\<open>doomnet.h\<close> and
  \<^verbatim>\<open>doomnet.c\<close>. The structure \<^verbatim>\<open>doomcom_t\<close> is shared with
  the driver, which is another program. It enters the model as an input: the list of the
  answers it will give to CMD_GET, in order, and a log of what it was handed with
  CMD_SEND. What a call does to the structure is what the comments of
  \<^verbatim>\<open>doomnet.h\<close> say of its fields.
\<close>

section \<open>The shared structure\<close>

record doomcom_t =
  dc_id :: u32
  dc_intnum :: int
  dc_command :: int
  dc_remotenode :: int
  dc_datalength :: int
  dc_numnodes :: int
  dc_ticdup :: int
  dc_extratics :: int
  dc_deathmatch :: int
  dc_savegame :: int
  dc_episode :: int
  dc_map :: int
  dc_skill :: int
  dc_consoleplayer :: int
  dc_numplayers :: int
  dc_angleoffset :: int
  dc_drone :: int
  dc_data :: "u8 list"

definition CMD_SEND :: int where "CMD_SEND = 1"

definition CMD_GET :: int where "CMD_GET = 2"

definition DOOMCOM_ID :: u32 where "DOOMCOM_ID = 0x12345678"

definition NCMD_CHECKSUM :: u32 where "NCMD_CHECKSUM = 0x0fffffff"

definition DATA_SIZE :: nat where "DATA_SIZE = 512"

section \<open>The driver\<close>

text \<open>An answer to CMD_GET: the node a packet came from (-1: there is none) and its bytes.\<close>

record answer =
  ans_node :: int
  ans_bytes :: "u8 list"

record netdrv =
  answers :: "answer list"
  sent :: "(int \<times> u8 list) list"

text \<open>The interrupt: CMD_SEND hands over the first \<open>datalength\<close> bytes of the data for
  \<open>remotenode\<close>; CMD_GET stores the next packet and its length, or -1 in
  \<open>remotenode\<close>. A driver with no answer left has no packet.\<close>

definition driver_call :: "doomcom_t \<Rightarrow> netdrv \<Rightarrow> doomcom_t \<times> netdrv" where
  "driver_call dc d =
    (if dc_command dc = CMD_SEND then
       (dc, d\<lparr>sent := sent d @ [(dc_remotenode dc, take (nat (dc_datalength dc)) (dc_data dc))]\<rparr>)
     else if dc_command dc = CMD_GET then
       (case answers d of
          [] \<Rightarrow> (dc\<lparr>dc_remotenode := -1\<rparr>, d)
        | a # as \<Rightarrow>
            (dc\<lparr>dc_remotenode := ans_node a, dc_datalength := int (length (ans_bytes a)),
                dc_data := overwrite (dc_data dc) 0 (ans_bytes a)\<rparr>, d\<lparr>answers := as\<rparr>))
     else (dc, d))"

text \<open>An answer a driver with \<open>n\<close> nodes can give: a node below \<open>n\<close> or -1,
  and bytes that fit the data area.\<close>

definition proper_answer :: "nat \<Rightarrow> answer \<Rightarrow> bool" where
  "proper_answer n a \<longleftrightarrow>
     -1 \<le> ans_node a \<and> ans_node a < int n \<and> length (ans_bytes a) \<le> DATA_SIZE"

section \<open>\<^verbatim>\<open>NetSendPacket\<close> and \<^verbatim>\<open>NetGetPacket\<close>\<close>

definition NetSendPacket :: "doomcom_t \<Rightarrow> netdrv \<Rightarrow> doomcom_t \<times> netdrv" where
  "NetSendPacket dc d = driver_call (dc\<lparr>dc_command := CMD_SEND\<rparr>) d"

definition NetGetPacket :: "doomcom_t \<Rightarrow> netdrv \<Rightarrow> bool \<times> doomcom_t \<times> netdrv" where
  "NetGetPacket dc d =
     (let (dc', d') = driver_call (dc\<lparr>dc_command := CMD_GET\<rparr>) d
      in (dc_remotenode dc' \<noteq> -1, dc', d'))"

lemma NetSendPacket_eq:
  "NetSendPacket dc d =
    (dc\<lparr>dc_command := CMD_SEND\<rparr>,
     d\<lparr>sent := sent d @ [(dc_remotenode dc, take (nat (dc_datalength dc)) (dc_data dc))]\<rparr>)"
  by (simp add: NetSendPacket_def driver_call_def)

lemma NetGetPacket_no_answer:
  "answers d = [] \<Longrightarrow>
     NetGetPacket dc d = (False, dc\<lparr>dc_command := CMD_GET, dc_remotenode := -1\<rparr>, d)"
  by (simp add: NetGetPacket_def driver_call_def CMD_GET_def CMD_SEND_def)

lemma NetGetPacket_answer:
  "answers d = a # as \<Longrightarrow>
     NetGetPacket dc d = (ans_node a \<noteq> -1,
       dc\<lparr>dc_command := CMD_GET, dc_remotenode := ans_node a,
          dc_datalength := int (length (ans_bytes a)),
          dc_data := overwrite (dc_data dc) 0 (ans_bytes a)\<rparr>,
       d\<lparr>answers := as\<rparr>)"
  by (simp add: NetGetPacket_def driver_call_def CMD_GET_def CMD_SEND_def)

lemma NetGetPacket_consumes:
  "NetGetPacket dc d = (True, dc', d') \<Longrightarrow> length (answers d') < length (answers d)"
  by (cases "answers d") (auto simp: NetGetPacket_no_answer NetGetPacket_answer)

lemma NetGetPacket_sent: "NetGetPacket dc d = (b, dc', d') \<Longrightarrow> sent d' = sent d"
  by (cases "answers d") (auto simp: NetGetPacket_no_answer NetGetPacket_answer)

end
