(* ===== verification/Protocol.thy ===== *)
theory Protocol
  imports Doomnet Crc32
begin

text \<open>
  The peer-to-peer protocol of \<^verbatim>\<open>protocol.c\<close>: its state, its operations
  as state transformers, the well-formedness invariant of one machine and the
  behaviour of each operation. The other machines come in with theory
  \<^verbatim>\<open>Lockstep\<close>.
\<close>

section \<open>State\<close>

definition MAX_PLAYERS :: nat where "MAX_PLAYERS = 4"

definition MAX_DELAY :: nat where "MAX_DELAY = 16"

definition DELAY :: nat where "DELAY = 4"

definition MIN_PACKET_LEN :: int where "MIN_PACKET_LEN = 14"

record packet =
  p_checksum :: u32
  p_start :: u32
  p_ack :: u32
  p_player :: u8
  p_num_cmds :: u8
  p_cmds :: "u16 list"

record window =
  w_start :: u32
  w_len :: u8
  w_cmds :: "u16 list"

record node =
  send_window :: window
  recv_window :: window
  player :: int
  last_send_time :: u32

text \<open>
  The static variables of \<^verbatim>\<open>protocol.c\<close>, with the driver it calls and the
  clock: \<open>clock k\<close> is what the \<open>k\<close>-th call of \<^verbatim>\<open>time(NULL)\<close> returns.
  A \<^verbatim>\<open>time_t\<close> of the compiler is an unsigned number of 32 bits.
\<close>

record protocol =
  doomcom :: doomcom_t
  driver :: netdrv
  clock :: "nat \<Rightarrow> u32"
  clock_calls :: nat
  nodes :: "node list"
  maketic :: u32
  gametic :: u32
  num_nodes :: nat
  fake_players :: int
  consoleplayer :: nat
  num_players :: nat

definition zero_window :: window where
  "zero_window = \<lparr>w_start = 0, w_len = 0, w_cmds = replicate MAX_DELAY 0\<rparr>"

definition zero_node :: node where
  "zero_node = \<lparr>send_window = zero_window, recv_window = zero_window, player = 0,
     last_send_time = 0\<rparr>"

text \<open>The variables as the program starts with them, with a command line flag, a driver
  and a clock.\<close>

definition static_protocol :: "int \<Rightarrow> doomcom_t \<Rightarrow> netdrv \<Rightarrow> (nat \<Rightarrow> u32) \<Rightarrow> protocol" where
  "static_protocol fake dc d c =
    \<lparr>doomcom = dc, driver = d, clock = c, clock_calls = 0,
     nodes = replicate MAX_PLAYERS zero_node, maketic = 0, gametic = 0, num_nodes = 2,
     fake_players = fake, consoleplayer = 0, num_players = 0\<rparr>"

section \<open>Initialisation\<close>

definition init_node :: "node \<Rightarrow> node" where
  "init_node n = n\<lparr>player := -1,
     send_window := (send_window n)\<lparr>w_start := 0, w_len := of_nat (DELAY - 1)\<rparr>,
     recv_window := (recv_window n)\<lparr>w_len := 0\<rparr>\<rparr>"

definition InitProtocol :: "doomcom_t \<Rightarrow> protocol \<Rightarrow> protocol outcome" where
  "InitProtocol dc s =
    (if dc_numnodes dc > 1 \<and> dc_numnodes dc \<le> int MAX_PLAYERS
        \<and> dc_numplayers dc > 1 \<and> dc_numplayers dc \<le> int MAX_PLAYERS
        \<and> dc_consoleplayer dc \<ge> 0 \<and> dc_consoleplayer dc < dc_numplayers dc
     then
       (let ns = map init_node (nodes s)
        in Done (s\<lparr>doomcom := dc, maketic := of_nat DELAY,
             num_nodes := nat (dc_numnodes dc),
             nodes := ns[0 := (ns ! 0)\<lparr>player := dc_consoleplayer dc\<rparr>],
             consoleplayer := nat (dc_consoleplayer dc),
             num_players := (if fake_players s \<noteq> 0 then MAX_PLAYERS
                             else nat (dc_numplayers dc))\<rparr>))
     else Fault AssertFailed)"

section \<open>Packets in the data area\<close>

text \<open>The packet that \<^verbatim>\<open>pkt\<close> shows in the bytes of \<^verbatim>\<open>doomcom->data\<close>
  (\<^verbatim>\<open>struct packet\<close> is packed).\<close>

definition load_packet :: "u8 list \<Rightarrow> packet" where
  "load_packet bs =
    \<lparr>p_checksum = of_le32 (slice 0 4 bs), p_start = of_le32 (slice 4 4 bs),
     p_ack = of_le32 (slice 8 4 bs), p_player = bs ! 12, p_num_cmds = bs ! 13,
     p_cmds = map (\<lambda>i. of_le16 (slice (14 + 2 * i) 2 bs)) [0..<MAX_DELAY]\<rparr>"

definition Checksum :: "doomcom_t \<Rightarrow> u32" where
  "Checksum dc = Crc32 (take (nat (dc_datalength dc - 4)) (drop 4 (dc_data dc))) AND NCMD_CHECKSUM"

section \<open>Sending\<close>

definition time_now :: "protocol \<Rightarrow> u32 \<times> protocol" where
  "time_now s = (clock s (clock_calls s), s\<lparr>clock_calls := Suc (clock_calls s)\<rparr>)"

definition SendPacket :: "nat \<Rightarrow> protocol \<Rightarrow> protocol outcome" where
  "SendPacket i s =
    (let dest = nodes s ! i;
         w = send_window dest;
         r = recv_window dest
     in if unat (w_len w) > MAX_DELAY then Fault OutOfBounds
        else
          (let d1 = overwrite (dc_data (doomcom s)) 4 (le32 (w_start w));
               d2 = overwrite d1 8 (le32 (w_start r + ucast (w_len r)));
               d3 = d2[12 := word_of_int (player (nodes s ! 0))];
               d4 = d3[13 := w_len w];
               d5 = overwrite d4 14 (concat (map le16 (take (unat (w_len w)) (w_cmds w))));
               dc = (doomcom s)\<lparr>dc_command := CMD_SEND, dc_remotenode := int i,
                      dc_datalength := 46 - (int MAX_DELAY - uint (w_len w)) * 2,
                      dc_data := d5\<rparr>;
               dc' = dc\<lparr>dc_data := overwrite d5 0 (le32 (Checksum dc))\<rparr>;
               (dc'', drv) = NetSendPacket dc' (driver s);
               (now, s') = time_now (s\<lparr>doomcom := dc'', driver := drv\<rparr>)
           in Done (s'\<lparr>nodes := (nodes s')[i := dest\<lparr>last_send_time := now\<rparr>]\<rparr>)))"

section \<open>Receiving\<close>

definition process_ack :: "u32 \<Rightarrow> window \<Rightarrow> window outcome" where
  "process_ack ack w =
    (if ack > w_start w \<and> ack \<le> w_start w + ucast (w_len w) then
       (let cnt = int16_of_u32 (ack - w_start w);
            n = uint (w_len w) - cnt
        in if cnt + n > int (length (w_cmds w)) then Fault OutOfBounds
           else Done (w\<lparr>w_cmds := shift_down (nat cnt) (nat n) (w_cmds w),
                        w_start := w_start w + word_of_int cnt,
                        w_len := w_len w - word_of_int cnt\<rparr>))
     else Done w)"

text \<open>The loop over the commands of the packet, from command \<open>i\<close> on.\<close>

fun store_cmds :: "u32 \<Rightarrow> nat \<Rightarrow> u16 list \<Rightarrow> window \<Rightarrow> window" where
  "store_cmds start_index i [] w = w"
| "store_cmds start_index i (c # cs) w =
    (if start_index + of_nat i \<ge> of_nat MAX_DELAY then w
     else store_cmds start_index (Suc i) cs
       (w\<lparr>w_cmds := (w_cmds w)[unat (start_index + of_nat i) := c],
          w_len := ucast (max (ucast (w_len w)) (start_index + of_nat i + 1))\<rparr>))"

definition ReceivePacket :: "nat \<Rightarrow> protocol \<Rightarrow> protocol outcome" where
  "ReceivePacket k s =
    (let dc = doomcom s;
         pkt = load_packet (dc_data dc);
         n = nodes s ! k
     in if dc_datalength dc < MIN_PACKET_LEN \<or> p_checksum pkt \<noteq> Checksum dc
           \<or> unat (p_player pkt) \<ge> MAX_PLAYERS \<or> unat (p_num_cmds pkt) > MAX_DELAY
        then Done s
        else
          obind (process_ack (p_ack pkt) (send_window n)) (\<lambda>sw.
            (let n1 = n\<lparr>send_window := sw\<rparr>
             in if p_start pkt < w_start (recv_window n1)
                then Done (s\<lparr>nodes := (nodes s)[k := n1]\<rparr>)
                else
                  (let start_index = p_start pkt - w_start (recv_window n1);
                       rw = store_cmds start_index 0
                              (take (unat (p_num_cmds pkt)) (p_cmds pkt)) (recv_window n1)
                   in Done (s\<lparr>nodes := (nodes s)[k :=
                        n1\<lparr>recv_window := rw, player := uint (p_player pkt)\<rparr>]\<rparr>)))))"

definition resend_node :: "u32 \<Rightarrow> nat \<Rightarrow> protocol \<Rightarrow> protocol outcome" where
  "resend_node now i s =
    (if now - last_send_time (nodes s ! i) > 0 then SendPacket i s else Done s)"

definition CheckResends :: "protocol \<Rightarrow> protocol outcome" where
  "CheckResends s = (let (now, s') = time_now s in ofold (resend_node now) [1..<num_nodes s'] s')"

text \<open>
  The loop of \<^verbatim>\<open>ReceivePackets\<close>: it ends with the first answer that is no
  packet. A node number the assertion lets through must still index \<open>nodes\<close>.
\<close>

function receive_loop :: "protocol \<Rightarrow> protocol outcome" where
  "receive_loop s =
    (case NetGetPacket (doomcom s) (driver s) of
       (got, dc, d) \<Rightarrow>
         (let s' = s\<lparr>doomcom := dc, driver := d\<rparr>
          in if \<not> got then Done s'
             else if \<not> dc_remotenode dc < int (num_nodes s') then Fault AssertFailed
             else if dc_remotenode dc < 0 then Fault OutOfBounds
             else obind (ReceivePacket (nat (dc_remotenode dc)) s') (\<lambda>s''. receive_loop s'')))"
  by pat_completeness auto

lemma ReceivePacket_driver: "ReceivePacket k s = Done s' \<Longrightarrow> driver s' = driver s"
  by (auto simp: ReceivePacket_def Let_def obind_eq_Done split: if_splits)

termination receive_loop
proof (relation "measure (\<lambda>s. length (answers (driver s)))")
qed (auto dest!: ReceivePacket_driver NetGetPacket_consumes [OF sym])

declare receive_loop.simps [simp del]

text \<open>The state after the driver has stored its next answer.\<close>

definition take_answer :: "answer \<Rightarrow> answer list \<Rightarrow> protocol \<Rightarrow> protocol" where
  "take_answer a as s = s\<lparr>doomcom := (doomcom s)\<lparr>dc_command := CMD_GET,
       dc_remotenode := ans_node a, dc_datalength := int (length (ans_bytes a)),
       dc_data := overwrite (dc_data (doomcom s)) 0 (ans_bytes a)\<rparr>,
     driver := (driver s)\<lparr>answers := as\<rparr>\<rparr>"

definition no_packet :: "protocol \<Rightarrow> protocol" where
  "no_packet s = s\<lparr>doomcom := (doomcom s)\<lparr>dc_command := CMD_GET, dc_remotenode := -1\<rparr>\<rparr>"

lemma receive_loop_Nil: "answers (driver s) = [] \<Longrightarrow> receive_loop s = Done (no_packet s)"
  by (simp add: receive_loop.simps [of s] NetGetPacket_no_answer no_packet_def)

lemma receive_loop_Cons:
  "answers (driver s) = a # as \<Longrightarrow> receive_loop s =
     (if ans_node a = -1 then Done (take_answer a as s)
      else if \<not> ans_node a < int (num_nodes s) then Fault AssertFailed
      else if ans_node a < 0 then Fault OutOfBounds
      else obind (ReceivePacket (nat (ans_node a)) (take_answer a as s)) receive_loop)"
  by (simp add: receive_loop.simps [of s] NetGetPacket_answer take_answer_def Let_def)

lemma take_answer_simps [simp]:
  "nodes (take_answer a as s) = nodes s"
  "maketic (take_answer a as s) = maketic s"
  "gametic (take_answer a as s) = gametic s"
  "num_nodes (take_answer a as s) = num_nodes s"
  "consoleplayer (take_answer a as s) = consoleplayer s"
  "num_players (take_answer a as s) = num_players s"
  "sent (driver (take_answer a as s)) = sent (driver s)"
  "answers (driver (take_answer a as s)) = as"
  "dc_data (doomcom (take_answer a as s)) = overwrite (dc_data (doomcom s)) 0 (ans_bytes a)"
  "dc_datalength (doomcom (take_answer a as s)) = int (length (ans_bytes a))"
  by (simp_all add: take_answer_def)

lemma no_packet_simps [simp]:
  "nodes (no_packet s) = nodes s"
  "maketic (no_packet s) = maketic s"
  "gametic (no_packet s) = gametic s"
  "num_nodes (no_packet s) = num_nodes s"
  "consoleplayer (no_packet s) = consoleplayer s"
  "num_players (no_packet s) = num_players s"
  "driver (no_packet s) = driver s"
  "dc_data (doomcom (no_packet s)) = dc_data (doomcom s)"
  by (simp_all add: no_packet_def)

definition ReceivePackets :: "protocol \<Rightarrow> protocol outcome" where
  "ReceivePackets s = obind (CheckResends s) receive_loop"

section \<open>\<^verbatim>\<open>SwapCommand\<close>\<close>

text \<open>The body of the first loop: the new command goes to the end of the machine's own
  receive window (node 0) or of the send window of node \<open>i\<close>, which is sent.\<close>

definition register_node :: "u16 \<Rightarrow> nat \<Rightarrow> protocol \<Rightarrow> protocol outcome" where
  "register_node cmd i s =
    (let n = nodes s ! i;
         w = (if i = 0 then recv_window n else send_window n);
         new_len = int16_of_u32 (maketic s - w_start w)
     in if new_len > uint (w_len w) then
          (if new_len > int (length (w_cmds w)) then Fault OutOfBounds
           else
             (let w' = w\<lparr>w_cmds := (w_cmds w)[nat (new_len - 1) := cmd],
                         w_len := word_of_int new_len\<rparr>;
                  n' = (if i = 0 then n\<lparr>recv_window := w'\<rparr> else n\<lparr>send_window := w'\<rparr>);
                  s' = s\<lparr>nodes := (nodes s)[i := n']\<rparr>
              in if i \<noteq> 0 then SendPacket i s' else Done s'))
        else Done s)"

definition swap_register :: "u16 \<Rightarrow> protocol \<Rightarrow> protocol outcome" where
  "swap_register cmd s = ofold (register_node cmd) [0..<num_nodes s] s"

definition NewTicReady :: "protocol \<Rightarrow> bool" where
  "NewTicReady s = fold (\<lambda>i result. result \<and> w_len (recv_window (nodes s ! i)) > 0)
     [0..<num_nodes s] True"

text \<open>The waiting loop. When the driver's answers are used up it is still waiting.\<close>

function swap_wait :: "protocol \<Rightarrow> protocol outcome" where
  "swap_wait s =
    (if NewTicReady s then Done s
     else if answers (driver s) = [] then Blocked
     else obind (ReceivePackets s) (\<lambda>s'. swap_wait s'))"
  by pat_completeness auto

lemma SendPacket_answers: "SendPacket i s = Done s' \<Longrightarrow> answers (driver s') = answers (driver s)"
  by (auto simp: SendPacket_def Let_def NetSendPacket_eq time_now_def split: if_splits)

lemma CheckResends_invariant:
  assumes "\<And>i s s'. i \<in> {1..<num_nodes t} \<Longrightarrow> P s \<Longrightarrow> SendPacket i s = Done s' \<Longrightarrow> P s'"
    and "P (t\<lparr>clock_calls := Suc (clock_calls t)\<rparr>)" and "CheckResends t = Done t'"
  shows "P t'"
proof -
  let ?f = "resend_node (clock t (clock_calls t))"
  have step: "P s'" if "i \<in> set [1..<num_nodes t]" "P s" "?f i s = Done s'" for i s s'
    using that assms(1) by (auto simp: resend_node_def split: if_splits)
  from assms(3) have "ofold ?f [1..<num_nodes t] (t\<lparr>clock_calls := Suc (clock_calls t)\<rparr>) = Done t'"
    by (simp add: CheckResends_def time_now_def)
  with step assms(2) show ?thesis by (rule ofold_invariant)
qed

lemma CheckResends_answers:
  "CheckResends s = Done s' \<Longrightarrow> answers (driver s') = answers (driver s)"
  by (rule CheckResends_invariant [where P = "\<lambda>t. answers (driver t) = answers (driver s)"])
    (auto dest: SendPacket_answers)

lemma receive_loop_answers:
  assumes "receive_loop s = Done s'"
  shows "length (answers (driver s')) \<le> length (answers (driver s)) - 1"
  using assms
proof (induction "answers (driver s)" arbitrary: s)
  case Nil
  then show ?case by (auto simp: receive_loop_Nil)
next
  case (Cons a as)
  have next_answer: "answers (driver s) = a # as" using Cons.hyps(2) by simp
  show ?case
  proof (cases "ans_node a = -1")
    case True
    with Cons.prems next_answer show ?thesis by (auto simp: receive_loop_Cons)
  next
    case False
    with Cons.prems next_answer obtain t where
      t: "ReceivePacket (nat (ans_node a)) (take_answer a as s) = Done t" "receive_loop t = Done s'"
      by (auto simp: receive_loop_Cons obind_eq_Done split: if_splits)
    then have "as = answers (driver t)" by (auto dest: ReceivePacket_driver)
    with Cons.hyps(1) t(2) have "length (answers (driver s')) \<le> length as - 1" by blast
    then show ?thesis by (simp add: next_answer)
  qed
qed

termination swap_wait
proof (relation "measure (\<lambda>s. length (answers (driver s)))")
qed (auto simp: ReceivePackets_def obind_eq_Done simp flip: length_greater_0_conv
    dest!: CheckResends_answers receive_loop_answers)

declare swap_wait.simps [simp del]

text \<open>The body of the second loop over the nodes: the first command of the receive window
  is taken for the player of the node.\<close>

definition collect_node :: "nat \<Rightarrow> u16 list \<times> protocol \<Rightarrow> (u16 list \<times> protocol) outcome" where
  "collect_node i = (\<lambda>(cmds, s).
    (let n = nodes s ! i;
         p = player n;
         w = recv_window n
     in if p = -1 then Done (cmds, s)
        else if p < 0 \<or> p \<ge> int (length cmds) then Fault OutOfBounds
        else
          (let len' = w_len w - 1
           in if 1 + unat len' > length (w_cmds w) then Fault OutOfBounds
              else Done (cmds[nat p := w_cmds w ! 0],
                s\<lparr>nodes := (nodes s)[i := n\<lparr>recv_window := w\<lparr>w_start := w_start w + 1,
                   w_len := len', w_cmds := shift_down 1 (unat len') (w_cmds w)\<rparr>\<rparr>]\<rparr>))))"

definition swap_collect :: "protocol \<Rightarrow> (u16 list \<times> protocol) outcome" where
  "swap_collect s =
    obind (ofold collect_node [0..<num_nodes s] (replicate MAX_PLAYERS 0, s)) (\<lambda>(cmds, s').
      Done (cmds, s'\<lparr>maketic := maketic s' + 1, gametic := gametic s' + 1\<rparr>))"

text \<open>The result and the contents of \<^verbatim>\<open>cmds[]\<close> afterwards.\<close>

definition SwapCommand :: "u16 \<Rightarrow> u16 list \<Rightarrow> protocol \<Rightarrow> (bool \<times> u16 list \<times> protocol) outcome" where
  "SwapCommand cmd cmds s =
    (if maketic s - gametic s \<ge> of_nat MAX_DELAY then Done (False, cmds, s)
     else obind (swap_register cmd s) (\<lambda>s1.
            obind (swap_wait s1) (\<lambda>s2.
              obind (swap_collect s2) (\<lambda>(cmds', s3). Done (True, cmds', s3)))))"

end
