(* ===== verification/Protocol_Sound.thy ===== *)
theory Protocol_Sound
  imports Protocol
begin

text \<open>
  One machine of \<^verbatim>\<open>protocol.c\<close>: the bytes of a packet and their round trip, the
  windows as lists of commands, the well-formedness invariant, and that no operation
  fails an assertion or leaves an array.
\<close>

section \<open>The bytes of a packet\<close>

definition packet_body :: "u32 \<Rightarrow> u32 \<Rightarrow> u8 \<Rightarrow> u16 list \<Rightarrow> u8 list" where
  "packet_body start ack pl cs =
     le32 start @ le32 ack @ [pl] @ [of_nat (length cs)] @ concat (map le16 cs)"

definition packet_bytes :: "u32 \<Rightarrow> u32 \<Rightarrow> u8 \<Rightarrow> u16 list \<Rightarrow> u8 list" where
  "packet_bytes start ack pl cs =
     le32 (Crc32 (packet_body start ack pl cs) AND NCMD_CHECKSUM) @ packet_body start ack pl cs"

lemma length_packet_body [simp]: "length (packet_body start ack pl cs) = 10 + 2 * length cs"
  by (simp add: packet_body_def)

lemma length_packet_bytes [simp]: "length (packet_bytes start ack pl cs) = 14 + 2 * length cs"
  by (simp add: packet_bytes_def)

section \<open>Windows\<close>

definition wf_window :: "window \<Rightarrow> bool" where
  "wf_window w \<longleftrightarrow> length (w_cmds w) = MAX_DELAY \<and> unat (w_len w) \<le> MAX_DELAY"

text \<open>The commands a window holds.\<close>

definition win_cmds :: "window \<Rightarrow> u16 list" where
  "win_cmds w = take (unat (w_len w)) (w_cmds w)"

lemma length_win_cmds: "wf_window w \<Longrightarrow> length (win_cmds w) = unat (w_len w)"
  by (simp add: wf_window_def win_cmds_def)

definition wf_node :: "node \<Rightarrow> bool" where
  "wf_node n \<longleftrightarrow> wf_window (send_window n) \<and> wf_window (recv_window n)
     \<and> -1 \<le> player n \<and> player n < int MAX_PLAYERS
     \<and> (0 < w_len (recv_window n) \<longrightarrow> player n \<noteq> -1)"

definition wf_protocol :: "protocol \<Rightarrow> bool" where
  "wf_protocol s \<longleftrightarrow> length (nodes s) = MAX_PLAYERS \<and> (\<forall>n \<in> set (nodes s). wf_node n)
     \<and> player (nodes s ! 0) \<noteq> -1
     \<and> length (dc_data (doomcom s)) = DATA_SIZE
     \<and> 2 \<le> num_nodes s \<and> num_nodes s \<le> MAX_PLAYERS
     \<and> consoleplayer s < num_players s \<and> num_players s \<le> MAX_PLAYERS"

lemma wf_nth: "wf_protocol s \<Longrightarrow> i < MAX_PLAYERS \<Longrightarrow> wf_node (nodes s ! i)"
  by (simp add: wf_protocol_def)

lemma wf_update:
  "wf_protocol s \<Longrightarrow> i < MAX_PLAYERS \<Longrightarrow> wf_node n \<Longrightarrow> (i = 0 \<Longrightarrow> player n \<noteq> -1) \<Longrightarrow>
     wf_protocol (s\<lparr>nodes := (nodes s)[i := n]\<rparr>)"
  by (auto simp: wf_protocol_def nth_list_update dest: set_update_subset_insert [THEN subsetD])

section \<open>\<^verbatim>\<open>SendPacket\<close>\<close>

text \<open>What is handed to the driver for node \<open>i\<close>.\<close>

definition packet_for :: "nat \<Rightarrow> protocol \<Rightarrow> u8 list" where
  "packet_for i s =
    (let w = send_window (nodes s ! i); r = recv_window (nodes s ! i)
     in packet_bytes (w_start w) (w_start r + ucast (w_len r))
          (word_of_int (player (nodes s ! 0))) (win_cmds w))"

text \<open>The state after it: the data area is scratch space, everything else is spelled out.\<close>

definition sent_state :: "nat \<Rightarrow> doomcom_t \<Rightarrow> protocol \<Rightarrow> protocol" where
  "sent_state i dc s = s\<lparr>doomcom := dc,
     driver := (driver s)\<lparr>sent := sent (driver s) @ [(int i, packet_for i s)]\<rparr>,
     clock_calls := Suc (clock_calls s),
     nodes := (nodes s)[i := (nodes s ! i)\<lparr>last_send_time := clock s (clock_calls s)\<rparr>]\<rparr>"

lemma SendPacket_eq:
  assumes wf: "wf_window (send_window (nodes s ! i))"
    and data: "length (dc_data (doomcom s)) = DATA_SIZE"
  shows "\<exists>dc. SendPacket i s = Done (sent_state i dc s) \<and> length (dc_data dc) = DATA_SIZE"
proof -
  define w r where "w = send_window (nodes s ! i)" and "r = recv_window (nodes s ! i)"
  define n where "n = unat (w_len w)"
  define cs where "cs = win_cmds w"
  define bd where "bd = packet_body (w_start w) (w_start r + ucast (w_len r))
     (word_of_int (player (nodes s ! 0))) cs"
  define D where "D = dc_data (doomcom s)"
  have n: "n \<le> 16" and D: "length D = 512"
    using wf data by (auto simp: wf_window_def w_def n_def MAX_DELAY_def DATA_SIZE_def D_def)
  have cs: "length cs = n" "take n (w_cmds w) = cs" "of_nat n = w_len w"
    using wf by (auto simp: cs_def n_def win_cmds_def wf_window_def w_def)
  have lb: "length bd = 10 + 2 * n" by (simp add: bd_def cs)
  define d5 where "d5 = overwrite D 4 bd"
  have d5: "overwrite ((overwrite (overwrite D 4 (le32 (w_start w))) 8
        (le32 (w_start r + ucast (w_len r))))
          [12 := word_of_int (player (nodes s ! 0)), 13 := w_len w]) 14 (concat (map le16 cs)) = d5"
    using D n cs by (simp add: list_update_overwrite array_simps d5_def bd_def packet_body_def)
  have body: "take (length bd) (drop 4 d5) = bd"
    using D n lb by (simp add: d5_def overwrite_def)
  have front: "overwrite d5 0 (le32 c) = overwrite D 0 (le32 c @ bd)" for c
    using D n lb by (simp add: d5_def array_simps)
  define dc where "dc = (doomcom s)\<lparr>dc_command := CMD_SEND, dc_remotenode := int i,
      dc_datalength := 14 + 2 * int n, dc_data := d5\<rparr>"
  have len: "nat (14 + 2 * int n - 4) = length bd" "nat (14 + 2 * int n) = length (le32 c @ bd)" for c
    using lb by simp_all
  have "dc_datalength dc - 4 = int (length bd)" "dc_data dc = d5"
    by (simp_all add: dc_def lb)
  then have chk: "Checksum dc = Crc32 bd AND NCMD_CHECKSUM"
    by (simp only: Checksum_def nat_int body)
  have pk: "le32 (Crc32 bd AND NCMD_CHECKSUM) @ bd = packet_for i s"
    by (simp add: packet_for_def packet_bytes_def bd_def cs_def w_def r_def Let_def)
  have un: "uint (w_len w) = int n" by (metis n_def uint_nat)
  have dl: "46 - (int MAX_DELAY - int n) * 2 = 14 + 2 * int n" by (simp add: MAX_DELAY_def)
  have small: "(MAX_DELAY < n) = False" using n by (simp add: MAX_DELAY_def)
  have take: "take (nat (14 + 2 * int n)) (overwrite D 0 (le32 c @ bd)) = le32 c @ bd" for c
    by (rule take_overwrite_0) (rule len(2))
  have "SendPacket i s = Done (sent_state i (dc\<lparr>dc_data := overwrite D 0 (packet_for i s)\<rparr>) s)"
    unfolding SendPacket_def Let_def w_def [symmetric] r_def [symmetric] n_def [symmetric]
      D_def [symmetric] cs(2) d5 un dl dc_def [symmetric] chk front small if_False NetSendPacket_eq
    by (simp add: dc_def time_now_def sent_state_def take flip: pk)
  then show ?thesis
    using D n lb by (intro exI) (auto simp: DATA_SIZE_def simp flip: pk)
qed

section \<open>Reading a packet back\<close>

text \<open>The guard at the head of \<^verbatim>\<open>ReceivePacket\<close>.\<close>

definition packet_accepted :: "doomcom_t \<Rightarrow> bool" where
  "packet_accepted dc \<longleftrightarrow>
     (let pkt = load_packet (dc_data dc)
      in MIN_PACKET_LEN \<le> dc_datalength dc \<and> p_checksum pkt = Checksum dc
         \<and> unat (p_player pkt) < MAX_PLAYERS \<and> unat (p_num_cmds pkt) \<le> MAX_DELAY)"

lemma ReceivePacket_rejected: "\<not> packet_accepted (doomcom s) \<Longrightarrow> ReceivePacket k s = Done s"
  by (simp add: ReceivePacket_def packet_accepted_def Let_def not_le not_less)

lemma packet_bytes_fields:
  assumes "length cs \<le> MAX_DELAY"
  shows "slice 0 4 (packet_bytes st ack pl cs) = le32 (Crc32 (packet_body st ack pl cs) AND NCMD_CHECKSUM)"
    and "slice 4 4 (packet_bytes st ack pl cs) = le32 st"
    and "slice 8 4 (packet_bytes st ack pl cs) = le32 ack"
    and "packet_bytes st ack pl cs ! 12 = pl"
    and "packet_bytes st ack pl cs ! 13 = of_nat (length cs)"
    and "drop 14 (packet_bytes st ack pl cs) = concat (map le16 cs)"
  by (simp_all add: packet_bytes_def packet_body_def slice_def nth_append)

lemma load_packet_bytes:
  fixes st ack :: u32 and pl :: u8
  assumes cs: "length cs \<le> MAX_DELAY" and D: "length D = DATA_SIZE"
  defines "pkt \<equiv> load_packet (overwrite D 0 (packet_bytes st ack pl cs))"
  shows "p_checksum pkt = Crc32 (packet_body st ack pl cs) AND NCMD_CHECKSUM"
    and "p_start pkt = st" and "p_ack pkt = ack" and "p_player pkt = pl"
    and "unat (p_num_cmds pkt) = length cs"
    and "take (length cs) (p_cmds pkt) = cs"
proof -
  let ?bs = "packet_bytes st ack pl cs"
  have fits: "length ?bs \<le> length D" using cs D by (simp add: MAX_DELAY_def DATA_SIZE_def)
  have nth: "overwrite D 0 ?bs ! i = ?bs ! i" if "i < length ?bs" for i
    using that by (simp add: overwrite_def nth_append)
  note fields = packet_bytes_fields [OF cs]
  show "p_checksum pkt = Crc32 (packet_body st ack pl cs) AND NCMD_CHECKSUM"
    "p_start pkt = st" "p_ack pkt = ack" "p_player pkt = pl"
    by (simp_all add: pkt_def load_packet_def slice_overwrite_0 fields nth c32.dec_enc)
  have "length cs < 256" using cs by (simp add: MAX_DELAY_def)
  then show "unat (p_num_cmds pkt) = length cs"
    by (simp add: pkt_def load_packet_def nth fields unat_of_nat take_bit_nat_eq_self)
  show "take (length cs) (p_cmds pkt) = cs"
  proof (rule nth_equalityI)
    show "length (take (length cs) (p_cmds pkt)) = length cs"
      using cs by (simp add: pkt_def load_packet_def)
    fix i assume "i < length (take (length cs) (p_cmds pkt))"
    then have i: "i < length cs" "i < MAX_DELAY" using cs by auto
    then have "slice (14 + 2 * i) 2 (overwrite D 0 ?bs) = slice (2 * i) 2 (drop 14 ?bs)"
      by (simp add: slice_overwrite_0) (simp add: slice_def add.commute)
    then show "take (length cs) (p_cmds pkt) ! i = cs ! i"
      using i c16.load_array [of i cs "[]"] by (simp add: pkt_def load_packet_def fields)
  qed
qed

lemma Checksum_packet_bytes:
  assumes "dc_data dc = overwrite D 0 (packet_bytes st ack pl cs)"
    and "dc_datalength dc = int (length (packet_bytes st ack pl cs))"
  shows "Checksum dc = Crc32 (packet_body st ack pl cs) AND NCMD_CHECKSUM"
proof -
  have "nat (dc_datalength dc - 4) = length (packet_body st ack pl cs)"
    using assms(2) by simp
  moreover have "take (length (packet_body st ack pl cs)) (drop 4 (dc_data dc)) = packet_body st ack pl cs"
    by (simp add: assms(1) overwrite_def packet_bytes_def)
  ultimately show ?thesis by (simp only: Checksum_def)
qed

lemma packet_bytes_accepted:
  assumes "length cs \<le> MAX_DELAY" and "length D = DATA_SIZE" and "unat pl < MAX_PLAYERS"
    and "dc_data dc = overwrite D 0 (packet_bytes st ack pl cs)"
    and "dc_datalength dc = int (length (packet_bytes st ack pl cs))"
  shows "packet_accepted dc"
  using assms load_packet_bytes [OF assms(1,2), of st ack pl] Checksum_packet_bytes [OF assms(4,5)]
  by (simp add: packet_accepted_def MIN_PACKET_LEN_def Let_def)

section \<open>Acknowledgements\<close>

lemma u32_add_u8: "unat (a + ucast (b :: u8) :: u32) =
    (if unat a + unat b < 2 ^ 32 then unat a + unat b else unat a + unat b - 2 ^ 32)"
  using unat_plus_if_size [of a "ucast b"] by (simp add: word_size)

text \<open>The acknowledgement is for a command the window holds.\<close>

definition ack_inside :: "u32 \<Rightarrow> window \<Rightarrow> bool" where
  "ack_inside ack w \<longleftrightarrow> unat (w_start w) < unat ack \<and> unat ack \<le> unat (w_start w) + unat (w_len w)"

lemma ack_guardD: "ack > w_start w \<Longrightarrow> ack \<le> w_start w + ucast (w_len w) \<Longrightarrow> ack_inside ack w"
  using unsigned_less [of "w_len w"]
  by (auto simp: word_less_nat_alt word_le_nat_alt u32_add_u8 ack_inside_def split: if_splits)

lemma ack_guard:
  "unat (w_start w) + unat (w_len w) < 2 ^ 32 \<Longrightarrow>
    (ack > w_start w \<and> ack \<le> w_start w + ucast (w_len w)) \<longleftrightarrow> ack_inside ack w"
  by (simp add: word_less_nat_alt word_le_nat_alt u32_add_u8 ack_inside_def)

text \<open>The window after an acknowledgement inside it: the acknowledged commands are gone.\<close>

definition acked :: "u32 \<Rightarrow> window \<Rightarrow> window" where
  "acked ack w = (let cnt = unat ack - unat (w_start w)
     in w\<lparr>w_cmds := shift_down cnt (unat (w_len w) - cnt) (w_cmds w), w_start := ack,
          w_len := w_len w - of_nat cnt\<rparr>)"

lemma process_ack_inside:
  assumes wf: "wf_window w" and guard: "ack > w_start w" "ack \<le> w_start w + ucast (w_len w)"
  shows "process_ack ack w = Done (acked ack w)"
proof -
  have inside: "ack_inside ack w" using guard by (rule ack_guardD)
  define cnt where "cnt = unat ack - unat (w_start w)"
  have cnt: "cnt \<le> unat (w_len w)" "unat (w_len w) \<le> 16"
    using inside wf by (auto simp: cnt_def ack_inside_def wf_window_def MAX_DELAY_def)
  have "unat (ack - w_start w) = cnt"
    using inside by (simp add: unat_sub_small ack_inside_def cnt_def)
  moreover have "cnt < 2 ^ 15" using cnt by simp
  ultimately have i: "int16_of_u32 (ack - w_start w) = int cnt"
    by (metis int16_of_u32_small)
  have n: "uint (w_len w) - int cnt = int (unat (w_len w) - cnt)"
    using cnt(1) by (metis of_nat_diff uint_nat)
  have fits: "(int cnt + int (unat (w_len w) - cnt) > int (length (w_cmds w))) = False"
    using cnt wf by (simp only: of_nat_add [symmetric] of_nat_less_iff) (simp add: wf_window_def MAX_DELAY_def)
  have st: "of_nat cnt = ack - w_start w"
    using \<open>unat (ack - w_start w) = cnt\<close> by (metis of_nat_unat ucast_id)
  show ?thesis
    using guard
    by (simp only: process_ack_def Let_def i n fits if_False nat_int of_int_of_nat_eq acked_def
        cnt_def [symmetric]) (simp add: st)
qed

lemma acked_simps:
  assumes "wf_window w" and "ack_inside ack w"
  shows "wf_window (acked ack w)"
    and "w_start (acked ack w) = ack"
    and "unat (w_len (acked ack w)) = unat (w_len w) - (unat ack - unat (w_start w))"
    and "win_cmds (acked ack w) = drop (unat ack - unat (w_start w)) (win_cmds w)"
proof -
  define cnt where "cnt = unat ack - unat (w_start w)"
  have cnt: "cnt \<le> unat (w_len w)" "unat (w_len w) \<le> length (w_cmds w)"
    using assms by (auto simp: cnt_def ack_inside_def wf_window_def)
  then have "unat (of_nat cnt :: u8) = cnt"
    using unat_u8_less [of "w_len w"] by (intro unat_of_nat_u8) linarith
  with cnt have len: "unat (w_len w - of_nat cnt) = unat (w_len w) - cnt"
    by (simp add: unat_sub_small)
  then show "unat (w_len (acked ack w)) = unat (w_len w) - (unat ack - unat (w_start w))"
    by (simp add: acked_def Let_def cnt_def)
  show "w_start (acked ack w) = ack" by (simp add: acked_def Let_def)
  show "wf_window (acked ack w)"
    using assms(1) cnt len by (auto simp: wf_window_def acked_def Let_def cnt_def [symmetric])
  show "win_cmds (acked ack w) = drop (unat ack - unat (w_start w)) (win_cmds w)"
    using cnt by (simp add: win_cmds_def acked_def Let_def cnt_def [symmetric] len shift_down_def
        overwrite_def slice_def drop_take)
qed

definition ack_step :: "u32 \<Rightarrow> window \<Rightarrow> window" where
  "ack_step ack w =
     (if ack > w_start w \<and> ack \<le> w_start w + ucast (w_len w) then acked ack w else w)"

lemma process_ack_eq: "wf_window w \<Longrightarrow> process_ack ack w = Done (ack_step ack w)"
  using process_ack_inside [of w ack] by (auto simp: ack_step_def process_ack_def)

lemma ack_step_wf: "wf_window w \<Longrightarrow> wf_window (ack_step ack w)"
  by (auto simp: ack_step_def acked_simps dest: ack_guardD)

section \<open>Storing received commands\<close>

text \<open>The window after the loop: the commands that fit are stored from the given offset.\<close>

definition stored :: "nat \<Rightarrow> u16 list \<Rightarrow> window \<Rightarrow> window" where
  "stored k cs w =
    (let m = min (length cs) (MAX_DELAY - k)
     in if m = 0 then w
        else w\<lparr>w_cmds := overwrite (w_cmds w) k (take m cs),
               w_len := of_nat (max (unat (w_len w)) (k + m))\<rparr>)"

lemma store_cmds_far: "MAX_DELAY \<le> unat si \<Longrightarrow> store_cmds si 0 cs w = w"
  by (cases cs) (auto simp: word_le_nat_alt MAX_DELAY_def)

text \<open>One command at place \<open>k\<close>, and the others behind it.\<close>

lemma stored_Cons:
  fixes c :: u16
  assumes "\<not> 16 \<le> k" and "length (w_cmds w) = 16" and "unat (w_len w) \<le> 16"
  defines "w' \<equiv> w\<lparr>w_cmds := (w_cmds w)[k := c], w_len := of_nat (max (unat (w_len w)) (k + 1))\<rparr>"
  shows "stored (k + 1) cs w' = stored k (c # cs) w"
proof -
  define m where "m = min (length cs) (15 - k)"
  have w: "unat (w_len w') = max (unat (w_len w)) (k + 1)" using assms by (simp add: w'_def)
  have eqs: "min (length cs) (MAX_DELAY - (k + 1)) = m"
    "min (length (c # cs)) (MAX_DELAY - k) = Suc m"
    "max (max (unat (w_len w)) (k + 1)) (k + 1 + m) = max (unat (w_len w)) (k + Suc m)"
    using assms(1) by (auto simp: m_def MAX_DELAY_def)
  have "overwrite ((w_cmds w)[k := c]) (k + 1) (take m cs) = overwrite (w_cmds w) k (c # take m cs)"
    using assms(1,2) by (simp add: list_update_overwrite array_simps m_def)
  then show ?thesis
    unfolding stored_def eqs w Let_def
    using assms(1,2) by (auto simp: w'_def list_update_overwrite)
qed

lemma store_cmds_near:
  assumes "wf_window w" and "unat si + i \<le> MAX_DELAY"
  shows "store_cmds si i cs w = stored (unat si + i) cs w"
  using assms
proof (induction cs arbitrary: i w)
  case Nil
  then show ?case by (simp add: stored_def)
next
  case (Cons c cs)
  define k where "k = unat si + i"
  have k: "k \<le> 16" using Cons.prems by (simp add: k_def MAX_DELAY_def)
  have "unat (of_nat i :: u32) = i"
    using Cons.prems(2) by (simp add: MAX_DELAY_def)
  then have si: "unat (si + of_nat i) = k"
    using k by (subst unat_add_small) (auto simp: k_def)
  have ge: "si + of_nat i \<ge> of_nat MAX_DELAY \<longleftrightarrow> 16 \<le> k"
    by (simp add: word_le_nat_alt si MAX_DELAY_def)
  show ?case
  proof (cases "16 \<le> k")
    case True
    with k ge show ?thesis by (simp add: stored_def MAX_DELAY_def k_def [symmetric])
  next
    case False
    have "unat (si + of_nat i + 1) = k + 1"
      using False by (subst unat_add_small) (auto simp: si)
    then have "unat (max (ucast (w_len w)) (si + of_nat i + 1)) = max (unat (w_len w)) (k + 1)"
      by (simp add: max_def word_le_nat_alt)
    then have len: "ucast (max (ucast (w_len w)) (si + of_nat i + 1))
        = (of_nat (max (unat (w_len w)) (k + 1)) :: u8)"
      by (metis of_nat_unat)
    let ?w = "w\<lparr>w_cmds := (w_cmds w)[k := c], w_len := of_nat (max (unat (w_len w)) (k + 1))\<rparr>"
    have len16: "unat (w_len w) \<le> 16" "length (w_cmds w) = 16"
      using Cons.prems(1) by (auto simp: wf_window_def MAX_DELAY_def)
    with False have w: "wf_window ?w" "unat (w_len ?w) = max (unat (w_len w)) (k + 1)"
      by (auto simp: wf_window_def MAX_DELAY_def)
    have "store_cmds si i (c # cs) w = store_cmds si (Suc i) cs ?w"
      using False ge by (simp add: si len)
    also have "\<dots> = stored (k + 1) cs ?w"
      using Cons.IH [OF w(1), of "Suc i"] False by (simp add: k_def MAX_DELAY_def)
    also have "\<dots> = stored k (c # cs) w"
      using stored_Cons [OF False len16(2,1)] .
    finally show ?thesis by (simp add: k_def)
  qed
qed

lemma store_cmds_eq: "wf_window w \<Longrightarrow> store_cmds si 0 cs w = stored (unat si) cs w"
proof (cases "unat si \<le> MAX_DELAY")
  case True
  then show "wf_window w \<Longrightarrow> ?thesis" using store_cmds_near [of w si 0 cs] by simp
next
  case False
  then show "wf_window w \<Longrightarrow> ?thesis" by (simp add: store_cmds_far stored_def)
qed

lemma stored_simps:
  assumes "wf_window w"
  shows "wf_window (stored k cs w)"
    and "w_start (stored k cs w) = w_start w"
    and "unat (w_len (stored k cs w)) = (if min (length cs) (MAX_DELAY - k) = 0 then unat (w_len w)
           else max (unat (w_len w)) (k + min (length cs) (MAX_DELAY - k)))"
proof -
  define m where "m = min (length cs) (MAX_DELAY - k)"
  have w: "length (w_cmds w) = 16" "unat (w_len w) \<le> 16"
    using assms by (auto simp: wf_window_def MAX_DELAY_def)
  have m: "m \<le> length cs" "m = 0 \<or> k + m \<le> 16"
    by (auto simp: m_def MAX_DELAY_def)
  then have "length (take m cs) = m" by simp
  then show "wf_window (stored k cs w)"
    using w m by (auto simp: wf_window_def stored_def Let_def m_def [symmetric] MAX_DELAY_def)
  show "w_start (stored k cs w) = w_start w"
    by (simp add: stored_def Let_def)
  have "max (unat (w_len w)) (k + m) < 256" if "m \<noteq> 0"
    using w m that by auto
  then show "unat (w_len (stored k cs w)) = (if min (length cs) (MAX_DELAY - k) = 0 then unat (w_len w)
           else max (unat (w_len w)) (k + min (length cs) (MAX_DELAY - k)))"
    unfolding stored_def Let_def m_def [symmetric] by simp
qed

section \<open>\<^verbatim>\<open>ReceivePacket\<close>\<close>

text \<open>What an accepted packet does to the node it came from.\<close>

definition received :: "u32 \<Rightarrow> u32 \<Rightarrow> u8 \<Rightarrow> u16 list \<Rightarrow> node \<Rightarrow> node" where
  "received st ack pl cs n =
    (let n1 = n\<lparr>send_window := ack_step ack (send_window n)\<rparr>; rw = recv_window n
     in if st < w_start rw then n1
        else n1\<lparr>recv_window := stored (unat (st - w_start rw)) cs rw, player := uint pl\<rparr>)"

lemma ReceivePacket_accepted:
  assumes "packet_accepted (doomcom s)" and "wf_node (nodes s ! k)"
  defines "pkt \<equiv> load_packet (dc_data (doomcom s))"
  shows "ReceivePacket k s = Done (s\<lparr>nodes := (nodes s)[k :=
    received (p_start pkt) (p_ack pkt) (p_player pkt) (take (unat (p_num_cmds pkt)) (p_cmds pkt))
      (nodes s ! k)]\<rparr>)"
  using assms
  by (simp add: ReceivePacket_def packet_accepted_def Let_def not_le not_less wf_node_def
      process_ack_eq received_def store_cmds_eq)

lemma uint_player: "uint (pl :: u8) \<noteq> -1" "-1 \<le> uint pl"
    "unat pl < MAX_PLAYERS \<Longrightarrow> uint pl < int MAX_PLAYERS"
proof -
  have "0 \<le> uint pl" by simp
  then show "uint pl \<noteq> -1" "-1 \<le> uint pl" by linarith+
  show "unat pl < MAX_PLAYERS \<Longrightarrow> uint pl < int MAX_PLAYERS" by (metis of_nat_less_iff uint_nat)
qed

lemma received_wf:
  assumes "wf_node n" and "unat pl < MAX_PLAYERS"
  shows "wf_node (received st ack pl cs n)"
  using assms
  by (auto simp: wf_node_def received_def Let_def ack_step_wf stored_simps uint_player)

lemma received_player: "player n \<noteq> -1 \<Longrightarrow> player (received st ack pl cs n) \<noteq> -1"
  by (simp add: received_def Let_def uint_player)

lemma ReceivePacket_total:
  assumes "wf_protocol s" and "k < MAX_PLAYERS"
  shows "\<exists>s'. ReceivePacket k s = Done s' \<and> wf_protocol s' \<and> num_nodes s' = num_nodes s"
proof (cases "packet_accepted (doomcom s)")
  case True
  note wfk = wf_nth [OF assms]
  have "unat (p_player (load_packet (dc_data (doomcom s)))) < MAX_PLAYERS"
    using True by (simp add: packet_accepted_def Let_def)
  then have "wf_protocol (s\<lparr>nodes := (nodes s)[k := received st ack
      (p_player (load_packet (dc_data (doomcom s)))) cs (nodes s ! k)]\<rparr>)" for st ack cs
    using assms by (intro wf_update received_wf wfk received_player) (auto simp: wf_protocol_def)
  then show ?thesis
    unfolding ReceivePacket_accepted [OF True wfk] by auto
next
  case False
  with assms show ?thesis by (simp add: ReceivePacket_rejected)
qed

section \<open>Receiving and resending\<close>

lemma sent_state_wf:
  assumes "wf_protocol s" and "i < MAX_PLAYERS" and "length (dc_data dc) = DATA_SIZE"
  shows "wf_protocol (sent_state i dc s)"
proof -
  have "wf_node ((nodes s ! i)\<lparr>last_send_time := t\<rparr>)" for t
    using wf_nth [OF assms(1,2)] by (simp add: wf_node_def)
  then have "wf_protocol (s\<lparr>nodes := (nodes s)[i := (nodes s ! i)\<lparr>last_send_time := t\<rparr>]\<rparr>)" for t
    using assms by (intro wf_update) (auto simp: wf_protocol_def)
  then show ?thesis
    using assms(3) by (simp add: wf_protocol_def sent_state_def)
qed

lemma SendPacket_total:
  assumes "wf_protocol s" and "i < MAX_PLAYERS"
  shows "\<exists>dc. SendPacket i s = Done (sent_state i dc s) \<and> length (dc_data dc) = DATA_SIZE
    \<and> wf_protocol (sent_state i dc s)"
  using SendPacket_eq [of s i] wf_nth [OF assms] sent_state_wf [OF assms] assms
  by (auto simp: wf_node_def wf_protocol_def)

lemma sent_state_simps [simp]:
  "num_nodes (sent_state i dc s) = num_nodes s"
  "maketic (sent_state i dc s) = maketic s"
  "gametic (sent_state i dc s) = gametic s"
  "answers (driver (sent_state i dc s)) = answers (driver s)"
  "sent (driver (sent_state i dc s)) = sent (driver s) @ [(int i, packet_for i s)]"
  by (simp_all add: sent_state_def)

lemma CheckResends_total:
  assumes "wf_protocol s"
  shows "\<exists>s'. CheckResends s = Done s' \<and> wf_protocol s' \<and> num_nodes s' = num_nodes s"
proof -
  let ?P = "\<lambda>t. wf_protocol t \<and> num_nodes t = num_nodes s"
  have step: "\<exists>t'. resend_node now i t = Done t' \<and> ?P t'"
    if i: "i \<in> set [1..<num_nodes s]" and P: "?P t" for now i t
  proof -
    have "i < MAX_PLAYERS" using i assms by (auto simp: wf_protocol_def)
    then show ?thesis
      using SendPacket_total [of t i] P by (auto simp: resend_node_def)
  qed
  have "wf_protocol (s\<lparr>clock_calls := Suc (clock_calls s)\<rparr>)"
    using assms by (simp add: wf_protocol_def)
  then have "\<exists>s'. ofold (resend_node now) [1..<num_nodes s] (s\<lparr>clock_calls := Suc (clock_calls s)\<rparr>)
      = Done s' \<and> ?P s'" for now
    by (intro ofold_total [where P = ?P] step) auto
  then show ?thesis by (simp add: CheckResends_def time_now_def)
qed

lemma take_answer_wf:
  assumes "wf_protocol s" and "length (ans_bytes a) \<le> DATA_SIZE"
  shows "wf_protocol (take_answer a as s)"
  using assms by (simp add: wf_protocol_def)

lemma no_packet_wf: "wf_protocol s \<Longrightarrow> wf_protocol (no_packet s)"
  by (simp add: wf_protocol_def)

lemma receive_loop_total:
  assumes "wf_protocol s" and "\<forall>a \<in> set (answers (driver s)). proper_answer (num_nodes s) a"
  shows "\<exists>s'. receive_loop s = Done s' \<and> wf_protocol s' \<and> num_nodes s' = num_nodes s
    \<and> set (answers (driver s')) \<subseteq> set (answers (driver s))"
  using assms
proof (induction "answers (driver s)" arbitrary: s)
  case Nil
  then show ?case using receive_loop_Nil [of s] no_packet_wf by force
next
  case (Cons a as)
  have next_answer: "answers (driver s) = a # as" using Cons.hyps(2) by simp
  have wf: "wf_protocol (take_answer a as s)"
    using Cons.prems next_answer by (intro take_answer_wf) (auto simp: proper_answer_def)
  show ?case
  proof (cases "ans_node a = -1")
    case True
    with next_answer wf show ?thesis by (auto simp: receive_loop_Cons)
  next
    case False
    have node: "0 \<le> ans_node a" "ans_node a < int (num_nodes s)"
      using Cons.prems(2) next_answer False by (auto simp: proper_answer_def)
    then have "nat (ans_node a) < MAX_PLAYERS"
      using Cons.prems(1) by (auto simp: wf_protocol_def)
    then obtain t where t: "ReceivePacket (nat (ans_node a)) (take_answer a as s) = Done t"
        "wf_protocol t" "num_nodes t = num_nodes s"
      using ReceivePacket_total [OF wf] by auto
    then have as: "as = answers (driver t)" by (auto dest: ReceivePacket_driver)
    then obtain s' where "receive_loop t = Done s'" "wf_protocol s'" "num_nodes s' = num_nodes s"
        "set (answers (driver s')) \<subseteq> set as"
      using Cons.hyps(1) [OF as t(2)] t(3) Cons.prems(2) next_answer by auto
    with t node False next_answer show ?thesis by (auto simp: receive_loop_Cons)
  qed
qed

lemma ReceivePackets_total:
  assumes "wf_protocol s" and "\<forall>a \<in> set (answers (driver s)). proper_answer (num_nodes s) a"
  shows "\<exists>s'. ReceivePackets s = Done s' \<and> wf_protocol s' \<and> num_nodes s' = num_nodes s
    \<and> set (answers (driver s')) \<subseteq> set (answers (driver s))"
proof -
  from CheckResends_total [OF assms(1)] obtain t where
    t: "CheckResends s = Done t" "wf_protocol t" "num_nodes t = num_nodes s" by auto
  with assms(2) receive_loop_total [of t] show ?thesis
    by (simp add: ReceivePackets_def CheckResends_answers [OF t(1)])
qed

section \<open>Registering a command\<close>

text \<open>How many tics from the start of a node's outgoing window (its own receive window for
  node 0) to the tic being made.\<close>

definition out_window :: "nat \<Rightarrow> protocol \<Rightarrow> window" where
  "out_window i s = (if i = 0 then recv_window (nodes s ! i) else send_window (nodes s ! i))"

definition new_length :: "nat \<Rightarrow> protocol \<Rightarrow> nat" where
  "new_length i s = unat (maketic s - w_start (out_window i s))"

definition pushed :: "u16 \<Rightarrow> nat \<Rightarrow> window \<Rightarrow> window" where
  "pushed cmd k w = w\<lparr>w_cmds := (w_cmds w)[k - 1 := cmd], w_len := of_nat k\<rparr>"

definition with_out_window :: "nat \<Rightarrow> window \<Rightarrow> protocol \<Rightarrow> protocol" where
  "with_out_window i w s = s\<lparr>nodes := (nodes s)[i :=
     (if i = 0 then (nodes s ! i)\<lparr>recv_window := w\<rparr> else (nodes s ! i)\<lparr>send_window := w\<rparr>)]\<rparr>"

text \<open>The same distance as the \<^verbatim>\<open>int\<close> of 16 bits the code computes. The code compares it
  with the length of the window only; a command behind the end of the array is stored all the same.\<close>

definition new_len :: "nat \<Rightarrow> protocol \<Rightarrow> int" where
  "new_len i s = int16_of_u32 (maketic s - w_start (out_window i s))"

lemma new_len_small: "new_length i s \<le> MAX_DELAY \<Longrightarrow> new_len i s = int (new_length i s)"
  unfolding new_len_def new_length_def MAX_DELAY_def by (subst int16_of_u32_small) auto

lemma register_node_outcome:
  assumes "wf_protocol s" and "i < MAX_PLAYERS"
  shows "register_node cmd i s =
    (if new_len i s \<le> uint (w_len (out_window i s)) then Done s
     else if int MAX_DELAY < new_len i s then Fault OutOfBounds
     else (let s' = with_out_window i (pushed cmd (nat (new_len i s)) (out_window i s)) s
           in if i = 0 then Done s' else SendPacket i s'))"
proof -
  define w where "w = out_window i s"
  define k where "k = new_len i s"
  have len: "length (w_cmds w) = 16"
    using wf_nth [OF assms] by (auto simp: w_def out_window_def wf_node_def wf_window_def MAX_DELAY_def)
  have k: "int16_of_u32 (maketic s - w_start w) = k" by (simp add: k_def new_len_def w_def)
  show ?thesis
  proof (cases "uint (w_len w) < k \<and> k \<le> 16")
    case True
    moreover have "0 \<le> uint (w_len w)" by simp
    ultimately have "0 \<le> k" by linarith
    then obtain j where j: "k = int j" using zero_le_imp_eq_int by blast
    have "nat (k - 1) = j - 1" by (simp add: j)
    with True show ?thesis
      unfolding register_node_def Let_def out_window_def [symmetric] w_def [symmetric] k k_def [symmetric]
      using len by (simp add: with_out_window_def pushed_def j MAX_DELAY_def)
  next
    case False
    then show ?thesis
      unfolding register_node_def Let_def out_window_def [symmetric] w_def [symmetric] k k_def [symmetric]
      using len by (auto simp: MAX_DELAY_def)
  qed
qed

lemma register_node_eq:
  assumes "wf_protocol s" and "i < MAX_PLAYERS" and k: "new_length i s \<le> MAX_DELAY"
  shows "register_node cmd i s =
    (if unat (w_len (out_window i s)) < new_length i s then
       (let s' = with_out_window i (pushed cmd (new_length i s) (out_window i s)) s
        in if i = 0 then Done s' else SendPacket i s')
     else Done s)"
proof -
  have "(int (new_length i s) \<le> uint (w_len (out_window i s))) = (\<not> unat (w_len (out_window i s)) < new_length i s)"
    by (metis not_less of_nat_le_iff uint_nat)
  with k show ?thesis by (simp add: register_node_outcome [OF assms(1,2)] new_len_small Let_def)
qed

lemma pushed_wf: "wf_window w \<Longrightarrow> k \<le> MAX_DELAY \<Longrightarrow> wf_window (pushed cmd k w)"
  by (simp add: wf_window_def pushed_def MAX_DELAY_def)

lemma with_out_window_wf:
  assumes "wf_protocol s" and "i < MAX_PLAYERS" and "wf_window w"
  shows "wf_protocol (with_out_window i w s)"
  unfolding with_out_window_def
  using wf_nth [OF assms(1,2)] assms
  by (intro wf_update) (auto simp: wf_node_def wf_protocol_def)

lemma with_out_window_num_nodes [simp]: "num_nodes (with_out_window i w s) = num_nodes s"
  by (simp add: with_out_window_def)

text \<open>The new lengths the loop will see are fixed by the state it starts in.\<close>

lemma new_length_frame:
  "maketic s' = maketic s \<Longrightarrow> w_start (out_window j s') = w_start (out_window j s) \<Longrightarrow>
    new_length j s' = new_length j s"
  by (simp add: new_length_def)

lemma sent_state_out_start [simp]:
  "i < length (nodes s) \<Longrightarrow> w_start (out_window j (sent_state i dc s)) = w_start (out_window j s)"
  by (cases "i = j") (auto simp: out_window_def sent_state_def)

lemma with_out_window_start:
  "i < length (nodes s) \<Longrightarrow> w_start w = w_start (out_window i s) \<Longrightarrow>
    w_start (out_window j (with_out_window i w s)) = w_start (out_window j s)"
  by (cases "i = j") (auto simp: out_window_def with_out_window_def)

lemma register_node_total:
  assumes "wf_protocol s" and "i < MAX_PLAYERS" and "new_len i s \<le> int MAX_DELAY"
  shows "\<exists>s'. register_node cmd i s = Done s' \<and> wf_protocol s' \<and> num_nodes s' = num_nodes s
    \<and> maketic s' = maketic s \<and> (\<forall>j. w_start (out_window j s') = w_start (out_window j s))"
proof -
  define w where "w = pushed cmd (nat (new_len i s)) (out_window i s)"
  have "wf_window (out_window i s)"
    using wf_nth [OF assms(1,2)] by (cases "i = 0") (simp_all add: out_window_def wf_node_def)
  then have wf: "wf_protocol (with_out_window i w s)"
    using assms by (intro with_out_window_wf) (simp_all add: w_def pushed_wf)
  have i: "i < length (nodes s)" using assms(1,2) by (simp add: wf_protocol_def)
  then have start: "w_start (out_window j (with_out_window i w s)) = w_start (out_window j s)" for j
    by (intro with_out_window_start) (auto simp: w_def pushed_def)
  moreover have "i < length (nodes (with_out_window i w s))" using i by (simp add: with_out_window_def)
  ultimately have "w_start (out_window j (sent_state i dc (with_out_window i w s))) = w_start (out_window j s)"
    for j dc by simp
  moreover have "maketic (with_out_window i w s) = maketic s" by (simp add: with_out_window_def)
  ultimately show ?thesis
    using SendPacket_total [OF wf assms(2)] wf start assms
    by (auto simp: register_node_outcome w_def [symmetric] Let_def)
qed

lemma swap_register_outcome:
  assumes "wf_protocol s"
  shows "if \<exists>i < num_nodes s. int MAX_DELAY < new_len i s then swap_register cmd s = Fault OutOfBounds
    else \<exists>s'. swap_register cmd s = Done s' \<and> wf_protocol s' \<and> num_nodes s' = num_nodes s"
proof -
  let ?P = "\<lambda>t. wf_protocol t \<and> num_nodes t = num_nodes s \<and> maketic t = maketic s
    \<and> (\<forall>j. w_start (out_window j t) = w_start (out_window j s))"
  let ?bad = "\<lambda>i. int MAX_DELAY < new_len i s"
  have i: "i < MAX_PLAYERS" if "i \<in> set [0..<num_nodes s]" for i
    using that assms by (auto simp: wf_protocol_def)
  have same: "new_len j t = new_len j s" if "?P t" for j t using that by (simp add: new_len_def)
  have "\<exists>t'. register_node cmd i t = Done t' \<and> ?P t'"
    if "i \<in> set [0..<num_nodes s]" "?P t" "\<not> ?bad i" for i t
    using that register_node_total [of t i cmd] i [OF that(1)] same [OF that(2)] by auto
  moreover have "register_node cmd i t = Fault OutOfBounds"
    if "i \<in> set [0..<num_nodes s]" "?P t" "?bad i" for i t
  proof -
    have "wf_window (out_window i t)"
      using wf_nth [OF _ i [OF that(1)], of t] that(2) by (cases "i = 0") (simp_all add: out_window_def wf_node_def)
    then have "uint (w_len (out_window i t)) \<le> int MAX_DELAY"
      unfolding wf_window_def by (metis of_nat_le_iff uint_nat)
    then have "\<not> new_len i t \<le> uint (w_len (out_window i t))"
      using that(3) same [OF that(2)] by simp
    then show ?thesis
      using that(2,3) i [OF that(1)] same [OF that(2)] by (simp add: register_node_outcome)
  qed
  ultimately have "if \<exists>i \<in> set [0..<num_nodes s]. ?bad i
      then ofold (register_node cmd) [0..<num_nodes s] s = Fault OutOfBounds
      else \<exists>t'. ofold (register_node cmd) [0..<num_nodes s] s = Done t' \<and> ?P t'"
    using assms by (intro ofold_or_fault [where P = ?P and bad = ?bad]) auto
  then show ?thesis by (auto simp: swap_register_def split: if_splits)
qed

lemma swap_register_total:
  assumes "wf_protocol s" and "\<forall>i < num_nodes s. new_length i s \<le> MAX_DELAY"
  shows "\<exists>s'. swap_register cmd s = Done s' \<and> wf_protocol s' \<and> num_nodes s' = num_nodes s"
proof -
  have "\<not> (\<exists>i < num_nodes s. int MAX_DELAY < new_len i s)"
    using assms(2) by (auto simp: new_len_small)
  with swap_register_outcome [OF assms(1), of cmd] show ?thesis by (simp del: not_ex)
qed

section \<open>Waiting\<close>

lemma fold_conj: "fold (\<lambda>i r. r \<and> P i) xs b \<longleftrightarrow> b \<and> (\<forall>i \<in> set xs. P i)"
  by (induction xs arbitrary: b) auto

lemma NewTicReady_iff:
  "NewTicReady s \<longleftrightarrow> (\<forall>i < num_nodes s. 0 < w_len (recv_window (nodes s ! i)))"
  unfolding NewTicReady_def fold_conj by auto

lemma swap_wait_outcomes:
  assumes "wf_protocol s" and "\<forall>a \<in> set (answers (driver s)). proper_answer (num_nodes s) a"
  shows "swap_wait s = Blocked \<or> (\<exists>s'. swap_wait s = Done s' \<and> wf_protocol s' \<and> NewTicReady s'
    \<and> num_nodes s' = num_nodes s)"
  using assms
proof (induction s rule: swap_wait.induct)
  case (1 s)
  show ?case
  proof (cases "NewTicReady s \<or> answers (driver s) = []")
    case True
    with "1.prems" show ?thesis by (auto simp: swap_wait.simps [of s])
  next
    case False
    from ReceivePackets_total [OF "1.prems"] obtain t where
      t: "ReceivePackets s = Done t" "wf_protocol t" "num_nodes t = num_nodes s"
        "set (answers (driver t)) \<subseteq> set (answers (driver s))" by auto
    with False "1.prems" "1.IH" [OF _ _ t(1)] show ?thesis
      by (auto simp: swap_wait.simps [of s])
  qed
qed

section \<open>Collecting the commands of a tic\<close>

text \<open>A receive window after its first command has been consumed.\<close>

definition popped :: "window \<Rightarrow> window" where
  "popped w = w\<lparr>w_start := w_start w + 1, w_len := w_len w - 1,
     w_cmds := shift_down 1 (unat (w_len w - 1)) (w_cmds w)\<rparr>"

definition pop_node :: "node \<Rightarrow> node" where
  "pop_node n = n\<lparr>recv_window := popped (recv_window n)\<rparr>"

lemma popped_simps:
  assumes "wf_window w" and "0 < w_len w"
  shows "wf_window (popped w)"
    and "unat (w_len (popped w)) = unat (w_len w) - 1"
    and "win_cmds w = w_cmds w ! 0 # win_cmds (popped w)"
proof -
  have pos: "0 < unat (w_len w)" using assms(2) by (simp add: word_less_nat_alt)
  then have len: "unat (w_len w - 1) = unat (w_len w) - 1" by (simp add: unat_sub_small)
  then show "unat (w_len (popped w)) = unat (w_len w) - 1" by (simp add: popped_def)
  have le: "unat (w_len w) \<le> length (w_cmds w)" "length (w_cmds w) = 16"
    using assms(1) by (auto simp: wf_window_def MAX_DELAY_def)
  then show "wf_window (popped w)"
    using pos len by (auto simp: wf_window_def popped_def MAX_DELAY_def)
  from le(2) obtain c cs where "w_cmds w = c # cs" by (cases "w_cmds w") auto
  moreover from pos obtain m where "unat (w_len w) = Suc m" by (cases "unat (w_len w)") auto
  ultimately show "win_cmds w = w_cmds w ! 0 # win_cmds (popped w)"
    using le by (simp add: win_cmds_def popped_def len shift_down_def overwrite_def slice_def)
qed

lemma collect_node_ready:
  assumes "wf_protocol s" and "i < num_nodes s" and "0 < w_len (recv_window (nodes s ! i))"
    and "length cs = MAX_PLAYERS"
  shows "collect_node i (cs, s) =
    Done (cs[nat (player (nodes s ! i)) := w_cmds (recv_window (nodes s ! i)) ! 0],
          s\<lparr>nodes := (nodes s)[i := pop_node (nodes s ! i)]\<rparr>)"
proof -
  define n where "n = nodes s ! i"
  have n: "wf_node n" using assms(1,2) wf_nth [of s i] by (simp add: n_def wf_protocol_def)
  have pl: "0 \<le> player n" "player n < int (length cs)" "player n \<noteq> -1"
    using n assms(3,4) by (auto simp: wf_node_def n_def)
  have "0 < unat (w_len (recv_window n))" "unat (w_len (recv_window n)) \<le> 16"
      "length (w_cmds (recv_window n)) = 16"
    using n assms(3) by (auto simp: wf_node_def n_def wf_window_def MAX_DELAY_def word_less_nat_alt)
  then have "\<not> 1 + unat (w_len (recv_window n) - 1) > length (w_cmds (recv_window n))"
    by (simp add: unat_sub_small)
  with pl show ?thesis
    by (simp add: collect_node_def Let_def n_def [symmetric] pop_node_def popped_def)
qed

lemma pop_node_wf: "wf_node n \<Longrightarrow> 0 < w_len (recv_window n) \<Longrightarrow> wf_node (pop_node n)"
  by (auto simp: wf_node_def pop_node_def popped_simps)

text \<open>The commands of the nodes \<open>is\<close>, each stored under its player.\<close>

definition tic_cmds :: "nat list \<Rightarrow> protocol \<Rightarrow> u16 list" where
  "tic_cmds is s = fold (\<lambda>i cs. cs[nat (player (nodes s ! i)) :=
     w_cmds (recv_window (nodes s ! i)) ! 0]) is (replicate MAX_PLAYERS 0)"

lemma length_tic_cmds [simp]: "length (tic_cmds is s) = MAX_PLAYERS"
proof -
  have "length (fold (\<lambda>i cs. cs[p i := c i]) is xs) = length xs"
    for p and c :: "nat \<Rightarrow> u16" and xs
    by (induction "is" arbitrary: xs) auto
  then show ?thesis by (simp add: tic_cmds_def)
qed

text \<open>The nodes below \<open>m\<close> have been consumed.\<close>

definition popped_upto :: "nat \<Rightarrow> protocol \<Rightarrow> protocol" where
  "popped_upto m s = s\<lparr>nodes := map pop_node (take m (nodes s)) @ drop m (nodes s)\<rparr>"

lemma collect_upto:
  assumes wf: "wf_protocol s" and ready: "NewTicReady s" and "m \<le> num_nodes s"
  shows "ofold collect_node [0..<m] (replicate MAX_PLAYERS 0, s)
    = Done (tic_cmds [0..<m] s, popped_upto m s) \<and> wf_protocol (popped_upto m s)"
  using assms(3)
proof (induction m)
  case 0
  show ?case using wf by (simp add: tic_cmds_def popped_upto_def)
next
  case (Suc m)
  have nodes: "length (nodes s) = MAX_PLAYERS" "num_nodes s \<le> MAX_PLAYERS" "m < length (nodes s)"
    using wf Suc.prems by (auto simp: wf_protocol_def)
  have m: "nodes (popped_upto m s) ! m = nodes s ! m"
    using nodes by (simp add: popped_upto_def nth_append)
  have pos: "0 < w_len (recv_window (nodes s ! m))"
    using ready Suc.prems by (simp add: NewTicReady_iff)
  have upd: "(popped_upto m s)\<lparr>nodes := (nodes (popped_upto m s))[m := pop_node (nodes s ! m)]\<rparr>
      = popped_upto (Suc m) s"
    using nodes by (simp add: popped_upto_def list_update_append take_Suc_conv_app_nth
        drop_update_cancel Cons_nth_drop_Suc [symmetric])
  have IH: "ofold collect_node [0..<m] (replicate MAX_PLAYERS 0, s)
      = Done (tic_cmds [0..<m] s, popped_upto m s)" "wf_protocol (popped_upto m s)"
    using Suc by auto
  have step: "collect_node m (tic_cmds [0..<m] s, popped_upto m s)
      = Done (tic_cmds [0..<Suc m] s, popped_upto (Suc m) s)"
    using collect_node_ready [OF IH(2), of m "tic_cmds [0..<m] s"] pos Suc.prems
    by (simp add: m upd) (simp add: popped_upto_def tic_cmds_def)
  have "wf_node (pop_node (nodes s ! m))" "player (pop_node (nodes s ! m)) = player (nodes s ! m)"
    using wf_nth [OF wf, of m] nodes pos pop_node_wf by (auto simp: pop_node_def)
  then have "wf_protocol (popped_upto (Suc m) s)"
    unfolding upd [symmetric] using IH(2) nodes wf
    by (intro wf_update) (auto simp: wf_protocol_def)
  with IH step show ?case by (simp add: ofold_append)
qed

lemma swap_collect_eq:
  assumes "wf_protocol s" and "NewTicReady s"
  shows "swap_collect s = Done (tic_cmds [0..<num_nodes s] s,
      (popped_upto (num_nodes s) s)\<lparr>maketic := maketic s + 1, gametic := gametic s + 1\<rparr>)"
    and "wf_protocol ((popped_upto (num_nodes s) s)\<lparr>maketic := x, gametic := y\<rparr>)"
  using collect_upto [OF assms order_refl]
  by (auto simp: swap_collect_def popped_upto_def wf_protocol_def)

section \<open>The counters\<close>

text \<open>What only \<^verbatim>\<open>SwapCommand\<close> changes, and only when it completes a tic.\<close>

definition counters :: "protocol \<Rightarrow> u32 \<times> u32 \<times> nat \<times> nat \<times> nat" where
  "counters s = (maketic s, gametic s, num_nodes s, consoleplayer s, num_players s)"

lemma counters_SendPacket: "SendPacket i s = Done s' \<Longrightarrow> counters s' = counters s"
  by (auto simp: SendPacket_def Let_def NetSendPacket_eq time_now_def counters_def split: if_splits)

lemma counters_ReceivePacket: "ReceivePacket k s = Done s' \<Longrightarrow> counters s' = counters s"
  by (auto simp: ReceivePacket_def Let_def obind_eq_Done counters_def split: if_splits)

lemma counters_CheckResends: "CheckResends s = Done s' \<Longrightarrow> counters s' = counters s"
  by (rule CheckResends_invariant [where P = "\<lambda>t. counters t = counters s"])
    (auto dest: counters_SendPacket simp: counters_def)

lemma counters_receive_loop: "receive_loop s = Done s' \<Longrightarrow> counters s' = counters s"
proof (induction "answers (driver s)" arbitrary: s)
  case Nil
  then show ?case by (auto simp: receive_loop_Nil counters_def)
next
  case (Cons a as)
  have next_answer: "answers (driver s) = a # as" using Cons.hyps(2) by simp
  show ?case
  proof (cases "ans_node a = -1")
    case True
    with Cons.prems next_answer show ?thesis by (auto simp: receive_loop_Cons counters_def)
  next
    case False
    with Cons.prems next_answer obtain t where
      t: "ReceivePacket (nat (ans_node a)) (take_answer a as s) = Done t" "receive_loop t = Done s'"
      by (auto simp: receive_loop_Cons obind_eq_Done split: if_splits)
    then have "as = answers (driver t)" by (auto dest: ReceivePacket_driver)
    with Cons.hyps(1) t(2) have "counters s' = counters t" by blast
    with counters_ReceivePacket [OF t(1)] show ?thesis by (simp add: counters_def)
  qed
qed

lemma counters_ReceivePackets: "ReceivePackets s = Done s' \<Longrightarrow> counters s' = counters s"
  by (auto simp: ReceivePackets_def obind_eq_Done dest!: counters_CheckResends counters_receive_loop)

lemma counters_swap_wait: "swap_wait s = Done s' \<Longrightarrow> counters s' = counters s"
proof (induction s rule: swap_wait.induct)
  case (1 s)
  then show ?case
    by (auto simp: swap_wait.simps [of s] obind_eq_Done split: if_splits)
      (metis counters_ReceivePackets)
qed

lemma counters_swap_register: "swap_register cmd s = Done s' \<Longrightarrow> counters s' = counters s"
  unfolding swap_register_def
proof (erule ofold_invariant [where P = "\<lambda>t. counters t = counters s", rotated 2])
  fix i t t' assume "counters t = counters s" "register_node cmd i t = Done t'"
  then show "counters t' = counters s"
    by (auto simp: register_node_def Let_def counters_def dest!: counters_SendPacket split: if_splits)
qed simp

section \<open>Properties of one machine\<close>

text \<open>The machine right after \<^verbatim>\<open>InitProtocol\<close>.\<close>

definition fresh_node :: "int \<Rightarrow> node" where
  "fresh_node p = \<lparr>send_window = \<lparr>w_start = 0, w_len = 3, w_cmds = replicate 16 0\<rparr>,
     recv_window = \<lparr>w_start = 0, w_len = 0, w_cmds = replicate 16 0\<rparr>,
     player = p, last_send_time = 0\<rparr>"

definition fresh_protocol :: "int \<Rightarrow> doomcom_t \<Rightarrow> netdrv \<Rightarrow> (nat \<Rightarrow> u32) \<Rightarrow> protocol" where
  "fresh_protocol fake dc d c = \<lparr>doomcom = dc, driver = d, clock = c, clock_calls = 0,
     nodes = [fresh_node (dc_consoleplayer dc), fresh_node (-1), fresh_node (-1), fresh_node (-1)],
     maketic = 4, gametic = 0, num_nodes = nat (dc_numnodes dc), fake_players = fake,
     consoleplayer = nat (dc_consoleplayer dc),
     num_players = (if fake \<noteq> 0 then 4 else nat (dc_numplayers dc))\<rparr>"

text \<open>What the assertion of \<^verbatim>\<open>InitProtocol\<close> asks of the driver.\<close>

definition proper_doomcom :: "doomcom_t \<Rightarrow> bool" where
  "proper_doomcom dc \<longleftrightarrow> dc_numnodes dc \<in> {2..4} \<and> dc_numplayers dc \<in> {2..4}
     \<and> dc_consoleplayer dc \<in> {0..<dc_numplayers dc}"

lemma replicate_4: "replicate 4 x = [x, x, x, x]"
  by (simp add: eval_nat_numeral)

lemma init_zero_node: "init_node zero_node = fresh_node (-1)"
  by (simp add: init_node_def zero_node_def zero_window_def fresh_node_def DELAY_def MAX_DELAY_def)

lemma InitProtocol_ok:
  "proper_doomcom dc \<Longrightarrow>
    InitProtocol dc (static_protocol fake dc0 d c) = Done (fresh_protocol fake dc d c)"
  by (auto simp: InitProtocol_def static_protocol_def MAX_PLAYERS_def DELAY_def replicate_4
      init_zero_node fresh_protocol_def proper_doomcom_def fresh_node_def)

lemma InitProtocol_fails:
  "\<not> proper_doomcom dc \<Longrightarrow> InitProtocol dc s = Fault AssertFailed"
  by (auto simp: InitProtocol_def proper_doomcom_def MAX_PLAYERS_def)

lemma fresh_node_wf: "-1 \<le> p \<Longrightarrow> p < 4 \<Longrightarrow> wf_node (fresh_node p)"
  by (simp add: wf_node_def fresh_node_def wf_window_def MAX_DELAY_def MAX_PLAYERS_def)

lemma fresh_protocol_wf:
  "proper_doomcom dc \<Longrightarrow> length (dc_data dc) = DATA_SIZE \<Longrightarrow> wf_protocol (fresh_protocol fake dc d c)"
  by (auto simp: wf_protocol_def fresh_protocol_def proper_doomcom_def MAX_PLAYERS_def
      intro!: fresh_node_wf) (simp_all add: fresh_node_def)

lemma fresh_node_windows:
  "win_cmds (send_window (fresh_node p)) = [0, 0, 0]"
  "win_cmds (recv_window (fresh_node p)) = []"
  by (simp_all add: win_cmds_def fresh_node_def) (simp add: eval_nat_numeral)

lemma fresh_protocol_nth:
  "i < MAX_PLAYERS \<Longrightarrow> nodes (fresh_protocol fake dc d c) ! i =
     fresh_node (if i = 0 then dc_consoleplayer dc else -1)"
  by (auto simp: fresh_protocol_def MAX_PLAYERS_def nth_Cons' eval_nat_numeral less_Suc_eq)

text \<open>C16: \<^verbatim>\<open>InitProtocol\<close> stops in its assertion exactly when the driver
  reports less than two or more than four nodes or players, or a console player that is not
  one of them. Otherwise it takes over the driver's structure and its number of nodes and
  console player, counts its players (four with \<^verbatim>\<open>-fake_players\<close>), and puts four
  tics into the pipeline; only node 0 has a player, the console player; every send window holds
  the three empty tics before the first command, and every receive window is empty.\<close>

theorem InitProtocol_outcome:
  assumes "length (dc_data dc) = DATA_SIZE"
  shows "if dc_numnodes dc \<in> {2..4} \<and> dc_numplayers dc \<in> {2..4}
            \<and> dc_consoleplayer dc \<in> {0..<dc_numplayers dc}
         then \<exists>s. InitProtocol dc (static_protocol fake dc0 d c) = Done s \<and> wf_protocol s
                \<and> doomcom s = dc \<and> driver s = d \<and> clock s = c \<and> clock_calls s = 0
                \<and> maketic s = 4 \<and> gametic s = 0
                \<and> num_nodes s = nat (dc_numnodes dc)
                \<and> consoleplayer s = nat (dc_consoleplayer dc) \<and> fake_players s = fake
                \<and> num_players s = (if fake \<noteq> 0 then 4 else nat (dc_numplayers dc))
                \<and> length (nodes s) = 4
                \<and> (\<forall>i < 4. player (nodes s ! i) = (if i = 0 then dc_consoleplayer dc else -1)
                     \<and> last_send_time (nodes s ! i) = 0
                     \<and> w_start (send_window (nodes s ! i)) = 0
                     \<and> win_cmds (send_window (nodes s ! i)) = [0, 0, 0]
                     \<and> w_start (recv_window (nodes s ! i)) = 0
                     \<and> win_cmds (recv_window (nodes s ! i)) = [])
         else InitProtocol dc (static_protocol fake dc0 d c) = Fault AssertFailed"
proof (cases "proper_doomcom dc")
  case True
  have "player (fresh_node p) = p" "w_start (send_window (fresh_node p)) = 0"
    "w_start (recv_window (fresh_node p)) = 0" "last_send_time (fresh_node p) = 0" for p
    by (simp_all add: fresh_node_def)
  then show ?thesis
    using True assms InitProtocol_ok [OF True] fresh_protocol_wf [OF True]
      fresh_protocol_nth [of _ fake dc d c]
    by (simp add: proper_doomcom_def fresh_node_windows MAX_PLAYERS_def)
      (simp add: fresh_protocol_def)
next
  case False
  then show ?thesis
    using InitProtocol_fails [OF False] by (simp add: proper_doomcom_def)
qed

definition sample_doomcom :: "int \<Rightarrow> int \<Rightarrow> doomcom_t" where
  "sample_doomcom n p = \<lparr>dc_id = DOOMCOM_ID, dc_intnum = 0x66, dc_command = 0, dc_remotenode = 0,
     dc_datalength = 0, dc_numnodes = n, dc_ticdup = 1, dc_extratics = 0, dc_deathmatch = 0,
     dc_savegame = -1, dc_episode = 1, dc_map = 1, dc_skill = 1, dc_consoleplayer = p,
     dc_numplayers = n, dc_angleoffset = 0, dc_drone = 0, dc_data = replicate DATA_SIZE 0\<rparr>"

definition idle_driver :: netdrv where
  "idle_driver = \<lparr>answers = [], sent = []\<rparr>"

theorem InitProtocol_outcome_witness:
  "(\<exists>s. InitProtocol (sample_doomcom 3 1)
        (static_protocol 1 (sample_doomcom 2 0) idle_driver (\<lambda>_. 0)) = Done s \<and> wf_protocol s
      \<and> num_nodes s = 3 \<and> consoleplayer s = 1 \<and> num_players s = 4
      \<and> player (nodes s ! 0) = 1 \<and> player (nodes s ! 1) = -1)
    \<and> InitProtocol (sample_doomcom 5 1)
        (static_protocol 0 (sample_doomcom 2 0) idle_driver (\<lambda>_. 0)) = Fault AssertFailed"
proof -
  have fields: "length (dc_data (sample_doomcom n p)) = DATA_SIZE" "dc_numnodes (sample_doomcom n p) = n"
    "dc_numplayers (sample_doomcom n p) = n" "dc_consoleplayer (sample_doomcom n p) = p" for n p
    by (simp_all add: sample_doomcom_def)
  from InitProtocol_outcome [OF fields(1), of 3 1 1 "sample_doomcom 2 0" idle_driver "\<lambda>_. 0"]
    InitProtocol_outcome [OF fields(1), of 5 1 0 "sample_doomcom 2 0" idle_driver "\<lambda>_. 0"]
  show ?thesis by (fastforce simp: fields)
qed

text \<open>
  What a packet of node \<open>n\<close>'s machine has to do to \<open>n\<close>, said in terms of the commands
  the windows hold: an acknowledgement inside the send window takes the acknowledged commands out of
  it; a packet that starts before the receive window changes nothing else; any other one sets the player
  and stores its commands at their tics, as far as the window reaches.
\<close>

definition reads_packet :: "u32 \<Rightarrow> u32 \<Rightarrow> int \<Rightarrow> u16 list \<Rightarrow> node \<Rightarrow> node \<Rightarrow> bool" where
  "reads_packet st ack pl cs n n' \<longleftrightarrow>
    (let S = send_window n; S' = send_window n'; R = recv_window n; R' = recv_window n'
     in last_send_time n' = last_send_time n
      \<and> (if w_start S < ack \<and> ack \<le> w_start S + ucast (w_len S)
         then w_start S' = ack \<and> win_cmds S' = drop (unat ack - unat (w_start S)) (win_cmds S)
         else S' = S)
      \<and> (if st < w_start R then R' = R \<and> player n' = player n
         else player n' = pl \<and> w_start R' = w_start R
           \<and> (let k = unat (st - w_start R); m = min (length cs) (MAX_DELAY - k)
              in unat (w_len R') = (if m = 0 then unat (w_len R) else max (unat (w_len R)) (k + m))
               \<and> (\<forall>j < MAX_DELAY. w_cmds R' ! j = (if k \<le> j \<and> j < k + length cs then cs ! (j - k)
                    else w_cmds R ! j)))))"

lemma stored_nth:
  assumes "wf_window w" and "j < MAX_DELAY"
  shows "w_cmds (stored k cs w) ! j = (if k \<le> j \<and> j < k + length cs then cs ! (j - k) else w_cmds w ! j)"
proof -
  have "length (w_cmds w) = MAX_DELAY" using assms(1) by (simp add: wf_window_def)
  then show ?thesis
    using assms(2) by (auto simp: stored_def Let_def overwrite_def nth_append min_def)
qed

lemma received_reads:
  assumes "wf_node n"
  shows "reads_packet st ack (uint pl) cs n (received st ack pl cs n)"
proof -
  have wf: "wf_window (send_window n)" "wf_window (recv_window n)" using assms by (simp_all add: wf_node_def)
  have "w_start (ack_step ack (send_window n)) = ack
      \<and> win_cmds (ack_step ack (send_window n)) = drop (unat ack - unat (w_start (send_window n))) (win_cmds (send_window n))"
    if "w_start (send_window n) < ack" "ack \<le> w_start (send_window n) + ucast (w_len (send_window n))"
    using that acked_simps [OF wf(1) ack_guardD [OF that]] by (simp add: ack_step_def)
  then show ?thesis
    using wf by (simp add: reads_packet_def received_def Let_def stored_simps stored_nth)
      (simp add: ack_step_def)
qed

text \<open>C14: what \<^verbatim>\<open>SendPacket\<close> hands to the driver is read back by
  \<^verbatim>\<open>ReceivePacket\<close> of any machine exactly as it was sent. The packet goes to the
  node it is for and fits the data area. When the driver of a machine \<open>q\<close> delivers these bytes,
  from whichever node \<open>k\<close> and with whatever there was in its data area, the structure shows
  the CRC of the bytes behind it (28 bits of it), the start of the sender's window, the acknowledgement of everything the sender has received, the sender's
  player number and all commands of the window; and \<^verbatim>\<open>ReceivePacket\<close> accepts the
  packet and changes node \<open>k\<close>, and nothing else, as such a packet has to.\<close>

theorem packet_roundtrip:
  assumes "wf_protocol s" and "i < MAX_PLAYERS" and "SendPacket i s = Done s'"
    and "wf_protocol q" and "k < MAX_PLAYERS"
  shows "\<exists>bs. sent (driver s') = sent (driver s) @ [(int i, bs)] \<and> length bs \<le> DATA_SIZE
    \<and> (\<forall>a as. ans_bytes a = bs \<longrightarrow>
        (let w = send_window (nodes s ! i); r = recv_window (nodes s ! i);
             ack = w_start r + ucast (w_len r); pl = player (nodes s ! 0);
             q' = take_answer a as q; pkt = load_packet (dc_data (doomcom q'))
         in p_checksum pkt = Crc32 (drop 4 bs) AND 0x0fffffff
          \<and> p_start pkt = w_start w \<and> p_ack pkt = ack \<and> uint (p_player pkt) = pl
          \<and> take (unat (p_num_cmds pkt)) (p_cmds pkt) = win_cmds w
          \<and> (\<exists>n'. ReceivePacket k q' = Done (q'\<lparr>nodes := (nodes q)[k := n']\<rparr>)
                \<and> reads_packet (w_start w) ack pl (win_cmds w) (nodes q ! k) n')))"
proof -
  define w r where "w = send_window (nodes s ! i)" and "r = recv_window (nodes s ! i)"
  define ack where "ack = w_start r + ucast (w_len r)"
  define pl :: u8 where "pl = word_of_int (player (nodes s ! 0))"
  have wf: "wf_node (nodes s ! i)" "wf_node (nodes s ! 0)" "wf_node (nodes q ! k)"
    using assms(1,2) wf_nth [OF assms(1)] wf_nth [OF assms(4,5)] by (auto simp: MAX_PLAYERS_def)
  have "player (nodes s ! 0) \<noteq> -1" using assms(1) by (simp add: wf_protocol_def)
  with wf(2) have p: "0 \<le> player (nodes s ! 0)" "player (nodes s ! 0) < 4"
    by (auto simp: wf_node_def MAX_PLAYERS_def)
  then have pl: "uint pl = player (nodes s ! 0)"
    by (simp add: pl_def uint_word_of_int)
  then have pl4: "unat pl < MAX_PLAYERS"
    using p by (simp add: MAX_PLAYERS_def unat_eq_nat_uint nat_less_iff)
  have len: "length (win_cmds w) \<le> MAX_DELAY"
    using wf(1) by (simp add: w_def wf_node_def wf_window_def length_win_cmds)
  have bs: "packet_for i s = packet_bytes (w_start w) ack pl (win_cmds w)"
    by (simp add: packet_for_def w_def r_def ack_def pl_def Let_def)
  have D: "length (dc_data (doomcom q)) = DATA_SIZE" using assms(4) by (simp add: wf_protocol_def)
  note pkt = load_packet_bytes [OF len D, of "w_start w" ack pl]
  have "\<exists>n'. ReceivePacket k (take_answer a as q) = Done ((take_answer a as q)\<lparr>nodes := (nodes q)[k := n']\<rparr>)
      \<and> reads_packet (w_start w) ack (uint pl) (win_cmds w) (nodes q ! k) n'"
    if a: "ans_bytes a = packet_for i s" for a as
  proof -
    have "packet_accepted (doomcom (take_answer a as q))"
      by (rule packet_bytes_accepted [OF len D pl4, of _ "w_start w" ack]) (simp_all add: a bs)
    from ReceivePacket_accepted [OF this, of k] wf(3) pkt
    have "ReceivePacket k (take_answer a as q) = Done ((take_answer a as q)\<lparr>nodes := (nodes q)[k :=
        received (w_start w) ack pl (win_cmds w) (nodes q ! k)]\<rparr>)"
      by (simp add: a bs)
    with received_reads [OF wf(3)] show ?thesis by blast
  qed
  moreover obtain dc where "s' = sent_state i dc s"
    using SendPacket_total [OF assms(1,2)] assms(3) by auto
  then have "sent (driver s') = sent (driver s) @ [(int i, packet_for i s)]" by simp
  moreover have "length (packet_for i s) \<le> DATA_SIZE"
    using len by (simp add: bs MAX_DELAY_def DATA_SIZE_def)
  moreover have "Crc32 (drop 4 (packet_for i s)) AND 0x0fffffff
      = Crc32 (packet_body (w_start w) ack pl (win_cmds w)) AND NCMD_CHECKSUM"
    by (simp add: bs packet_bytes_def NCMD_CHECKSUM_def)
  ultimately show ?thesis
    using pkt pl by (intro exI [of _ "packet_for i s"]) (simp add: bs Let_def w_def r_def ack_def)
qed

definition sample_protocol :: "answer list \<Rightarrow> protocol" where
  "sample_protocol as = fresh_protocol 0 (sample_doomcom 2 0) \<lparr>answers = as, sent = []\<rparr> (\<lambda>k. of_nat k)"

lemma sample_doomcom_proper: "proper_doomcom (sample_doomcom 2 0)"
  by (simp add: proper_doomcom_def sample_doomcom_def)

lemma sample_protocol_wf: "wf_protocol (sample_protocol as)"
  unfolding sample_protocol_def
  by (rule fresh_protocol_wf [OF sample_doomcom_proper]) (simp add: sample_doomcom_def)

lemma sample_protocol_simps [simp]:
  "num_nodes (sample_protocol as) = 2"
  "answers (driver (sample_protocol as)) = as"
  "sent (driver (sample_protocol as)) = []"
  by (simp_all add: sample_protocol_def fresh_protocol_def sample_doomcom_def)

theorem packet_roundtrip_witness:
  "\<exists>s' bs n'. SendPacket 1 (sample_protocol []) = Done s' \<and> sent (driver s') = [(1, bs)]
    \<and> (let q' = take_answer \<lparr>ans_node = 1, ans_bytes = bs\<rparr> [] (sample_protocol [])
       in ReceivePacket 1 q' = Done (q'\<lparr>nodes := (nodes (sample_protocol []))[1 := n']\<rparr>)
        \<and> player n' = 0 \<and> unat (w_len (recv_window n')) = 3)"
proof -
  have one: "1 < MAX_PLAYERS" by (simp add: MAX_PLAYERS_def)
  obtain dc where dc: "SendPacket 1 (sample_protocol []) = Done (sent_state 1 dc (sample_protocol []))"
    using SendPacket_total [OF sample_protocol_wf one] by blast
  have n: "nodes (sample_protocol []) ! 1 = fresh_node (-1)" "player (nodes (sample_protocol []) ! 0) = 0"
    unfolding sample_protocol_def fresh_protocol_nth [OF one]
    by (simp_all add: fresh_protocol_def fresh_node_def sample_doomcom_def)
  let ?n = "nodes (sample_protocol []) ! 1"
  obtain bs where
    bs: "sent (driver (sent_state 1 dc (sample_protocol []))) = sent (driver (sample_protocol [])) @ [(int 1, bs)]"
    and reads: "\<forall>a as. ans_bytes a = bs \<longrightarrow> (\<exists>n'. ReceivePacket 1 (take_answer a as (sample_protocol []))
        = Done ((take_answer a as (sample_protocol []))\<lparr>nodes := (nodes (sample_protocol []))[1 := n']\<rparr>)
      \<and> reads_packet (w_start (send_window ?n)) (w_start (recv_window ?n) + ucast (w_len (recv_window ?n)))
          (player (nodes (sample_protocol []) ! 0)) (win_cmds (send_window ?n)) ?n n')"
    using packet_roundtrip [OF sample_protocol_wf one dc sample_protocol_wf one, of "[]"]
    unfolding Let_def by blast
  have "ans_bytes \<lparr>ans_node = 1, ans_bytes = bs\<rparr> = bs" by simp
  with reads obtain n' where
    n': "ReceivePacket 1 (take_answer \<lparr>ans_node = 1, ans_bytes = bs\<rparr> [] (sample_protocol []))
        = Done ((take_answer \<lparr>ans_node = 1, ans_bytes = bs\<rparr> [] (sample_protocol []))
            \<lparr>nodes := (nodes (sample_protocol []))[1 := n']\<rparr>)"
      "reads_packet (w_start (send_window ?n)) (w_start (recv_window ?n) + ucast (w_len (recv_window ?n)))
          (player (nodes (sample_protocol []) ! 0)) (win_cmds (send_window ?n)) ?n n'"
    by blast
  from n'(2) have "player n' = 0" "unat (w_len (recv_window n')) = 3"
    unfolding n fresh_node_windows by (simp_all add: reads_packet_def Let_def fresh_node_def MAX_DELAY_def)
  with dc bs n'(1) show ?thesis
    by (intro exI [of _ "sent_state 1 dc (sample_protocol [])"] exI [of _ bs] exI [of _ n']) (simp add: Let_def)
qed

text \<open>C11: polling the driver is safe: from a well-formed machine, whatever packets the driver
  delivers (a node it has, bytes that fit the data area), \<^verbatim>\<open>ReceivePackets\<close> returns,
  no assertion fails and no array is left, and the machine is well formed again.\<close>

theorem ReceivePackets_safe:
  assumes "wf_protocol s" and "\<forall>a \<in> set (answers (driver s)). proper_answer (num_nodes s) a"
  shows "\<exists>s'. ReceivePackets s = Done s' \<and> wf_protocol s'"
  using ReceivePackets_total [OF assms] by blast

theorem ReceivePackets_safe_witness:
  "\<exists>s'. ReceivePackets (sample_protocol [\<lparr>ans_node = 1, ans_bytes = replicate 20 7\<rparr>]) = Done s'
    \<and> wf_protocol s'"
  by (rule ReceivePackets_safe [OF sample_protocol_wf]) (simp add: proper_answer_def DATA_SIZE_def)

text \<open>A packet that is too short, has a wrong checksum, an impossible player number or
  too many commands changes nothing but the shared buffer, whichever node it came from.\<close>

lemma malformed_packet_ignored:
  assumes "dc_datalength (doomcom s) < MIN_PACKET_LEN
      \<or> p_checksum (load_packet (dc_data (doomcom s))) \<noteq> Checksum (doomcom s)
      \<or> MAX_PLAYERS \<le> unat (p_player (load_packet (dc_data (doomcom s))))
      \<or> MAX_DELAY < unat (p_num_cmds (load_packet (dc_data (doomcom s))))"
  shows "ReceivePacket k s = Done s"
  using assms by (intro ReceivePacket_rejected) (auto simp: packet_accepted_def Let_def)

lemma swap_register_answers: "swap_register cmd s = Done s' \<Longrightarrow> answers (driver s') = answers (driver s)"
  unfolding swap_register_def
proof (erule ofold_invariant [where P = "\<lambda>t. answers (driver t) = answers (driver s)", rotated 2])
  fix i t t' assume "answers (driver t) = answers (driver s)" "register_node cmd i t = Done t'"
  then show "answers (driver t') = answers (driver s)"
    by (auto simp: register_node_def Let_def dest!: SendPacket_answers split: if_splits)
qed simp

text \<open>An outgoing window would have to hold more than \<^verbatim>\<open>MAX_DELAY\<close> commands.\<close>

definition overfull :: "protocol \<Rightarrow> bool" where
  "overfull s \<longleftrightarrow> (\<exists>i < num_nodes s. int MAX_DELAY < int16_of_u32 (maketic s - w_start (out_window i s)))"

lemma swap_register_overfull:
  assumes "wf_protocol s"
  shows "if overfull s then swap_register cmd s = Fault OutOfBounds
    else \<exists>s'. swap_register cmd s = Done s' \<and> wf_protocol s' \<and> num_nodes s' = num_nodes s"
  using swap_register_outcome [OF assms, of cmd] unfolding overfull_def new_len_def .

lemma SwapCommand_outcome:
  assumes "wf_protocol s" and "\<forall>a \<in> set (answers (driver s)). proper_answer (num_nodes s) a"
    and "\<not> (maketic s - gametic s < of_nat MAX_DELAY \<and> overfull s)"
  shows "SwapCommand cmd cs s = Blocked \<or>
    (\<exists>b cs' s'. SwapCommand cmd cs s = Done (b, cs', s') \<and> wf_protocol s')"
proof (cases "maketic s - gametic s \<ge> of_nat MAX_DELAY")
  case True
  then show ?thesis using assms(1) by (auto simp: SwapCommand_def)
next
  case False
  with assms(3) swap_register_overfull [OF assms(1), of cmd] obtain s1 where
    s1: "swap_register cmd s = Done s1" "wf_protocol s1" "num_nodes s1 = num_nodes s"
    by (auto simp: not_le)
  with assms(2) have "\<forall>a \<in> set (answers (driver s1)). proper_answer (num_nodes s1) a"
    by (simp add: swap_register_answers)
  from swap_wait_outcomes [OF s1(2) this] show ?thesis
  proof (elim disjE exE conjE)
    assume "swap_wait s1 = Blocked"
    with False s1 show ?thesis by (simp add: SwapCommand_def)
  next
    fix s2 assume "swap_wait s1 = Done s2" "wf_protocol s2" "NewTicReady s2"
    with False s1 show ?thesis
      by (intro disjI2 exI [of _ True]) (simp add: SwapCommand_def swap_collect_eq)
  qed
qed

lemma not_overfull: "\<forall>i < num_nodes s. new_length i s \<le> MAX_DELAY \<Longrightarrow> \<not> overfull s"
  unfolding overfull_def new_len_def [symmetric] by (auto simp: new_len_small)

lemma SwapCommand_cases:
  assumes "wf_protocol s" and "\<forall>a \<in> set (answers (driver s)). proper_answer (num_nodes s) a"
    and "\<forall>i < num_nodes s. new_length i s \<le> MAX_DELAY"
  shows "SwapCommand cmd cs s = Blocked \<or>
    (\<exists>b cs' s'. SwapCommand cmd cs s = Done (b, cs', s') \<and> wf_protocol s')"
  using assms not_overfull by (intro SwapCommand_outcome) auto

text \<open>C12: when \<^verbatim>\<open>SwapCommand\<close> is safe. From a well-formed machine it leaves an array
  exactly when it gets past its first test (less than \<^verbatim>\<open>MAX_DELAY\<close> tics are pending) and
  the new command would be behind the end of the window of some node: the store
  \<^verbatim>\<open>cmds[new_len - 1]\<close> is not checked. In every other case it either is still waiting
  when the driver's answers are used up, or returns, and then with a well-formed machine; no
  assertion fails. In a game the bad case is never reached (theory \<^verbatim>\<open>Lockstep\<close>).\<close>

theorem SwapCommand_safe:
  assumes "wf_protocol s" and "\<forall>a \<in> set (answers (driver s)). proper_answer (num_nodes s) a"
  shows "if maketic s - gametic s < of_nat MAX_DELAY
            \<and> (\<exists>i < num_nodes s. int MAX_DELAY < int16_of_u32 (maketic s - w_start (out_window i s)))
         then SwapCommand cmd cs s = Fault OutOfBounds
         else SwapCommand cmd cs s = Blocked \<or>
           (\<exists>b cs' s'. SwapCommand cmd cs s = Done (b, cs', s') \<and> wf_protocol s')"
proof (cases "maketic s - gametic s < of_nat MAX_DELAY \<and> overfull s")
  case True
  with swap_register_overfull [OF assms(1), of cmd] have "SwapCommand cmd cs s = Fault OutOfBounds"
    by (simp add: SwapCommand_def not_le)
  with True show ?thesis by (simp add: overfull_def)
next
  case False
  from SwapCommand_outcome [OF assms this] False show ?thesis by (simp only: overfull_def if_False)
qed

text \<open>The state of the waiting loop of a two-player game that has just begun.\<close>

definition peer_packet :: "u8 list" where
  "peer_packet = packet_bytes 0 0 1 [0, 0, 0, 5]"

lemma sample_new_length: "\<forall>i < num_nodes (sample_protocol as). new_length i (sample_protocol as) \<le> MAX_DELAY"
proof (intro allI impI)
  fix i assume "i < num_nodes (sample_protocol as)"
  then have i: "i < MAX_PLAYERS" by (simp add: MAX_PLAYERS_def)
  have "w_start (out_window i (sample_protocol as)) = 0"
    unfolding out_window_def sample_protocol_def fresh_protocol_nth [OF i]
    by (simp add: fresh_node_def)
  then show "new_length i (sample_protocol as) \<le> MAX_DELAY"
    by (simp add: new_length_def MAX_DELAY_def sample_protocol_def fresh_protocol_def)
qed

text \<open>A well-formed machine that is further ahead than a game ever gets.\<close>

definition far_ahead :: protocol where
  "far_ahead = (sample_protocol [])\<lparr>maketic := 20, gametic := 10\<rparr>"

lemma out_window_sample: "i < MAX_PLAYERS \<Longrightarrow> w_start (out_window i (sample_protocol as)) = 0"
  unfolding out_window_def sample_protocol_def fresh_protocol_nth by (simp add: fresh_node_def)

lemma far_ahead_overfull: "wf_protocol far_ahead" "overfull far_ahead"
  "maketic far_ahead - gametic far_ahead < of_nat MAX_DELAY"
proof -
  show "wf_protocol far_ahead" using sample_protocol_wf [of "[]"] by (simp add: far_ahead_def wf_protocol_def)
  have "w_start (out_window 0 far_ahead) = 0"
    using out_window_sample [of 0 "[]"] by (simp add: far_ahead_def out_window_def MAX_PLAYERS_def)
  then have "int16_of_u32 (maketic far_ahead - w_start (out_window 0 far_ahead)) = 20"
    by (simp add: far_ahead_def int16_of_u32_def)
  moreover have "num_nodes far_ahead = 2" by (simp add: far_ahead_def)
  ultimately show "overfull far_ahead" unfolding overfull_def by (auto simp: MAX_DELAY_def intro: exI [of _ 0])
  show "maketic far_ahead - gametic far_ahead < of_nat MAX_DELAY" by (simp add: far_ahead_def MAX_DELAY_def)
qed

theorem SwapCommand_safe_witness:
  "SwapCommand 9 [] far_ahead = Fault OutOfBounds
    \<and> (SwapCommand 9 [] (sample_protocol [\<lparr>ans_node = 1, ans_bytes = peer_packet\<rparr>]) = Blocked \<or>
    (\<exists>b cs' s'. SwapCommand 9 [] (sample_protocol [\<lparr>ans_node = 1, ans_bytes = peer_packet\<rparr>])
       = Done (b, cs', s') \<and> wf_protocol s'))"
proof -
  let ?s = "sample_protocol [\<lparr>ans_node = 1, ans_bytes = peer_packet\<rparr>]"
  have "\<forall>a \<in> set (answers (driver far_ahead)). proper_answer (num_nodes far_ahead) a"
    by (simp add: far_ahead_def)
  from SwapCommand_safe [OF far_ahead_overfull(1) this, of 9 "[]"] far_ahead_overfull(2,3)
  have fault: "SwapCommand 9 [] far_ahead = Fault OutOfBounds" by (simp add: overfull_def)
  have "\<forall>a \<in> set (answers (driver ?s)). proper_answer (num_nodes ?s) a"
    by (simp add: proper_answer_def DATA_SIZE_def peer_packet_def)
  from SwapCommand_safe [OF sample_protocol_wf this, of 9 "[]"]
  have "SwapCommand 9 [] ?s = Blocked \<or> (\<exists>b cs' s'. SwapCommand 9 [] ?s = Done (b, cs', s') \<and> wf_protocol s')"
    using not_overfull [OF sample_new_length] unfolding overfull_def by (auto split: if_splits)
  with fault show ?thesis by blast
qed

lemma counters_ofold_collect:
  "ofold collect_node is (cs, s) = Done (cs', s') \<Longrightarrow> counters s' = counters s"
proof (induction "is" arbitrary: cs s)
  case (Cons i "is")
  then obtain c t where "collect_node i (cs, s) = Done (c, t)" "ofold collect_node is (c, t) = Done (cs', s')"
    by (auto simp: obind_eq_Done)
  moreover from this(1) have "counters t = counters s"
    by (auto simp: collect_node_def Let_def counters_def split: if_splits)
  ultimately show ?case using Cons.IH by auto
qed simp

lemma counters_swap_collect:
  assumes "swap_collect s = Done (cs, s')"
  shows "counters s' = (maketic s + 1, gametic s + 1, num_nodes s, consoleplayer s, num_players s)"
proof -
  from assms obtain cs' t where t: "ofold collect_node [0..<num_nodes s] (replicate MAX_PLAYERS 0, s)
      = Done (cs', t)" "s' = t\<lparr>maketic := maketic t + 1, gametic := gametic t + 1\<rparr>"
    by (auto simp: swap_collect_def obind_eq_Done)
  from counters_ofold_collect [OF t(1)] t(2) show ?thesis by (simp add: counters_def)
qed

lemma counters_SwapCommand:
  assumes "SwapCommand cmd cs s = Done (True, cs', s')"
  shows "counters s' = (maketic s + 1, gametic s + 1, num_nodes s, consoleplayer s, num_players s)"
proof -
  from assms obtain s1 s2 where "swap_register cmd s = Done s1" "swap_wait s1 = Done s2"
      "swap_collect s2 = Done (cs', s')"
    by (auto simp: SwapCommand_def obind_eq_Done split: if_splits)
  with counters_swap_register [of cmd s s1] counters_swap_wait [of s1 s2] counters_swap_collect [of s2 cs' s']
  show ?thesis by (simp add: counters_def)
qed

text \<open>C15: the game runs exactly four tics ahead of the commands it has exchanged:
  \<^verbatim>\<open>InitProtocol\<close> sets this distance and neither polling nor a completed tic changes
  it, so \<^verbatim>\<open>SwapCommand\<close> never returns false; it waits instead. (The comments in
  \<^verbatim>\<open>protocol.h\<close> and \<^verbatim>\<open>fakedisk.c\<close> say that it returns false when commands of
  other players are missing.)\<close>

theorem SwapCommand_never_false:
  assumes "maketic s - gametic s = of_nat DELAY"
  shows "(\<forall>cs' s'. SwapCommand cmd cs s \<noteq> Done (False, cs', s'))
    \<and> (\<forall>cs' s'. SwapCommand cmd cs s = Done (True, cs', s') \<longrightarrow> maketic s' - gametic s' = of_nat DELAY)
    \<and> (\<forall>t. ReceivePackets s = Done t \<longrightarrow> maketic t - gametic t = of_nat DELAY)"
proof (intro conjI allI impI)
  fix cs' s'
  show "SwapCommand cmd cs s \<noteq> Done (False, cs', s')"
    using assms by (auto simp: SwapCommand_def DELAY_def MAX_DELAY_def obind_eq_Done split: if_splits)
next
  fix cs' s' assume "SwapCommand cmd cs s = Done (True, cs', s')"
  from counters_SwapCommand [OF this] assms show "maketic s' - gametic s' = of_nat DELAY"
    by (simp add: counters_def)
next
  fix t assume "ReceivePackets s = Done t"
  from counters_ReceivePackets [OF this] assms show "maketic t - gametic t = of_nat DELAY"
    by (simp add: counters_def)
qed

theorem SwapCommand_never_false_witness:
  "\<forall>cs' s'. SwapCommand 9 [] (sample_protocol []) \<noteq> Done (False, cs', s')"
  using SwapCommand_never_false [of "sample_protocol []" 9 "[]"]
  by (simp add: sample_protocol_def fresh_protocol_def DELAY_def)

text \<open>C13: a completed call consumes one tic. It waited until every node had a command ready;
  \<^verbatim>\<open>cmds[]\<close> then holds, for the player of each node, the first command of the node's
  receive window (the last node with that player decides), zero for all other players; that
  command has left the window, and both tic counters have moved on by one.\<close>

theorem SwapCommand_completed:
  assumes "wf_protocol s" and "\<forall>a \<in> set (answers (driver s)). proper_answer (num_nodes s) a"
    and "\<forall>i < num_nodes s. new_length i s \<le> MAX_DELAY"
    and "SwapCommand cmd cs s = Done (True, cs', s')"
  shows "\<exists>s1 s2. swap_register cmd s = Done s1 \<and> swap_wait s1 = Done s2 \<and> NewTicReady s2
    \<and> cs' = tic_cmds [0..<num_nodes s] s2 \<and> length cs' = MAX_PLAYERS
    \<and> maketic s' = maketic s + 1 \<and> gametic s' = gametic s + 1
    \<and> (\<forall>i < num_nodes s. win_cmds (recv_window (nodes s2 ! i))
          = w_cmds (recv_window (nodes s2 ! i)) ! 0 # win_cmds (recv_window (nodes s' ! i)))"
proof -
  obtain s1 where s1: "swap_register cmd s = Done s1" "wf_protocol s1" "num_nodes s1 = num_nodes s"
    using swap_register_total [OF assms(1,3)] by blast
  with assms(2) have ans: "\<forall>a \<in> set (answers (driver s1)). proper_answer (num_nodes s1) a"
    by (simp add: swap_register_answers)
  from assms(4) s1 obtain s2 where s2: "swap_wait s1 = Done s2" "swap_collect s2 = Done (cs', s')"
    by (auto simp: SwapCommand_def obind_eq_Done split: if_splits)
  with swap_wait_outcomes [OF s1(2) ans] have wf2: "wf_protocol s2" "NewTicReady s2"
      "num_nodes s2 = num_nodes s" by (auto simp: s1(3))
  from swap_collect_eq(1) [OF wf2(1,2)] s2(2) have cs': "cs' = tic_cmds [0..<num_nodes s] s2"
    and s': "s' = (popped_upto (num_nodes s) s2)\<lparr>maketic := maketic s2 + 1, gametic := gametic s2 + 1\<rparr>"
    by (auto simp: wf2(3))
  have "win_cmds (recv_window (nodes s2 ! i))
          = w_cmds (recv_window (nodes s2 ! i)) ! 0 # win_cmds (recv_window (nodes s' ! i))"
    if i: "i < num_nodes s" for i
  proof -
    have "i < length (nodes s2)" "num_nodes s \<le> length (nodes s2)" "wf_node (nodes s2 ! i)"
      using i wf2 wf_nth [OF wf2(1), of i] by (auto simp: wf_protocol_def)
    moreover have "0 < w_len (recv_window (nodes s2 ! i))"
      using wf2(2,3) i by (simp add: NewTicReady_iff)
    ultimately show ?thesis
      using i by (simp add: s' popped_upto_def nth_append pop_node_def wf_node_def popped_simps(3))
  qed
  moreover have "maketic s' = maketic s + 1" "gametic s' = gametic s + 1"
    using counters_SwapCommand [OF assms(4)] by (simp_all add: counters_def)
  ultimately show ?thesis using s1(1) s2(1) wf2(2) cs' by auto
qed

lemma sample_swap:
  "case SwapCommand 9 [] (sample_protocol [\<lparr>ans_node = 1, ans_bytes = peer_packet\<rparr>]) of
     Done (b, cs, s') \<Rightarrow> b \<and> cs = [0, 0, 0, 0] | _ \<Rightarrow> False"
  by code_simp

theorem SwapCommand_completed_witness:
  "\<exists>s' s2. SwapCommand 9 [] (sample_protocol [\<lparr>ans_node = 1, ans_bytes = peer_packet\<rparr>])
      = Done (True, [0, 0, 0, 0], s') \<and> NewTicReady s2 \<and> tic_cmds [0..<2] s2 = [0, 0, 0, 0]
      \<and> gametic s' = 1"
proof -
  let ?s = "sample_protocol [\<lparr>ans_node = 1, ans_bytes = peer_packet\<rparr>]"
  obtain s' where s': "SwapCommand 9 [] ?s = Done (True, [0, 0, 0, 0], s')"
    using sample_swap by (auto split: outcome.splits)
  have "\<forall>a \<in> set (answers (driver ?s)). proper_answer (num_nodes ?s) a"
    by (simp add: proper_answer_def DATA_SIZE_def peer_packet_def)
  from SwapCommand_completed [OF sample_protocol_wf this sample_new_length s'] s' show ?thesis
    by (auto simp: sample_protocol_def fresh_protocol_def sample_doomcom_def)
qed

end
