(* ===== verification/Window_Pair.thy ===== *)
theory Window_Pair
  imports Protocol_Sound
begin

text \<open>
  The contract between two machines, seen from machine \<open>a\<close> towards machine \<open>b\<close>: how the
  send window and the receive window \<open>a\<close> keeps for \<open>b\<close>, and the packets \<open>a\<close> has ever
  sent to \<open>b\<close>, relate to the streams of commands of the two machines. Each lemma says
  that one operation of the protocol keeps it. The first section sums up the loop of
  \<^verbatim>\<open>SwapCommand\<close> that registers the new command with every node.
\<close>

section \<open>The loop that registers a command\<close>

text \<open>One turn of the loop, and the turns for the nodes below \<open>n\<close>.\<close>

lemma register_one:
  assumes wf: "wf_protocol s" and i: "i < MAX_PLAYERS"
    and grow: "unat (w_len (out_window i s)) < new_length i s" "new_length i s \<le> MAX_DELAY"
  obtains t where "register_node cmd i s = Done t" and "wf_protocol t" and "counters t = counters s"
    and "answers (driver t) = answers (driver s)"
    and "\<And>j. j < MAX_PLAYERS \<Longrightarrow> player (nodes t ! j) = player (nodes s ! j)"
    and "\<And>j. j < MAX_PLAYERS \<Longrightarrow> recv_window (nodes t ! j) =
      (if j = 0 \<and> i = 0 then pushed cmd (new_length 0 s) (recv_window (nodes s ! 0))
       else recv_window (nodes s ! j))"
    and "\<And>j. j < MAX_PLAYERS \<Longrightarrow> send_window (nodes t ! j) =
      (if j = i \<and> i \<noteq> 0 then pushed cmd (new_length j s) (send_window (nodes s ! j))
       else send_window (nodes s ! j))"
    and "sent (driver t) = sent (driver s) @ (if i = 0 then [] else [(int i, packet_for i t)])"
proof -
  define w where "w = pushed cmd (new_length i s) (out_window i s)"
  define u where "u = with_out_window i w s"
  have "wf_window (out_window i s)"
    using wf_nth [OF wf i] by (cases "i = 0") (simp_all add: out_window_def wf_node_def)
  then have wfu: "wf_protocol u"
    unfolding u_def w_def using wf i grow by (intro with_out_window_wf pushed_wf) simp_all
  have li: "i < length (nodes s)" using wf i by (simp add: wf_protocol_def)
  have reg: "register_node cmd i s = (if i = 0 then Done u else SendPacket i u)"
    using grow by (simp add: register_node_eq [OF wf i grow(2)] u_def w_def Let_def)
  show ?thesis
  proof (cases "i = 0")
    case True
    then have reg: "register_node cmd 0 s = Done u" using reg by simp
    show ?thesis
      by (rule that [of u]; (rule wfu)?)
        (use True li in \<open>auto simp: reg u_def with_out_window_def counters_def w_def out_window_def nth_list_update\<close>)
  next
    case False
    obtain dc where dc: "SendPacket i u = Done (sent_state i dc u)" "length (dc_data dc) = DATA_SIZE"
      using SendPacket_eq [of u i] wf_nth [OF wfu i] wfu by (auto simp: wf_node_def wf_protocol_def)
    obtain t where t: "SendPacket i u = Done t" "wf_protocol t" 
      using SendPacket_total [OF wfu i] by blast
    then have teq: "t = sent_state i dc u" using dc by simp
    have regi: "register_node cmd i s = Done t" using reg t(1) False by simp
    show ?thesis
      by (rule that [of t]; (rule t regi)?)
        (use False li in \<open>auto simp: teq sent_state_def u_def with_out_window_def counters_def
          packet_for_def Let_def w_def out_window_def nth_list_update\<close>)
  qed
qed

lemma register_upto:
  assumes wf: "wf_protocol s" and n: "n \<le> num_nodes s"
    and grow: "\<And>i. i < num_nodes s \<Longrightarrow> unat (w_len (out_window i s)) < new_length i s"
      "\<And>i. i < num_nodes s \<Longrightarrow> new_length i s \<le> MAX_DELAY"
  shows "\<exists>t. ofold (register_node cmd) [0..<n] s = Done t \<and> wf_protocol t \<and> counters t = counters s
    \<and> answers (driver t) = answers (driver s)
    \<and> (\<forall>j < MAX_PLAYERS. player (nodes t ! j) = player (nodes s ! j)
       \<and> recv_window (nodes t ! j) =
           (if j = 0 \<and> 0 < n then pushed cmd (new_length 0 s) (recv_window (nodes s ! 0))
            else recv_window (nodes s ! j))
       \<and> send_window (nodes t ! j) =
           (if 0 < j \<and> j < n then pushed cmd (new_length j s) (send_window (nodes s ! j))
            else send_window (nodes s ! j)))
    \<and> sent (driver t) = sent (driver s) @ map (\<lambda>i. (int i, packet_for i t)) [1..<n]"
  using n
proof (induction n)
  case 0
  show ?case using wf by simp
next
  case (Suc n)
  have np: "num_nodes s \<le> MAX_PLAYERS" "n < num_nodes s" "n < MAX_PLAYERS"
    using wf Suc.prems by (auto simp: wf_protocol_def)
  from Suc obtain t where t: "ofold (register_node cmd) [0..<n] s = Done t" "wf_protocol t"
      "counters t = counters s" "answers (driver t) = answers (driver s)"
    and view: "\<And>j. j < MAX_PLAYERS \<Longrightarrow> player (nodes t ! j) = player (nodes s ! j)"
      "\<And>j. j < MAX_PLAYERS \<Longrightarrow> recv_window (nodes t ! j) =
           (if j = 0 \<and> 0 < n then pushed cmd (new_length 0 s) (recv_window (nodes s ! 0))
            else recv_window (nodes s ! j))"
      "\<And>j. j < MAX_PLAYERS \<Longrightarrow> send_window (nodes t ! j) =
           (if 0 < j \<and> j < n then pushed cmd (new_length j s) (send_window (nodes s ! j))
            else send_window (nodes s ! j))"
    and st: "sent (driver t) = sent (driver s) @ map (\<lambda>i. (int i, packet_for i t)) [1..<n]"
    by auto
  have "out_window n t = out_window n s" using view np by (auto simp: out_window_def)
  moreover have "maketic t = maketic s" using t(3) by (simp add: counters_def)
  ultimately have same: "out_window n t = out_window n s" "new_length n t = new_length n s"
    by (simp_all add: new_length_def)
  have nl: "new_length n t = new_length n s" "n = 0 \<Longrightarrow> new_length 0 t = new_length 0 s"
    using same by simp_all
  obtain u where u: "register_node cmd n t = Done u" "wf_protocol u" "counters u = counters t"
      "answers (driver u) = answers (driver t)"
    and viewu: "\<And>j. j < MAX_PLAYERS \<Longrightarrow> player (nodes u ! j) = player (nodes t ! j)"
      "\<And>j. j < MAX_PLAYERS \<Longrightarrow> recv_window (nodes u ! j) =
      (if j = 0 \<and> n = 0 then pushed cmd (new_length 0 t) (recv_window (nodes t ! 0))
       else recv_window (nodes t ! j))"
      "\<And>j. j < MAX_PLAYERS \<Longrightarrow> send_window (nodes u ! j) =
      (if j = n \<and> n \<noteq> 0 then pushed cmd (new_length j t) (send_window (nodes t ! j))
       else send_window (nodes t ! j))"
    and stu: "sent (driver u) = sent (driver t) @ (if n = 0 then [] else [(int n, packet_for n u)])"
    using register_one [OF t(2) np(3), of cmd] grow [OF np(2)] unfolding same by blast
  have pk: "packet_for i u = packet_for i t" if "1 \<le> i" "i < n" for i
    using that np viewu(1) [of 0] viewu(2,3) [of i] by (simp add: packet_for_def)
  have "sent (driver u) = sent (driver s) @ map (\<lambda>i. (int i, packet_for i u)) [1..<Suc n]"
    unfolding stu st using pk by auto
  moreover have "ofold (register_node cmd) [0..<Suc n] s = Done u"
    using t(1) u(1) by (simp add: ofold_append)
  moreover have "0 < MAX_PLAYERS" by (simp add: MAX_PLAYERS_def)
  ultimately show ?case
    using u t view viewu nl by (intro exI [of _ u]) (auto simp: less_Suc_eq)
qed

section \<open>The contract\<close>

text \<open>A packet from \<open>a\<close> to \<open>b\<close>. \<open>Ha\<close> is the stream of commands of \<open>a\<close>, \<open>eb\<close> how much of it
  \<open>b\<close> has received, \<open>ea\<close> how much \<open>a\<close> has received of the stream of \<open>b\<close>: the packet holds a
  piece of the stream that begins where \<open>b\<close> can use it, acknowledges nothing \<open>a\<close> has not
  received, and its sender had at least all but four of the tics it sends.\<close>

definition packet_ok :: "u16 list \<Rightarrow> nat \<Rightarrow> nat \<Rightarrow> nat \<Rightarrow> u8 list \<Rightarrow> bool" where
  "packet_ok Ha eb ea pl bs \<longleftrightarrow> (\<exists>st ack c.
     bs = packet_bytes st ack (of_nat pl) (take c (drop (unat st) Ha))
     \<and> unat st + c \<le> length Ha \<and> c \<le> MAX_DELAY \<and> unat st \<le> eb \<and> unat ack \<le> ea
     \<and> unat st + c \<le> unat ack + DELAY)"

text \<open>The two windows and the packets. \<open>Ta\<close> is the number of tics \<open>a\<close> has played, \<open>Hb\<close> the
  stream of \<open>b\<close>.\<close>

definition pair_ok ::
  "u16 list \<Rightarrow> nat \<Rightarrow> u16 list \<Rightarrow> nat \<Rightarrow> nat \<Rightarrow> window \<Rightarrow> window \<Rightarrow> u8 list set \<Rightarrow> bool" where
  "pair_ok Ha Ta Hb eb pl S R P \<longleftrightarrow>
     wf_window S \<and> wf_window R
     \<and> unat (w_start S) + unat (w_len S) = length Ha \<and> win_cmds S = drop (unat (w_start S)) Ha
     \<and> unat (w_start R) = Ta \<and> Ta + unat (w_len R) \<le> length Hb
     \<and> win_cmds R = take (unat (w_len R)) (drop Ta Hb)
     \<and> unat (w_start S) \<le> eb
     \<and> Ta + unat (w_len R) \<le> unat (w_start S) + DELAY
     \<and> (\<forall>bs \<in> P. packet_ok Ha eb (Ta + unat (w_len R)) pl bs)"

named_theorems pair_intros \<open>operations keep the contract\<close>

section \<open>What the other machine does\<close>

lemma packet_ok_mono:
  assumes "packet_ok Ha eb ea pl bs" and "eb \<le> eb'" and "ea \<le> ea'"
  shows "packet_ok (Ha @ xs) eb' ea' pl bs"
proof -
  from assms(1) obtain st ack c where
    p: "bs = packet_bytes st ack (of_nat pl) (take c (drop (unat st) Ha))"
      "unat st + c \<le> length Ha" "c \<le> MAX_DELAY" "unat st \<le> eb" "unat ack \<le> ea"
      "unat st + c \<le> unat ack + DELAY"
    by (auto simp: packet_ok_def)
  from p(2) have "take c (drop (unat st) (Ha @ xs)) = take c (drop (unat st) Ha)" by simp
  with p assms(2,3) show ?thesis
    unfolding packet_ok_def by (intro exI [of _ st] exI [of _ ack] exI [of _ c]) simp
qed

lemma pair_ok_other [pair_intros]:
  assumes "pair_ok Ha Ta Hb eb pl S R P" and "eb \<le> eb'"
  shows "pair_ok Ha Ta (Hb @ xs) eb' pl S R P"
  using assms packet_ok_mono [of Ha eb "Ta + unat (w_len R)" pl _ eb' "Ta + unat (w_len R)" "[]"]
  by (auto simp: pair_ok_def)

section \<open>Sending\<close>

lemma unat_window_end:
  "unat (w_start R) + unat (w_len R) < 2 ^ 32 \<Longrightarrow>
     unat (w_start R + ucast (w_len R)) = unat (w_start R) + unat (w_len R)"
  by (simp add: u32_add_u8)

lemma pair_ok_send [pair_intros]:
  assumes "pair_ok Ha Ta Hb eb pl S R P" and "length Ha \<le> Ta + DELAY" and "length Hb < 2 ^ 32"
  shows "pair_ok Ha Ta Hb eb pl S R (insert
    (packet_bytes (w_start S) (w_start R + ucast (w_len R)) (of_nat pl) (win_cmds S)) P)"
proof -
  have len: "unat (w_len S) \<le> MAX_DELAY" "unat (w_start S) + unat (w_len S) = length Ha"
    "win_cmds S = drop (unat (w_start S)) Ha" "unat (w_start S) \<le> eb"
    "unat (w_start R) = Ta" "Ta + unat (w_len R) \<le> length Hb"
    using assms(1) by (auto simp: pair_ok_def wf_window_def)
  then have "unat (w_start R + ucast (w_len R)) = Ta + unat (w_len R)"
    using assms(3) by (subst unat_window_end) auto
  moreover have "win_cmds S = take (unat (w_len S)) (drop (unat (w_start S)) Ha)"
    using len by simp
  ultimately have "packet_ok Ha eb (Ta + unat (w_len R)) pl
      (packet_bytes (w_start S) (w_start R + ucast (w_len R)) (of_nat pl) (win_cmds S))"
    unfolding packet_ok_def using len assms(2)
    by (intro exI [of _ "w_start S"] exI [of _ "w_start R + ucast (w_len R)"]
        exI [of _ "unat (w_len S)"]) auto
  with assms(1) show ?thesis by (auto simp: pair_ok_def)
qed

section \<open>Making a command\<close>

lemma win_cmds_pushed:
  assumes "wf_window w" and "k = Suc (unat (w_len w))" and "k \<le> MAX_DELAY"
  shows "win_cmds (pushed cmd k w) = win_cmds w @ [cmd]" and "unat (w_len (pushed cmd k w)) = k"
proof -
  have k: "k \<le> 16" "length (w_cmds w) = 16"
    using assms by (auto simp: wf_window_def MAX_DELAY_def)
  then show len: "unat (w_len (pushed cmd k w)) = k" by (simp add: pushed_def)
  show "win_cmds (pushed cmd k w) = win_cmds w @ [cmd]"
    unfolding win_cmds_def len using assms(2) k
    by (simp add: pushed_def take_Suc_conv_app_nth)
qed

lemma pair_ok_register [pair_intros]:
  assumes "pair_ok Ha Ta Hb eb pl S R P" and "length Ha < Ta + DELAY"
    and k: "k = Suc (unat (w_len S))"
  shows "pair_ok (Ha @ [cmd]) Ta Hb eb pl (pushed cmd k S) R P" and "k \<le> 8"
proof -
  have ok: "unat (w_start S) + unat (w_len S) = length Ha" "win_cmds S = drop (unat (w_start S)) Ha"
    "Ta \<le> unat (w_start S) + 4" "wf_window S"
    using assms(1) by (auto simp: pair_ok_def DELAY_def)
  with assms(2) k show "k \<le> 8" by (simp add: DELAY_def)
  then have "k \<le> MAX_DELAY" by (simp add: MAX_DELAY_def)
  note push = win_cmds_pushed [OF ok(4) k this, of cmd] pushed_wf [OF ok(4) this, of cmd]
  have "w_start (pushed cmd k S) = w_start S" by (simp add: pushed_def)
  moreover have "packet_ok (Ha @ [cmd]) eb (Ta + unat (w_len R)) pl bs" if "bs \<in> P" for bs
    using assms(1) that by (intro packet_ok_mono) (auto simp: pair_ok_def)
  ultimately show "pair_ok (Ha @ [cmd]) Ta Hb eb pl (pushed cmd k S) R P"
    using assms(1) push k by (auto simp: pair_ok_def)
qed

section \<open>Playing a tic\<close>

lemma pair_ok_pop [pair_intros]:
  assumes "pair_ok Ha Ta Hb eb pl S R P" and "0 < w_len R" and "length Hb < 2 ^ 32"
  shows "pair_ok Ha (Suc Ta) Hb eb pl S (popped R) P"
    and "Suc Ta + unat (w_len (popped R)) = Ta + unat (w_len R)"
    and "Ta < length Hb" and "w_cmds R ! 0 = Hb ! Ta"
proof -
  have ok: "wf_window R" "unat (w_start R) = Ta" "Ta + unat (w_len R) \<le> length Hb"
    "win_cmds R = take (unat (w_len R)) (drop Ta Hb)"
    using assms(1) by (auto simp: pair_ok_def)
  have pos: "0 < unat (w_len R)" using assms(2) by (simp add: word_less_nat_alt)
  with ok(3) show lt: "Ta < length Hb" by simp
  note pop = popped_simps [OF ok(1) assms(2)]
  from pos pop(2) show len: "Suc Ta + unat (w_len (popped R)) = Ta + unat (w_len R)" by simp
  have start: "unat (w_start (popped R)) = Suc Ta"
    using ok(2) lt assms(3) by (simp add: popped_def unat_add_small)
  have cons: "take (unat (w_len R)) (drop Ta Hb)
      = Hb ! Ta # take (unat (w_len (popped R))) (drop (Suc Ta) Hb)"
    using pos pop(2) lt by (cases "unat (w_len R)") (auto simp: Cons_nth_drop_Suc [symmetric])
  from cons pop(3) ok(4) show "w_cmds R ! 0 = Hb ! Ta" by simp
  from cons pop(3) ok(4) have "win_cmds (popped R) = take (unat (w_len (popped R))) (drop (Suc Ta) Hb)"
    by simp
  with assms(1) pop(1) start show "pair_ok Ha (Suc Ta) Hb eb pl S (popped R) P"
    unfolding pair_ok_def len by simp
qed

section \<open>Receiving\<close>

lemma ack_step_stream:
  assumes "wf_window S" and "unat (w_start S) + unat (w_len S) = length H" and "length H < 2 ^ 32"
    and "win_cmds S = drop (unat (w_start S)) H" and "unat ack \<le> length H"
  shows "wf_window (ack_step ack S)"
    and "unat (w_start (ack_step ack S)) = max (unat (w_start S)) (unat ack)"
    and "unat (w_start (ack_step ack S)) + unat (w_len (ack_step ack S)) = length H"
    and "win_cmds (ack_step ack S) = drop (unat (w_start (ack_step ack S))) H"
proof -
  have "ack_step ack S = (if unat (w_start S) < unat ack then acked ack S else S)"
    using assms(2,3,5) by (simp add: ack_step_def ack_guard ack_inside_def)
  moreover have "ack_inside ack S" if "unat (w_start S) < unat ack"
    using that assms(2,5) by (simp add: ack_inside_def)
  ultimately show "wf_window (ack_step ack S)"
    "unat (w_start (ack_step ack S)) = max (unat (w_start S)) (unat ack)"
    "unat (w_start (ack_step ack S)) + unat (w_len (ack_step ack S)) = length H"
    "win_cmds (ack_step ack S) = drop (unat (w_start (ack_step ack S))) H"
    using assms by (auto simp: acked_simps add.commute)
qed

text \<open>A piece of the stream stored into a window of the same stream, leaving no gap.\<close>

lemma stored_stream:
  assumes "wf_window R" and "win_cmds R = take (unat (w_len R)) (drop T H)"
    and "T + unat (w_len R) \<le> length H" and "k \<le> unat (w_len R)"
    and "T + k + c \<le> length H" and "k + c \<le> MAX_DELAY"
  defines "R' \<equiv> stored k (take c (drop (T + k) H)) R"
  shows "unat (w_len R') = max (unat (w_len R)) (k + c)"
    and "win_cmds R' = take (unat (w_len R')) (drop T H)"
proof -
  define cs where "cs = take c (drop (T + k) H)"
  have cs: "length cs = c" "min (length cs) (MAX_DELAY - k) = c" "take c cs = cs"
    using assms(5,6) by (simp_all add: cs_def)
  show len: "unat (w_len R') = max (unat (w_len R)) (k + c)"
    using assms(4) stored_simps(3) [OF assms(1), of k cs] unfolding cs(2) R'_def cs_def [symmetric]
    by auto
  have w: "length (w_cmds R) = 16" "unat (w_len R) \<le> 16" "k + c \<le> 16"
    using assms(1,6) by (auto simp: wf_window_def MAX_DELAY_def)
  have cmds: "w_cmds R' = overwrite (w_cmds R) k cs"
    unfolding R'_def cs_def [symmetric] stored_def cs(2) Let_def using cs(1,3) by auto
  have old: "w_cmds R ! x = H ! (T + x)" if "x < unat (w_len R)" for x
  proof -
    have "w_cmds R ! x = win_cmds R ! x" using that by (simp add: win_cmds_def)
    also have "\<dots> = H ! (T + x)" using that assms(2,3) by simp
    finally show ?thesis .
  qed
  show "win_cmds R' = take (unat (w_len R')) (drop T H)"
  proof (rule nth_equalityI)
    show "length (win_cmds R') = length (take (unat (w_len R')) (drop T H))"
      using w cs assms(3,5) by (simp add: win_cmds_def cmds len)
    fix x assume "x < length (win_cmds R')"
    then have x: "x < max (unat (w_len R)) (k + c)" "x < 16" "T + x < length H"
      using w cs assms(3,5) by (auto simp: win_cmds_def cmds len)
    have "overwrite (w_cmds R) k cs ! x = H ! (T + x)"
    proof (cases "k \<le> x \<and> x < k + c")
      case True
      then obtain y where "x = k + y" "y < c" by (metis le_Suc_ex add_less_cancel_left)
      then have "cs ! (x - k) = H ! (T + x)" using assms(5) by (simp add: cs_def add.assoc)
      with True w x cs show ?thesis by (simp add: nth_overwrite)
    next
      case False
      with x assms(4) have "x < unat (w_len R)" by auto
      with False old w cs x show ?thesis by (auto simp: nth_overwrite)
    qed
    with x show "win_cmds R' ! x = take (unat (w_len R')) (drop T H) ! x"
      using w cs by (simp add: win_cmds_def cmds len)
  qed
qed

text \<open>The receive window after a packet whose commands are a part of the stream.\<close>

lemma recv_step_stream:
  assumes wf: "wf_window R" and start: "unat (w_start R) = T"
    and has: "win_cmds R = take (unat (w_len R)) (drop T H)" "T + unat (w_len R) \<le> length H"
    and packet: "unat st + c \<le> length H" "unat st \<le> T + unat (w_len R)" and bound: "length H \<le> T + MAX_DELAY"
  defines "R' \<equiv> if st < w_start R then R else stored (unat (st - w_start R)) (take c (drop (unat st) H)) R"
  shows "wf_window R'" and "w_start R' = w_start R" and "unat (w_len R) \<le> unat (w_len R')"
    and "unat (w_len R') \<le> max (unat (w_len R)) (unat st + c - T)"
    and "win_cmds R' = take (unat (w_len R')) (drop T H)"
proof -
  have "unat (w_len R) \<le> unat (w_len R') \<and> unat (w_len R') \<le> max (unat (w_len R)) (unat st + c - T)
    \<and> win_cmds R' = take (unat (w_len R')) (drop T H)"
  proof (cases "st < w_start R")
    case True
    with has show ?thesis by (simp add: R'_def)
  next
    case False
    define k where "k = unat (st - w_start R)"
    have k: "k = unat st - T" "T + k = unat st"
      using False start by (auto simp: k_def unat_sub_small not_less word_le_nat_alt)
    have "k \<le> unat (w_len R)" "T + k + c \<le> length H" "k + c \<le> MAX_DELAY"
      using k packet bound by auto
    from stored_stream [OF wf has this] show ?thesis
      using False k by (simp add: R'_def k_def [symmetric])
  qed
  then show "unat (w_len R) \<le> unat (w_len R')" "unat (w_len R') \<le> max (unat (w_len R)) (unat st + c - T)"
    "win_cmds R' = take (unat (w_len R')) (drop T H)" by auto
  show "wf_window R'" "w_start R' = w_start R"
    using wf by (simp_all add: R'_def stored_simps)
qed

lemma received_player_pair:
  assumes "plb < MAX_PLAYERS"
  shows "player (received st ack (of_nat plb) cs n) = int plb \<or> player (received st ack (of_nat plb) cs n) = player n"
proof -
  have "unat (of_nat plb :: u8) = plb" using assms by (simp add: MAX_PLAYERS_def)
  then have "uint (of_nat plb :: u8) = int plb" by (metis uint_nat)
  then show ?thesis by (simp add: received_def Let_def)
qed

lemma pair_ok_receive:
  assumes ok: "pair_ok Ha Ta Hb eb pl (send_window n) (recv_window n) P"
    and pk: "packet_ok Hb (Ta + unat (w_len (recv_window n))) eb plb bs"
    and bounds: "length Ha < 2 ^ 32" "length Hb < 2 ^ 32" "eb \<le> length Ha" "length Hb \<le> Ta + MAX_DELAY"
      "plb < MAX_PLAYERS"
  obtains st ack cs where "bs = packet_bytes st ack (of_nat plb) cs" and "length cs \<le> MAX_DELAY"
    and "pair_ok Ha Ta Hb eb pl (send_window (received st ack (of_nat plb) cs n))
           (recv_window (received st ack (of_nat plb) cs n)) P"
    and "unat (w_len (recv_window n)) \<le> unat (w_len (recv_window (received st ack (of_nat plb) cs n)))"
    and "player (received st ack (of_nat plb) cs n) = int plb
       \<or> player (received st ack (of_nat plb) cs n) = player n"
proof -
  define S R where "S = send_window n" and "R = recv_window n"
  from pk obtain st ack c where p:
      "bs = packet_bytes st ack (of_nat plb) (take c (drop (unat st) Hb))"
      "unat st + c \<le> length Hb" "c \<le> MAX_DELAY" "unat st \<le> Ta + unat (w_len R)" "unat ack \<le> eb"
      "unat st + c \<le> unat ack + DELAY"
    by (auto simp: packet_ok_def R_def)
  define cs where "cs = take c (drop (unat st) Hb)"
  define n' where "n' = received st ack (of_nat plb) cs n"
  have o: "wf_window S" "wf_window R" "unat (w_start S) + unat (w_len S) = length Ha"
    "win_cmds S = drop (unat (w_start S)) Ha" "unat (w_start R) = Ta"
    "Ta + unat (w_len R) \<le> length Hb" "win_cmds R = take (unat (w_len R)) (drop Ta Hb)"
    "unat (w_start S) \<le> eb" "Ta + unat (w_len R) \<le> unat (w_start S) + DELAY"
    using ok by (auto simp: pair_ok_def S_def R_def)
  have "unat ack \<le> length Ha" using p(5) bounds(3) by simp
  note S' = ack_step_stream [OF o(1,3) bounds(1) o(4) this]
  define R' where "R' = (if st < w_start R then R else stored (unat (st - w_start R)) cs R)"
  have n': "send_window n' = ack_step ack S" "recv_window n' = R'"
    by (simp_all add: n'_def received_def Let_def S_def R_def R'_def)
  note R' = recv_step_stream [OF o(2,5,7,6) p(2,4) bounds(4), folded cs_def, folded R'_def]
  have "Ta + unat (w_len R') \<le> length Hb"
    using R'(4) o(6) p(2) by auto
  moreover have "Ta + unat (w_len R') \<le> unat (w_start (ack_step ack S)) + DELAY"
    using R'(4) o(9) p(6) S'(2) by auto
  moreover have "unat (w_start (ack_step ack S)) \<le> eb"
    using S'(2) o(8) p(5) by auto
  moreover have "packet_ok Ha eb (Ta + unat (w_len R')) pl b" if "b \<in> P" for b
    using ok that R'(3) packet_ok_mono [of Ha eb "Ta + unat (w_len R)" pl b eb "Ta + unat (w_len R')" "[]"]
    by (auto simp: pair_ok_def R_def)
  ultimately have "pair_ok Ha Ta Hb eb pl (send_window n') (recv_window n') P"
    using S' R' o(5) by (simp add: pair_ok_def n')
  moreover have "player n' = int plb \<or> player n' = player n"
    unfolding n'_def by (rule received_player_pair [OF bounds(5)])
  moreover have "length cs \<le> MAX_DELAY" using p(3) by (simp add: cs_def)
  moreover have "unat (w_len (recv_window n)) \<le> unat (w_len (recv_window n'))"
    using R'(3) by (simp add: n' R_def)
  ultimately show ?thesis
    using that [of st ack cs] p(1) unfolding cs_def [symmetric] n'_def by blast
qed

end
