(* ===== verification/Game.thy ===== *)
theory Game
  imports Window_Pair
begin

text \<open>
  Several machines running the protocol over a network that loses, duplicates, reorders and
  damages packets: the states the whole game can reach, the invariant that ties all windows,
  packets and counters to the streams of commands, and what follows for the players: every
  machine plays every tic with the same commands.
\<close>

section \<open>The game\<close>

text \<open>
  The state of every machine, whether it is inside \<^verbatim>\<open>SwapCommand\<close>, and two
  histories no code reads: the commands given to \<^verbatim>\<open>SwapCommand\<close> and the vectors
  it has returned.
\<close>

record game =
  machines :: "nat \<Rightarrow> protocol"
  swapping :: "nat \<Rightarrow> bool"
  typed :: "nat \<Rightarrow> u16 list"
  played :: "nat \<Rightarrow> u16 list list"

text \<open>The network: \<open>idx m k\<close> is the node number of machine \<open>k\<close> at machine \<open>m\<close>, and
  \<open>pl m\<close> the player number of machine \<open>m\<close>.\<close>

definition topology :: "nat \<Rightarrow> (nat \<Rightarrow> nat \<Rightarrow> nat) \<Rightarrow> (nat \<Rightarrow> nat) \<Rightarrow> bool" where
  "topology N idx pl \<longleftrightarrow> 2 \<le> N \<and> N \<le> MAX_PLAYERS
     \<and> (\<forall>m < N. idx m m = 0 \<and> inj_on (idx m) {..<N} \<and> idx m ` {..<N} = {..<N})
     \<and> inj_on pl {..<N} \<and> (\<forall>m < N. pl m < MAX_PLAYERS)"

text \<open>Bytes that \<^verbatim>\<open>ReceivePacket\<close> rejects, read over a cleared data area.\<close>

definition garbled :: "u8 list \<Rightarrow> bool" where
  "garbled bs \<longleftrightarrow> \<not> packet_accepted ((sample_doomcom 2 0)
     \<lparr>dc_datalength := int (length bs), dc_data := overwrite (replicate DATA_SIZE 0) 0 bs\<rparr>)"

text \<open>What the driver of machine \<open>m\<close> can answer: nothing, a packet some other machine has
  ever sent to \<open>m\<close>, or a damaged one.\<close>

definition deliverable :: "nat \<Rightarrow> (nat \<Rightarrow> nat \<Rightarrow> nat) \<Rightarrow> game \<Rightarrow> nat \<Rightarrow> answer \<Rightarrow> bool" where
  "deliverable N idx g m a \<longleftrightarrow> length (ans_bytes a) \<le> DATA_SIZE \<and> (ans_node a = -1 \<or>
     (\<exists>k < N. k \<noteq> m \<and> ans_node a = int (idx m k)
        \<and> ((int (idx k m), ans_bytes a) \<in> set (sent (driver (machines g k)))
           \<or> garbled (ans_bytes a))))"

definition set_machine :: "nat \<Rightarrow> protocol \<Rightarrow> game \<Rightarrow> game" where
  "set_machine m p g = g\<lparr>machines := (machines g)(m := p)\<rparr>"

text \<open>
  One step of one machine: the driver gets new answers and the clock moves on; a packet is
  received; a poll finds no packet; the clock is read or a window is sent again
  (\<^verbatim>\<open>CheckResends\<close>); and the two ends of \<^verbatim>\<open>SwapCommand\<close>, before and
  after its waiting loop.
\<close>

inductive game_step :: "nat \<Rightarrow> (nat \<Rightarrow> nat \<Rightarrow> nat) \<Rightarrow> game \<Rightarrow> game \<Rightarrow> bool"
  for N :: nat and idx :: "nat \<Rightarrow> nat \<Rightarrow> nat" where
  input: "m < N \<Longrightarrow> \<forall>a \<in> set as. deliverable N idx g m a \<Longrightarrow>
    game_step N idx g (set_machine m ((machines g m)
      \<lparr>driver := (driver (machines g m))\<lparr>answers := as\<rparr>, clock := c\<rparr>) g)"
| receive: "m < N \<Longrightarrow> answers (driver (machines g m)) = a # as \<Longrightarrow> ans_node a \<noteq> -1 \<Longrightarrow>
    ReceivePacket (nat (ans_node a)) (take_answer a as (machines g m)) = Done p \<Longrightarrow>
    game_step N idx g (set_machine m p g)"
| no_answer: "m < N \<Longrightarrow> answers (driver (machines g m)) = [] \<Longrightarrow>
    game_step N idx g (set_machine m (no_packet (machines g m)) g)"
| no_packet: "m < N \<Longrightarrow> answers (driver (machines g m)) = a # as \<Longrightarrow> ans_node a = -1 \<Longrightarrow>
    game_step N idx g (set_machine m (take_answer a as (machines g m)) g)"
| read_clock: "m < N \<Longrightarrow>
    game_step N idx g (set_machine m ((machines g m)
      \<lparr>clock_calls := Suc (clock_calls (machines g m))\<rparr>) g)"
| resend: "m < N \<Longrightarrow> 1 \<le> i \<Longrightarrow> i < N \<Longrightarrow> SendPacket i (machines g m) = Done p \<Longrightarrow>
    game_step N idx g (set_machine m p g)"
| swap_begin: "m < N \<Longrightarrow> \<not> swapping g m \<Longrightarrow> swap_register cmd (machines g m) = Done p \<Longrightarrow>
    game_step N idx g ((set_machine m p g)
      \<lparr>swapping := (swapping g)(m := True), typed := (typed g)(m := typed g m @ [cmd])\<rparr>)"
| swap_end: "m < N \<Longrightarrow> swapping g m \<Longrightarrow> NewTicReady (machines g m) \<Longrightarrow>
    swap_collect (machines g m) = Done (cs, p) \<Longrightarrow>
    game_step N idx g ((set_machine m p g)
      \<lparr>swapping := (swapping g)(m := False), played := (played g)(m := played g m @ [cs])\<rparr>)"

text \<open>At the start every machine has returned from \<^verbatim>\<open>InitProtocol\<close>.\<close>

definition game_init :: "nat \<Rightarrow> (nat \<Rightarrow> nat) \<Rightarrow> game \<Rightarrow> bool" where
  "game_init N pl g \<longleftrightarrow> swapping g = (\<lambda>_. False) \<and> typed g = (\<lambda>_. []) \<and> played g = (\<lambda>_. [])
     \<and> (\<forall>m < N. \<exists>fake dc0 dc c. InitProtocol dc (static_protocol fake dc0 idle_driver c) = Done (machines g m)
          \<and> dc_numnodes dc = int N \<and> dc_consoleplayer dc = int (pl m)
          \<and> length (dc_data dc) = DATA_SIZE)"

section \<open>The invariant\<close>

text \<open>The stream of commands of a machine: three empty tics, then what was typed.\<close>

definition stream :: "game \<Rightarrow> nat \<Rightarrow> u16 list" where
  "stream g m = replicate 3 0 @ typed g m"

definition tics :: "game \<Rightarrow> nat \<Rightarrow> nat" where
  "tics g m = length (played g m)"

definition node_for :: "(nat \<Rightarrow> nat \<Rightarrow> nat) \<Rightarrow> game \<Rightarrow> nat \<Rightarrow> nat \<Rightarrow> node" where
  "node_for idx g m k = nodes (machines g m) ! idx m k"

text \<open>How much of the stream of \<open>k\<close> machine \<open>m\<close> has received.\<close>

definition got :: "(nat \<Rightarrow> nat \<Rightarrow> nat) \<Rightarrow> game \<Rightarrow> nat \<Rightarrow> nat \<Rightarrow> nat" where
  "got idx g m k = tics g m + unat (w_len (recv_window (node_for idx g m k)))"

definition sent_to :: "(nat \<Rightarrow> nat \<Rightarrow> nat) \<Rightarrow> game \<Rightarrow> nat \<Rightarrow> nat \<Rightarrow> u8 list set" where
  "sent_to idx g m k = {bs. (int (idx m k), bs) \<in> set (sent (driver (machines g m)))}"

text \<open>The commands of tic \<open>t\<close>: for each player the command of the machine that has it.\<close>

definition tic_vector :: "nat \<Rightarrow> (nat \<Rightarrow> nat) \<Rightarrow> game \<Rightarrow> nat \<Rightarrow> u16 list" where
  "tic_vector N pl g t = map (\<lambda>p. case find (\<lambda>k. pl k = p) [0..<N] of
      None \<Rightarrow> 0 | Some k \<Rightarrow> stream g k ! t) [0..<MAX_PLAYERS]"

definition machine_ok :: "nat \<Rightarrow> (nat \<Rightarrow> nat \<Rightarrow> nat) \<Rightarrow> (nat \<Rightarrow> nat) \<Rightarrow> game \<Rightarrow> nat \<Rightarrow> bool" where
  "machine_ok N idx pl g m \<longleftrightarrow>
     (let s = machines g m; r = recv_window (nodes s ! 0)
      in wf_protocol s \<and> num_nodes s = N \<and> player (nodes s ! 0) = int (pl m) \<and> consoleplayer s = pl m
         \<and> unat (gametic s) = tics g m \<and> unat (maketic s) = tics g m + DELAY
         \<and> length (typed g m) = tics g m + (if swapping g m then 1 else 0)
         \<and> unat (w_start r) = tics g m
         \<and> unat (w_len r) = (if tics g m = 0 \<and> \<not> swapping g m then 0
                             else length (stream g m) - tics g m)
         \<and> take (length (stream g m) - tics g m) (w_cmds r) = drop (tics g m) (stream g m)
         \<and> (\<forall>a \<in> set (answers (driver s)). deliverable N idx g m a)
         \<and> (\<forall>t < tics g m. played g m ! t = tic_vector N pl g t))"

definition link_ok :: "(nat \<Rightarrow> nat \<Rightarrow> nat) \<Rightarrow> (nat \<Rightarrow> nat) \<Rightarrow> game \<Rightarrow> nat \<Rightarrow> nat \<Rightarrow> bool" where
  "link_ok idx pl g m k \<longleftrightarrow>
     pair_ok (stream g m) (tics g m) (stream g k) (got idx g k m) (pl m)
       (send_window (node_for idx g m k)) (recv_window (node_for idx g m k)) (sent_to idx g m k)
     \<and> player (node_for idx g m k) \<in> {-1, int (pl k)}"

definition game_inv :: "nat \<Rightarrow> (nat \<Rightarrow> nat \<Rightarrow> nat) \<Rightarrow> (nat \<Rightarrow> nat) \<Rightarrow> game \<Rightarrow> bool" where
  "game_inv N idx pl g \<longleftrightarrow> topology N idx pl \<and> (\<forall>m < N. machine_ok N idx pl g m)
     \<and> (\<forall>m < N. \<forall>k < N. k \<noteq> m \<longrightarrow> link_ok idx pl g m k)"

text \<open>The tic counters have not come near their 32 bits.\<close>

definition game_ok :: "nat \<Rightarrow> game \<Rightarrow> bool" where
  "game_ok N g \<longleftrightarrow> (\<forall>m < N. length (typed g m) < 2 ^ 32 - 16)"

section \<open>Consequences of the invariant\<close>

lemma topology_idx:
  assumes "topology N idx pl" and "m < N" and "k < N"
  shows "idx m k < N" and "idx m k = 0 \<longleftrightarrow> k = m" and "idx m k < MAX_PLAYERS"
proof -
  have *: "idx m m = 0" "inj_on (idx m) {..<N}" "idx m ` {..<N} = {..<N}" "N \<le> MAX_PLAYERS"
    using assms(1,2) unfolding topology_def by (simp_all only:)
  show lt: "idx m k < N" by (metis *(3) imageI lessThan_iff assms(3))
  with *(4) show "idx m k < MAX_PLAYERS" by simp
  show "idx m k = 0 \<longleftrightarrow> k = m"
    using * assms(2,3) by (metis inj_on_eq_iff lessThan_iff)
qed

lemma topology_surj:
  assumes "topology N idx pl" and "m < N" and "i < N"
  obtains k where "k < N" and "idx m k = i"
proof -
  have "i \<in> idx m ` {..<N}" using assms unfolding topology_def by (metis lessThan_iff)
  with that show ?thesis by auto
qed

lemma topology_inj:
  assumes "topology N idx pl" and "m < N" and "k < N" and "l < N"
  shows "idx m k = idx m l \<longleftrightarrow> k = l"
proof -
  have "inj_on (idx m) {..<N}" using assms(1,2) unfolding topology_def by blast
  with assms(3,4) show ?thesis by (auto dest: inj_onD)
qed

lemma inv_stream:
  assumes "machine_ok N idx pl g m"
  shows "length (stream g m) = tics g m + (if swapping g m then 4 else 3)"
  using assms by (simp add: machine_ok_def Let_def stream_def)

lemma inv_link:
  assumes "game_inv N idx pl g" and "m < N" and "k < N" and "k \<noteq> m"
  shows "tics g m \<le> got idx g m k" and "got idx g m k \<le> length (stream g k)"
    and "length (stream g k) \<le> tics g m + 8"
    and "length (stream g k) \<le> tics g k + DELAY"
    and "got idx g m k \<le> unat (w_start (send_window (node_for idx g m k))) + DELAY"
    and "unat (w_start (send_window (node_for idx g m k))) \<le> got idx g k m"
proof -
  have links: "link_ok idx pl g m k" "link_ok idx pl g k m"
    and ms: "machine_ok N idx pl g m" "machine_ok N idx pl g k"
    using assms by (auto simp: game_inv_def)
  show "tics g m \<le> got idx g m k" by (simp add: got_def)
  show "got idx g m k \<le> length (stream g k)"
    "got idx g m k \<le> unat (w_start (send_window (node_for idx g m k))) + DELAY"
    "unat (w_start (send_window (node_for idx g m k))) \<le> got idx g k m"
    using links(1) by (auto simp: link_ok_def pair_ok_def got_def)
  have "tics g k \<le> got idx g k m" "got idx g k m \<le> length (stream g m)"
    using links(2) by (auto simp: link_ok_def pair_ok_def got_def)
  with inv_stream [OF ms(1)] inv_stream [OF ms(2)]
  show "length (stream g k) \<le> tics g m + 8" "length (stream g k) \<le> tics g k + DELAY"
    by (auto simp: DELAY_def split: if_splits)
qed

lemma stream_bound: "game_ok N g \<Longrightarrow> m < N \<Longrightarrow> length (stream g m) < 2 ^ 32"
  by (auto simp: game_ok_def stream_def)

lemma tics_in_streams:
  assumes "game_inv N idx pl g" and "m < N" and "k < N" and "t < tics g m"
  shows "t < length (stream g k)"
proof (cases "k = m")
  case True
  then show ?thesis using assms by (auto simp: inv_stream game_inv_def)
next
  case False
  with inv_link(1,2) [OF assms(1-3) False] assms(4) show ?thesis by simp
qed

lemma tic_vector_stable:
  assumes "\<And>k. k < N \<Longrightarrow> \<exists>xs. stream g' k = stream g k @ xs"
    and "\<And>k. k < N \<Longrightarrow> t < length (stream g k)"
  shows "tic_vector N pl g' t = tic_vector N pl g t"
proof -
  have "stream g' k ! t = stream g k ! t" if "k < N" for k
    using assms(1) [OF that] assms(2) [OF that] by (auto simp: nth_append)
  then have "(case find (\<lambda>k. pl k = p) [0..<N] of None \<Rightarrow> 0 | Some k \<Rightarrow> stream g' k ! t)
      = (case find (\<lambda>k. pl k = p) [0..<N] of None \<Rightarrow> 0 | Some k \<Rightarrow> stream g k ! t)" for p
    by (cases "find (\<lambda>k. pl k = p) [0..<N]") (simp_all, metis (no_types, lifting)
        atLeastLessThan_iff find_Some_iff nth_mem set_upt)
  then show ?thesis by (simp add: tic_vector_def)
qed

section \<open>One machine moves\<close>

text \<open>What every step of machine \<open>m\<close> leaves alone or only extends.\<close>

definition moves :: "nat \<Rightarrow> (nat \<Rightarrow> nat \<Rightarrow> nat) \<Rightarrow> nat \<Rightarrow> game \<Rightarrow> game \<Rightarrow> bool" where
  "moves N idx m g g' \<longleftrightarrow>
     (\<forall>x. x \<noteq> m \<longrightarrow> machines g' x = machines g x \<and> swapping g' x = swapping g x
        \<and> typed g' x = typed g x \<and> played g' x = played g x)
     \<and> (\<exists>xs. typed g' m = typed g m @ xs)
     \<and> set (sent (driver (machines g m))) \<subseteq> set (sent (driver (machines g' m)))
     \<and> (\<forall>y < N. y \<noteq> m \<longrightarrow> got idx g m y \<le> got idx g' m y)"

lemma moves_stream: "moves N idx m g g' \<Longrightarrow> \<exists>xs. stream g' k = stream g k @ xs"
  by (cases "k = m") (auto simp: moves_def stream_def)

lemma moves_deliverable:
  assumes "moves N idx m g g'" and "deliverable N idx g x a"
  shows "deliverable N idx g' x a"
proof -
  have "set (sent (driver (machines g k))) \<subseteq> set (sent (driver (machines g' k)))" for k
    using assms(1) by (cases "k = m") (auto simp: moves_def)
  with assms(2) show ?thesis unfolding deliverable_def by blast
qed

lemma moves_inv:
  assumes inv: "game_inv N idx pl g" and m: "m < N" and mv: "moves N idx m g g'"
    and self: "machine_ok N idx pl g' m"
    and links: "\<And>y. y < N \<Longrightarrow> y \<noteq> m \<Longrightarrow> link_ok idx pl g' m y"
  shows "game_inv N idx pl g'"
proof -
  have same: "machines g' x = machines g x" "swapping g' x = swapping g x" "typed g' x = typed g x"
      "played g' x = played g x" if "x \<noteq> m" for x
    using mv that by (auto simp: moves_def)
  have "machine_ok N idx pl g' x" if x: "x < N" "x \<noteq> m" for x
  proof -
    have "machine_ok N idx pl g x" using inv x by (simp add: game_inv_def)
    moreover have "tic_vector N pl g' t = tic_vector N pl g t" if "t < tics g x" for t
      using moves_stream [OF mv] tics_in_streams [OF inv x(1) _ that] by (intro tic_vector_stable) auto
    moreover have "stream g' x = stream g x" "tics g' x = tics g x"
      using same [OF x(2)] by (simp_all add: stream_def tics_def)
    ultimately show ?thesis
      using moves_deliverable [OF mv] same [OF x(2)] by (simp add: machine_ok_def Let_def)
  qed
  moreover have "link_ok idx pl g' x y" if xy: "x < N" "y < N" "y \<noteq> x" "x \<noteq> m" for x y
  proof (cases "y = m")
    case False
    with inv xy same [of x] same [of y] show ?thesis
      by (simp add: game_inv_def link_ok_def stream_def tics_def got_def node_for_def sent_to_def)
  next
    case True
    have "link_ok idx pl g x m" using inv xy m True by (simp add: game_inv_def)
    moreover obtain xs where "stream g' m = stream g m @ xs" using moves_stream [OF mv] by blast
    moreover have "got idx g m x \<le> got idx g' m x" using mv xy by (simp add: moves_def)
    ultimately show ?thesis
      using same [OF xy(4)] True
      by (auto simp: link_ok_def stream_def [of _ x] tics_def node_for_def sent_to_def
          intro!: pair_ok_other)
  qed
  ultimately show ?thesis
    using inv self links unfolding game_inv_def by metis
qed

section \<open>Quiet steps\<close>

text \<open>Steps that change no window and no counter, and send at most copies of the windows.\<close>

lemma quiet_inv:
  assumes inv: "game_inv N idx pl g" and ok: "game_ok N g" and m: "m < N"
    and wf: "wf_protocol p" and cnt: "counters p = counters (machines g m)"
    and view: "\<And>j. j < MAX_PLAYERS \<Longrightarrow> send_window (nodes p ! j) = send_window (nodes (machines g m) ! j)
      \<and> recv_window (nodes p ! j) = recv_window (nodes (machines g m) ! j)
      \<and> player (nodes p ! j) = player (nodes (machines g m) ! j)"
    and ans: "\<forall>a \<in> set (answers (driver p)). deliverable N idx g m a"
    and sent: "set (sent (driver p)) = set (sent (driver (machines g m)))
      \<or> (\<exists>i. set (sent (driver p)) = insert (int i, packet_for i (machines g m))
                (set (sent (driver (machines g m)))))"
  shows "game_inv N idx pl (set_machine m p g)"
proof (rule moves_inv [OF inv m])
  let ?g = "set_machine m p g"
  have top: "topology N idx pl" and mok: "machine_ok N idx pl g m"
    using inv m by (auto simp: game_inv_def)
  have frame: "stream ?g = stream g" "tics ?g = tics g" "swapping ?g = swapping g"
      "typed ?g = typed g" "played ?g = played g"
    by (auto simp: set_machine_def stream_def tics_def)
  have node: "send_window (node_for idx ?g m y) = send_window (node_for idx g m y)"
      "recv_window (node_for idx ?g m y) = recv_window (node_for idx g m y)"
      "player (node_for idx ?g m y) = player (node_for idx g m y)" if "y < N" for y
    using view [OF topology_idx(3) [OF top m that]] by (simp_all add: node_for_def set_machine_def)
  have got: "got idx ?g m y = got idx g m y" if "y < N" for y
    using node(2) [OF that] by (simp add: got_def frame)
  show mv: "moves N idx m g ?g"
    using sent got by (auto simp: moves_def set_machine_def)
  have "tic_vector N pl ?g t = tic_vector N pl g t" for t
    unfolding tic_vector_def frame ..
  moreover have "0 < MAX_PLAYERS" by (simp add: MAX_PLAYERS_def)
  ultimately show "machine_ok N idx pl ?g m"
    using mok wf cnt view [of 0] ans moves_deliverable [OF mv]
    by (auto simp: machine_ok_def Let_def frame counters_def) (auto simp: set_machine_def)
  fix y assume y: "y < N" "y \<noteq> m"
  have link: "link_ok idx pl g m y" using inv m y by (simp add: game_inv_def)
  have gotb: "got idx ?g y m = got idx g y m"
    using y by (simp add: got_def node_for_def set_machine_def tics_def)
  let ?S = "send_window (node_for idx g m y)" and ?R = "recv_window (node_for idx g m y)"
  let ?pk = "packet_bytes (w_start ?S) (w_start ?R + ucast (w_len ?R)) (of_nat (pl m)) (win_cmds ?S)"
  have pk: "packet_for (idx m y) (machines g m) = ?pk"
    using mok by (simp add: packet_for_def node_for_def machine_ok_def Let_def)
  have sub: "sent_to idx ?g m y \<subseteq> insert ?pk (sent_to idx g m y)"
    using sent unfolding pk [symmetric] by (auto simp: sent_to_def set_machine_def)
  have "pair_ok (stream g m) (tics g m) (stream g y) (got idx g y m) (pl m) ?S ?R
      (insert ?pk (sent_to idx g m y))"
    using link inv_link(4) [OF inv y(1) m] y stream_bound [OF ok y(1)]
    by (intro pair_ok_send) (auto simp: link_ok_def)
  with sub have "pair_ok (stream g m) (tics g m) (stream g y) (got idx g y m) (pl m) ?S ?R
      (sent_to idx ?g m y)"
    by (auto simp: pair_ok_def)
  with link show "link_ok idx pl ?g m y"
    by (simp add: link_ok_def frame gotb node [OF y(1)])
qed

section \<open>Receiving a packet\<close>

lemma ReceivePacket_bytes:
  assumes "wf_protocol s" and "k < MAX_PLAYERS" and "length cs \<le> MAX_DELAY" and "unat pn < MAX_PLAYERS"
    and "ans_bytes a = packet_bytes st ack pn cs"
  shows "ReceivePacket k (take_answer a as s) = Done ((take_answer a as s)
    \<lparr>nodes := (nodes s)[k := received st ack pn cs (nodes s ! k)]\<rparr>)"
proof -
  let ?s = "take_answer a as s"
  have D: "length (dc_data (doomcom s)) = DATA_SIZE"
    using assms(1) by (simp add: wf_protocol_def)
  have data: "dc_data (doomcom ?s) = overwrite (dc_data (doomcom s)) 0 (packet_bytes st ack pn cs)"
    "dc_datalength (doomcom ?s) = int (length (packet_bytes st ack pn cs))"
    by (simp_all only: take_answer_simps assms(5))
  have acc: "packet_accepted (doomcom ?s)"
    using assms(3) D assms(4) data by (rule packet_bytes_accepted)
  have wfk: "wf_node (nodes ?s ! k)" using wf_nth [OF assms(1,2)] by simp
  from ReceivePacket_accepted [OF acc wfk] show ?thesis
    unfolding data(1) load_packet_bytes [OF assms(3) D] by simp
qed

text \<open>Whether bytes are rejected does not depend on what the data area held before.\<close>

lemma packet_accepted_overwrite:
  assumes "length D = DATA_SIZE" and "length bs \<le> DATA_SIZE" and "dc_data dc = overwrite D 0 bs"
    and "dc_datalength dc = int (length bs)"
  shows "packet_accepted dc \<longleftrightarrow> 14 \<le> length bs
    \<and> of_le32 (slice 0 4 bs) = Crc32 (drop 4 bs) AND NCMD_CHECKSUM
    \<and> unat (bs ! 12) < MAX_PLAYERS \<and> unat (bs ! 13) \<le> MAX_DELAY"
proof (cases "14 \<le> length bs")
  case False
  then show ?thesis using assms(4) by (simp add: packet_accepted_def MIN_PACKET_LEN_def Let_def)
next
  case True
  have nth: "overwrite D 0 bs ! i = bs ! i" if "i < length bs" for i
    using that by (simp add: overwrite_def nth_append)
  have "nat (dc_datalength dc - 4) = length bs - 4" using True assms(4) by simp
  moreover have "take (length bs - 4) (drop 4 (overwrite D 0 bs)) = drop 4 bs"
    using True by (simp add: overwrite_def)
  ultimately have "Checksum dc = Crc32 (drop 4 bs) AND NCMD_CHECKSUM"
    by (simp only: Checksum_def assms(3))
  with True show ?thesis
    using assms(4)
    by (simp add: packet_accepted_def MIN_PACKET_LEN_def Let_def load_packet_def assms(3)
        slice_overwrite_0 nth)
qed

lemma garbled_rejected:
  assumes "garbled bs" and "length D = DATA_SIZE" and "length bs \<le> DATA_SIZE"
    and "dc_data dc = overwrite D 0 bs" and "dc_datalength dc = int (length bs)"
  shows "\<not> packet_accepted dc"
  using assms(1) unfolding garbled_def packet_accepted_overwrite [OF assms(2-5)]
  by (subst (asm) packet_accepted_overwrite [of "replicate DATA_SIZE 0" bs]) (simp_all add: assms(3))

text \<open>A packet that waits at a machine: where it comes from.\<close>

lemma waiting_answer:
  assumes inv: "game_inv N idx pl g" and m: "m < N"
    and next_answer: "answers (driver (machines g m)) = a # as" and node: "ans_node a \<noteq> -1"
  obtains k where "k < N" and "k \<noteq> m" and "nat (ans_node a) = idx m k"
    and "ans_bytes a \<in> sent_to idx g k m \<or> garbled (ans_bytes a)" and "length (ans_bytes a) \<le> DATA_SIZE"
    and "\<forall>a \<in> set as. deliverable N idx g m a"
proof -
  have "machine_ok N idx pl g m" using inv m by (simp add: game_inv_def)
  then have "\<forall>a \<in> set (answers (driver (machines g m))). deliverable N idx g m a"
    by (simp add: machine_ok_def Let_def)
  then have del: "deliverable N idx g m a" "\<forall>a \<in> set as. deliverable N idx g m a" using next_answer by auto
  then obtain k where "k < N" "k \<noteq> m" "ans_node a = int (idx m k)" "length (ans_bytes a) \<le> DATA_SIZE"
      "ans_bytes a \<in> sent_to idx g k m \<or> garbled (ans_bytes a)"
    using node by (auto simp: deliverable_def sent_to_def)
  with that del(2) show thesis by simp
qed

text \<open>A garbled packet changes nothing.\<close>

lemma receive_garbled_inv:
  assumes inv: "game_inv N idx pl g" and ok: "game_ok N g" and m: "m < N"
    and garbled: "garbled (ans_bytes a)" and len: "length (ans_bytes a) \<le> DATA_SIZE"
    and rest: "\<forall>a \<in> set as. deliverable N idx g m a"
    and rcv: "ReceivePacket i (take_answer a as (machines g m)) = Done p"
  shows "game_inv N idx pl (set_machine m p g)"
proof -
  have wf: "wf_protocol (machines g m)" using inv m by (simp add: game_inv_def machine_ok_def Let_def)
  have "\<not> packet_accepted (doomcom (take_answer a as (machines g m)))"
    using wf len garbled by (intro garbled_rejected) (auto simp: wf_protocol_def)
  then have p: "p = take_answer a as (machines g m)" using rcv by (simp add: ReceivePacket_rejected)
  have cnt: "counters p = counters (machines g m)" by (simp add: p counters_def)
  have "wf_protocol p" unfolding p using wf len by (rule take_answer_wf)
  then show ?thesis
    by (rule quiet_inv [OF inv ok m _ cnt]) (simp_all add: p rest)
qed

text \<open>What a packet from machine \<open>k\<close> makes of the node for it.\<close>

lemma receive_link:
  assumes inv: "game_inv N idx pl g" and ok: "game_ok N g" and m: "m < N" and k: "k < N" "k \<noteq> m"
    and wf: "wf_protocol (take_answer a as (machines g m))"
    and packet: "ans_bytes a \<in> sent_to idx g k m"
    and rcv: "ReceivePacket (idx m k) (take_answer a as (machines g m)) = Done p"
  obtains n' where "wf_protocol p"
    and "p = (take_answer a as (machines g m))\<lparr>nodes := (nodes (machines g m))[idx m k := n']\<rparr>"
    and "pair_ok (stream g m) (tics g m) (stream g k) (got idx g k m) (pl m)
        (send_window n') (recv_window n') (sent_to idx g m k)"
    and "unat (w_len (recv_window (node_for idx g m k))) \<le> unat (w_len (recv_window n'))"
    and "player n' = int (pl k) \<or> player n' = player (node_for idx g m k)"
proof -
  let ?s = "machines g m" and ?n = "node_for idx g m k"
  have top: "topology N idx pl" and links: "link_ok idx pl g m k" "link_ok idx pl g k m"
    using inv m k by (auto simp: game_inv_def)
  have wf_s: "wf_protocol ?s" using inv m by (simp add: game_inv_def machine_ok_def Let_def)
  note i = topology_idx(3) [OF top m k(1)]
  have pl: "pl k < MAX_PLAYERS" using top k(1) by (simp add: topology_def)
  have h1: "pair_ok (stream g m) (tics g m) (stream g k) (got idx g k m) (pl m)
      (send_window ?n) (recv_window ?n) (sent_to idx g m k)"
    using links(1) by (simp add: link_ok_def)
  have h2: "packet_ok (stream g k) (tics g m + unat (w_len (recv_window ?n))) (got idx g k m) (pl k) (ans_bytes a)"
    using links(2) packet by (auto simp: link_ok_def pair_ok_def got_def)
  have h3: "got idx g k m \<le> length (stream g m)" "length (stream g k) \<le> tics g m + MAX_DELAY"
    using inv_link(2) [OF inv k(1) m] inv_link(3) [OF inv m k(1)] k(2) by (auto simp: MAX_DELAY_def)
  show thesis
  proof (rule pair_ok_receive [OF h1 h2 stream_bound [OF ok m] stream_bound [OF ok k(1)] h3 pl])
    fix st ack cs
    let ?n' = "received st ack (of_nat (pl k)) cs ?n"
    assume b: "ans_bytes a = packet_bytes st ack (of_nat (pl k)) cs" "length cs \<le> MAX_DELAY"
      and new: "pair_ok (stream g m) (tics g m) (stream g k) (got idx g k m) (pl m)
         (send_window ?n') (recv_window ?n') (sent_to idx g m k)"
        "unat (w_len (recv_window ?n)) \<le> unat (w_len (recv_window ?n'))"
        "player ?n' = int (pl k) \<or> player ?n' = player ?n"
    have "unat (of_nat (pl k) :: u8) < MAX_PLAYERS" using pl by (simp add: MAX_PLAYERS_def)
    then have p: "p = (take_answer a as ?s)\<lparr>nodes := (nodes ?s)[idx m k := ?n']\<rparr>"
      using ReceivePacket_bytes [OF wf_s i b(2) _ b(1)] rcv by (simp add: node_for_def)
    have "wf_protocol p" using ReceivePacket_total [OF wf i] rcv by auto
    from that [OF this p new] show thesis .
  qed
qed

lemma receive_sent_inv:
  assumes inv: "game_inv N idx pl g" and ok: "game_ok N g" and m: "m < N" and k: "k < N" "k \<noteq> m"
    and rest: "\<forall>a \<in> set as. deliverable N idx g m a"
    and wf: "wf_protocol (take_answer a as (machines g m))"
    and packet: "ans_bytes a \<in> sent_to idx g k m"
    and rcv: "ReceivePacket (idx m k) (take_answer a as (machines g m)) = Done p"
  shows "game_inv N idx pl (set_machine m p g)"
proof (rule receive_link [OF inv ok m k wf packet rcv])
  fix n'
  let ?g = "set_machine m p g" and ?s = "machines g m"
  assume wfp: "wf_protocol p" and p: "p = (take_answer a as ?s)\<lparr>nodes := (nodes ?s)[idx m k := n']\<rparr>"
    and new: "pair_ok (stream g m) (tics g m) (stream g k) (got idx g k m) (pl m)
        (send_window n') (recv_window n') (sent_to idx g m k)"
    and longer: "unat (w_len (recv_window (node_for idx g m k))) \<le> unat (w_len (recv_window n'))"
    and player: "player n' = int (pl k) \<or> player n' = player (node_for idx g m k)"
  have top: "topology N idx pl" and mok: "machine_ok N idx pl g m" using inv m by (auto simp: game_inv_def)
  have frame: "stream ?g = stream g" "tics ?g = tics g" "swapping ?g = swapping g" "typed ?g = typed g"
      "played ?g = played g"
    by (auto simp: set_machine_def stream_def tics_def)
  have "idx m k < length (nodes ?s)"
    using topology_idx(3) [OF top m k(1)] mok by (simp add: machine_ok_def Let_def wf_protocol_def)
  then have node_k: "node_for idx ?g m k = n'" by (simp add: node_for_def set_machine_def p)
  have node_y: "node_for idx ?g m y = node_for idx g m y" if "y < N" "y \<noteq> k" for y
    using topology_inj [OF top m that(1) k(1)] that(2) by (simp add: node_for_def set_machine_def p)
  have node_0: "nodes p ! 0 = nodes ?s ! 0" using topology_idx(2) [OF top m k(1)] k(2) by (simp add: p)
  have "got idx g m y \<le> got idx ?g m y" if "y < N" for y
    using node_k node_y [OF that] longer by (cases "y = k") (auto simp: got_def frame)
  moreover have sent: "sent (driver p) = sent (driver ?s)" by (simp add: p)
  ultimately have mv: "moves N idx m g ?g" by (auto simp: moves_def set_machine_def)
  have gotb: "got idx ?g y m = got idx g y m" if "y \<noteq> m" for y
    using that by (simp add: got_def node_for_def set_machine_def tics_def)
  have tv: "tic_vector N pl ?g t = tic_vector N pl g t" for t unfolding tic_vector_def frame ..
  show ?thesis
  proof (rule moves_inv [OF inv m mv])
    show "machine_ok N idx pl ?g m"
      using mok wfp node_0 rest moves_deliverable [OF mv]
      by (auto simp: machine_ok_def Let_def frame tv) (auto simp: set_machine_def p)
    fix y assume y: "y < N" "y \<noteq> m"
    have link: "link_ok idx pl g m y" using inv m y by (simp add: game_inv_def)
    have st: "sent_to idx ?g m y = sent_to idx g m y" using sent by (simp add: sent_to_def set_machine_def)
    show "link_ok idx pl ?g m y"
    proof (cases "y = k")
      case True
      show ?thesis using new player link k(2) st unfolding True by (auto simp: link_ok_def frame gotb node_k)
    qed (use link y in \<open>simp add: link_ok_def frame gotb st node_y\<close>)
  qed
qed

lemma receive_inv:
  assumes inv: "game_inv N idx pl g" and ok: "game_ok N g" and m: "m < N"
    and next_answer: "answers (driver (machines g m)) = a # as" and node: "ans_node a \<noteq> -1"
    and rcv: "ReceivePacket (nat (ans_node a)) (take_answer a as (machines g m)) = Done p"
  shows "game_inv N idx pl (set_machine m p g)"
proof (rule waiting_answer [OF inv m next_answer node])
  fix k
  assume k: "k < N" "k \<noteq> m" "nat (ans_node a) = idx m k"
    and packet: "ans_bytes a \<in> sent_to idx g k m \<or> garbled (ans_bytes a)"
    and len: "length (ans_bytes a) \<le> DATA_SIZE" and rest: "\<forall>a \<in> set as. deliverable N idx g m a"
  have "wf_protocol (machines g m)" using inv m by (simp add: game_inv_def machine_ok_def Let_def)
  then have wf: "wf_protocol (take_answer a as (machines g m))" using len by (rule take_answer_wf)
  from packet show ?thesis
  proof
    assume "garbled (ans_bytes a)"
    then show ?thesis using receive_garbled_inv [OF inv ok m _ len rest] rcv by blast
  qed (use receive_sent_inv [OF inv ok m k(1,2) rest wf] rcv k(3) in simp)
qed

end
