(* ===== verification/Game_Invariant.thy ===== *)
theory Game_Invariant
  imports Game
begin

text \<open>
  Every step of the game keeps the invariant of theory \<^verbatim>\<open>Game\<close>: the quiet
  steps, the beginning of \<^verbatim>\<open>SwapCommand\<close>, which extends the stream of the
  machine and all its outgoing windows by one command, and its end, which plays a tic.
\<close>

section \<open>Every step keeps the invariant\<close>

lemma inv_machine: "game_inv N idx pl g \<Longrightarrow> m < N \<Longrightarrow> machine_ok N idx pl g m"
  by (simp add: game_inv_def)

lemma machine_wf: "machine_ok N idx pl g m \<Longrightarrow> wf_protocol (machines g m)"
  by (simp add: machine_ok_def Let_def)

lemma machine_answers:
  "machine_ok N idx pl g m \<Longrightarrow> a \<in> set (answers (driver (machines g m))) \<Longrightarrow> deliverable N idx g m a"
  by (simp add: machine_ok_def Let_def)

lemma deliverable_length: "deliverable N idx g m a \<Longrightarrow> length (ans_bytes a) \<le> DATA_SIZE"
  by (simp add: deliverable_def)

lemma input_inv:
  assumes "game_inv N idx pl g" and "game_ok N g" and m: "m < N"
    and "\<forall>a \<in> set as. deliverable N idx g m a"
  shows "game_inv N idx pl (set_machine m ((machines g m)
    \<lparr>driver := (driver (machines g m))\<lparr>answers := as\<rparr>, clock := c\<rparr>) g)"
  using assms machine_wf [OF inv_machine [OF assms(1) m]]
  by (intro quiet_inv) (auto simp: wf_protocol_def counters_def)

lemma no_packet_inv:
  assumes "game_inv N idx pl g" and "game_ok N g" and m: "m < N"
    and "answers (driver (machines g m)) = []"
  shows "game_inv N idx pl (set_machine m (no_packet (machines g m)) g)"
  using assms machine_wf [OF inv_machine [OF assms(1) m]]
  by (intro quiet_inv) (auto simp: wf_protocol_def counters_def)

lemma skip_answer_inv:
  assumes inv: "game_inv N idx pl g" and "game_ok N g" and m: "m < N"
    and "answers (driver (machines g m)) = a # as"
  shows "game_inv N idx pl (set_machine m (take_answer a as (machines g m)) g)"
proof -
  note mok = inv_machine [OF inv m]
  have "length (ans_bytes a) \<le> DATA_SIZE"
    using deliverable_length [OF machine_answers [OF mok]] assms(4) by simp
  with machine_wf [OF mok] have "wf_protocol (take_answer a as (machines g m))"
    by (rule take_answer_wf)
  then show ?thesis
    using assms(4) machine_answers [OF mok]
    by (intro quiet_inv [OF assms(1-3)]) (auto simp: counters_def)
qed

lemma read_clock_inv:
  assumes "game_inv N idx pl g" and "game_ok N g" and m: "m < N"
  shows "game_inv N idx pl (set_machine m ((machines g m)\<lparr>clock_calls := k\<rparr>) g)"
  using assms machine_wf [OF inv_machine [OF assms(1) m]] machine_answers [OF inv_machine [OF assms(1) m]]
  by (intro quiet_inv) (auto simp: wf_protocol_def counters_def)

lemma resend_inv:
  assumes inv: "game_inv N idx pl g" and ok: "game_ok N g" and m: "m < N"
    and i: "i < N" and send: "SendPacket i (machines g m) = Done p"
  shows "game_inv N idx pl (set_machine m p g)"
proof -
  note mok = inv_machine [OF inv m]
  have wf: "wf_protocol (machines g m)" and top: "topology N idx pl"
    using mok inv by (auto intro: machine_wf simp: game_inv_def)
  have iP: "i < MAX_PLAYERS" using top i by (simp add: topology_def)
  obtain dc where "SendPacket i (machines g m) = Done (sent_state i dc (machines g m))"
    using SendPacket_eq [of "machines g m" i] wf_nth [OF wf iP] wf
    by (auto simp: wf_node_def wf_protocol_def)
  with send have p: "p = sent_state i dc (machines g m)" by simp
  have "wf_protocol p" using SendPacket_total [OF wf iP] send by auto
  moreover have "i < length (nodes (machines g m))" using wf iP by (simp add: wf_protocol_def)
  ultimately show ?thesis
    using counters_SendPacket [OF send] machine_answers [OF mok]
    by (intro quiet_inv [OF inv ok m]) (auto simp: p sent_state_def nth_list_update)
qed


lemma own_window:
  assumes "machine_ok N idx pl g m"
  defines "r \<equiv> recv_window (nodes (machines g m) ! 0)"
  shows "unat (w_start r) = tics g m"
    and "swapping g m \<Longrightarrow> unat (w_len r) = 4 \<and> win_cmds r = drop (tics g m) (stream g m)"
    and "\<not> swapping g m \<Longrightarrow> unat (w_len r) < 4 \<and> take 3 (w_cmds r) = drop (tics g m) (stream g m)"
  using assms(1) inv_stream [OF assms(1)]
  by (auto simp: machine_ok_def Let_def r_def win_cmds_def)

lemma peer_length:
  assumes inv: "game_inv N idx pl g" and m: "m < N" and idle: "\<not> swapping g m" and y: "y < N" "y \<noteq> m"
  shows "new_length (idx m y) (machines g m) = Suc (unat (w_len (send_window (node_for idx g m y))))"
    and "new_length (idx m y) (machines g m) \<le> 8"
    and "out_window (idx m y) (machines g m) = send_window (node_for idx g m y)"
proof -
  let ?S = "send_window (node_for idx g m y)"
  note mok = inv_machine [OF inv m]
  have top: "topology N idx pl" using inv by (simp add: game_inv_def)
  have str: "length (stream g m) = tics g m + 3" using inv_stream [OF mok] idle by simp
  have mt: "unat (maketic (machines g m)) = tics g m + 4" using mok by (simp add: machine_ok_def Let_def DELAY_def)
  have po: "pair_ok (stream g m) (tics g m) (stream g y) (got idx g y m) (pl m)
      ?S (recv_window (node_for idx g m y)) (sent_to idx g m y)"
    using inv m y by (simp add: game_inv_def link_ok_def)
  have "unat (w_start ?S) + unat (w_len ?S) = tics g m + 3" using po str by (simp add: pair_ok_def)
  moreover show out: "out_window (idx m y) (machines g m) = ?S"
    using topology_idx(2) [OF top m y(1)] y(2) by (simp add: out_window_def node_for_def)
  ultimately show len: "new_length (idx m y) (machines g m) = Suc (unat (w_len ?S))"
    using mt by (simp add: new_length_def unat_sub_small)
  have "length (stream g m) < tics g m + DELAY" using str by (simp add: DELAY_def)
  then show "new_length (idx m y) (machines g m) \<le> 8" using pair_ok_register(2) [OF po] len by metis
qed

lemma register_lengths:
  assumes inv: "game_inv N idx pl g" and ok: "game_ok N g" and m: "m < N" and idle: "\<not> swapping g m"
  shows "new_length 0 (machines g m) = 4"
    and "y < N \<Longrightarrow> y \<noteq> m \<Longrightarrow> new_length (idx m y) (machines g m)
      = Suc (unat (w_len (send_window (node_for idx g m y))))"
    and "i < N \<Longrightarrow> unat (w_len (out_window i (machines g m))) < new_length i (machines g m)"
    and "i < N \<Longrightarrow> new_length i (machines g m) \<le> 8"
proof -
  define s where "s = machines g m"
  note mok = inv_machine [OF inv m]
  have top: "topology N idx pl" using inv by (simp add: game_inv_def)
  have mt: "unat (maketic s) = tics g m + 4"
    using mok by (simp add: machine_ok_def Let_def s_def DELAY_def)
  have str: "length (stream g m) = tics g m + 3" using inv_stream [OF mok] idle by simp
  note own = own_window [OF mok, folded s_def]
  have zero: "new_length 0 s = 4"
    using own(1) mt by (simp add: new_length_def out_window_def unat_sub_small)
  then show "new_length 0 (machines g m) = 4" by (simp add: s_def)
  note peer = peer_length [OF inv m idle, folded s_def]
  show "y < N \<Longrightarrow> y \<noteq> m \<Longrightarrow> new_length (idx m y) (machines g m)
      = Suc (unat (w_len (send_window (node_for idx g m y))))"
    using peer by (simp add: s_def)
  assume i: "i < N"
  show "unat (w_len (out_window i (machines g m))) < new_length i (machines g m)"
    "new_length i (machines g m) \<le> 8"
  proof -
    obtain k where k: "k < N" "idx m k = i" using topology_surj [OF top m i] by blast
    have "unat (w_len (out_window i s)) < new_length i s \<and> new_length i s \<le> 8"
    proof (cases "k = m")
      case True
      then have "i = 0" using topology_idx(2) [OF top m k(1)] k(2) by simp
      then show ?thesis using zero own(3) idle by (simp add: out_window_def)
    next
      case False
      with peer [OF k(1)] k(2) show ?thesis by auto
    qed
    then show "unat (w_len (out_window i (machines g m))) < new_length i (machines g m)"
      "new_length i (machines g m) \<le> 8" by (simp_all add: s_def)
  qed
qed

text \<open>The link to another machine after a command has been registered and sent.\<close>

lemma register_link:
  fixes cmd :: u16
  assumes inv: "game_inv N idx pl g" and ok: "game_ok N g" and m: "m < N" and idle: "\<not> swapping g m"
    and y: "y < N" "y \<noteq> m"
  defines "S \<equiv> send_window (node_for idx g m y)" and "R \<equiv> recv_window (node_for idx g m y)"
  defines "S' \<equiv> pushed cmd (Suc (unat (w_len S))) S"
  shows "pair_ok (stream g m @ [cmd]) (tics g m) (stream g y) (got idx g y m) (pl m) S' R
    (insert (packet_bytes (w_start S') (w_start R + ucast (w_len R)) (of_nat (pl m)) (win_cmds S')) (sent_to idx g m y))"
proof -
  have str: "length (stream g m) = tics g m + 3" using inv_stream [OF inv_machine [OF inv m]] idle by simp
  have "link_ok idx pl g m y" using inv m y by (simp add: game_inv_def)
  then have "pair_ok (stream g m @ [cmd]) (tics g m) (stream g y) (got idx g y m) (pl m) S' R (sent_to idx g m y)"
    unfolding S'_def S_def R_def using str by (intro pair_ok_register) (auto simp: link_ok_def DELAY_def)
  then show ?thesis
    using str stream_bound [OF ok y(1)] by (intro pair_ok_send) (auto simp: DELAY_def)
qed

text \<open>The state after the beginning of a call.\<close>

definition begun :: "nat \<Rightarrow> u16 \<Rightarrow> protocol \<Rightarrow> game \<Rightarrow> game" where
  "begun m cmd p g = (set_machine m p g)
      \<lparr>swapping := (swapping g)(m := True), typed := (typed g)(m := typed g m @ [cmd])\<rparr>"

lemma begun_simps:
  "machines (begun m cmd p g) = (machines g)(m := p)" "tics (begun m cmd p g) = tics g"
  "stream (begun m cmd p g) y = (if y = m then stream g m @ [cmd] else stream g y)"
  "swapping (begun m cmd p g) = (swapping g)(m := True)" "typed (begun m cmd p g) m = typed g m @ [cmd]"
  "played (begun m cmd p g) = played g"
  by (auto simp: begun_def set_machine_def stream_def tics_def)

lemma swap_begin_parts:
  assumes inv: "game_inv N idx pl g" and ok: "game_ok N g" and m: "m < N"
    and idle: "\<not> swapping g m" and reg: "swap_register cmd (machines g m) = Done p"
  shows "wf_protocol p" and "counters p = counters (machines g m)"
    and "answers (driver p) = answers (driver (machines g m))"
    and "sent (driver p) = sent (driver (machines g m)) @ map (\<lambda>i. (int i, packet_for i p)) [1..<N]"
    and "recv_window (nodes p ! 0) = pushed cmd 4 (recv_window (nodes (machines g m) ! 0))"
    and "player (nodes p ! 0) = player (nodes (machines g m) ! 0)"
    and "\<And>y. y < N \<Longrightarrow> y \<noteq> m \<Longrightarrow> let n = node_for idx g m y; n' = node_for idx (begun m cmd p g) m y in
      recv_window n' = recv_window n \<and> player n' = player n
      \<and> send_window n' = pushed cmd (Suc (unat (w_len (send_window n)))) (send_window n)"
proof -
  define s where "s = machines g m"
  note mok = inv_machine [OF inv m]
  have wf: "wf_protocol s" and top: "topology N idx pl" and N: "num_nodes s = N"
    using mok inv by (auto simp: game_inv_def machine_ok_def Let_def s_def)
  note lens = register_lengths [OF inv ok m idle, folded s_def]
  have "new_length i s \<le> MAX_DELAY" if "i < N" for i
    using lens(4) [OF that] by (simp add: MAX_DELAY_def)
  with register_upto [OF wf order_refl, of cmd] lens(3) N reg
  have res: "wf_protocol p" "counters p = counters s" "answers (driver p) = answers (driver s)"
      "sent (driver p) = sent (driver s) @ map (\<lambda>i. (int i, packet_for i p)) [1..<N]"
    and view: "\<And>j. j < MAX_PLAYERS \<Longrightarrow> player (nodes p ! j) = player (nodes s ! j)
       \<and> recv_window (nodes p ! j) =
           (if j = 0 then pushed cmd 4 (recv_window (nodes s ! 0)) else recv_window (nodes s ! j))
       \<and> send_window (nodes p ! j) =
           (if 0 < j \<and> j < N then pushed cmd (new_length j s) (send_window (nodes s ! j))
            else send_window (nodes s ! j))"
    using top m by (auto simp: swap_register_def s_def [symmetric] lens(1))
  from res view [of 0]
  show "wf_protocol p" "counters p = counters (machines g m)"
    "answers (driver p) = answers (driver (machines g m))"
    "sent (driver p) = sent (driver (machines g m)) @ map (\<lambda>i. (int i, packet_for i p)) [1..<N]"
    "recv_window (nodes p ! 0) = pushed cmd 4 (recv_window (nodes (machines g m) ! 0))"
    "player (nodes p ! 0) = player (nodes (machines g m) ! 0)"
    by (simp_all add: s_def MAX_PLAYERS_def)
  fix y assume y: "y < N" "y \<noteq> m"
  show "let n = node_for idx g m y; n' = node_for idx (begun m cmd p g) m y in
      recv_window n' = recv_window n \<and> player n' = player n
      \<and> send_window n' = pushed cmd (Suc (unat (w_len (send_window n)))) (send_window n)"
    using view [OF topology_idx(3) [OF top m y(1)]] topology_idx(1,2) [OF top m y(1)] lens(2) [OF y] y(2)
    by (simp add: node_for_def begun_simps s_def Let_def)
qed

lemma swap_begin_moves:
  assumes inv: "game_inv N idx pl g" and ok: "game_ok N g" and m: "m < N"
    and idle: "\<not> swapping g m" and reg: "swap_register cmd (machines g m) = Done p"
  shows "moves N idx m g (begun m cmd p g)"
  using swap_begin_parts [OF assms]
  by (auto simp: moves_def got_def begun_simps Let_def) (auto simp: begun_def set_machine_def)

lemma swap_begin_machine:
  assumes inv: "game_inv N idx pl g" and ok: "game_ok N g" and m: "m < N"
    and idle: "\<not> swapping g m" and reg: "swap_register cmd (machines g m) = Done p"
  shows "machine_ok N idx pl (begun m cmd p g) m"
proof -
  define s where "s = machines g m"
  note mok = inv_machine [OF inv m]
  note parts = swap_begin_parts [OF assms, folded s_def] and mv = swap_begin_moves [OF assms]
  note own = own_window [OF mok, folded s_def]
  have wf: "wf_protocol s" "num_nodes s = N" using mok by (auto simp: machine_ok_def Let_def s_def)
  have str: "length (stream g m) = tics g m + 3" using inv_stream [OF mok] idle by simp
  have tv: "tic_vector N pl (begun m cmd p g) t = tic_vector N pl g t" if "t < tics g m" for t
    using moves_stream [OF mv] tics_in_streams [OF inv m _ that] by (intro tic_vector_stable) auto
  have len_own: "length (w_cmds (recv_window (nodes s ! 0))) = 16"
    using wf_nth [OF wf(1), of 0] by (simp add: wf_node_def wf_window_def MAX_DELAY_def MAX_PLAYERS_def)
  have "take 4 (w_cmds (pushed cmd 4 (recv_window (nodes s ! 0)))) = drop (tics g m) (stream g m @ [cmd])"
    using own(3) [OF idle] len_own str by (simp add: pushed_def take_Suc_conv_app_nth numeral_eq_Suc)
  moreover have "unat (w_start (pushed cmd 4 (recv_window (nodes s ! 0)))) = tics g m"
      "unat (w_len (pushed cmd 4 (recv_window (nodes s ! 0)))) = 4"
    using own(1) by (simp_all add: pushed_def)
  moreover have "gametic p = gametic s" "maketic p = maketic s" "num_nodes p = N"
      "consoleplayer p = consoleplayer s"
    using parts(2) wf(2) by (simp_all add: counters_def)
  moreover have "deliverable N idx (begun m cmd p g) m a" if "a \<in> set (answers (driver p))" for a
    using moves_deliverable [OF mv] machine_answers [OF mok] that parts(3) by (simp add: s_def)
  moreover have "player (nodes s ! 0) = int (pl m)" "consoleplayer s = pl m" "unat (gametic s) = tics g m"
      "unat (maketic s) = tics g m + DELAY" "length (typed g m) = tics g m"
      "\<forall>t < tics g m. played g m ! t = tic_vector N pl g t"
    using mok idle by (simp_all add: machine_ok_def Let_def s_def)
  ultimately show ?thesis
    using parts(1,5,6) str tv unfolding machine_ok_def Let_def begun_simps by simp
qed

lemma swap_begin_link:
  assumes inv: "game_inv N idx pl g" and ok: "game_ok N g" and m: "m < N"
    and idle: "\<not> swapping g m" and reg: "swap_register cmd (machines g m) = Done p"
    and y: "y < N" "y \<noteq> m"
  shows "link_ok idx pl (begun m cmd p g) m y"
proof -
  let ?g = "begun m cmd p g"
  let ?S = "send_window (node_for idx g m y)" and ?R = "recv_window (node_for idx g m y)"
  let ?S' = "pushed cmd (Suc (unat (w_len ?S))) ?S"
  note parts = swap_begin_parts [OF assms(1-5)]
  have node: "recv_window (node_for idx ?g m y) = ?R" "send_window (node_for idx ?g m y) = ?S'"
      "player (node_for idx ?g m y) = player (node_for idx g m y)"
    using parts(7) [OF y] by (simp_all add: Let_def)
  have link: "link_ok idx pl g m y" and top: "topology N idx pl" using inv m y by (simp_all add: game_inv_def)
  have "player (nodes p ! 0) = int (pl m)"
    using inv_machine [OF inv m] parts(6) by (simp add: machine_ok_def Let_def)
  moreover have "nodes p ! idx m y = node_for idx ?g m y" by (simp add: node_for_def begun_simps)
  ultimately have "packet_for (idx m y) p
      = packet_bytes (w_start ?S') (w_start ?R + ucast (w_len ?R)) (of_nat (pl m)) (win_cmds ?S')"
    by (simp add: packet_for_def node Let_def)
  moreover have "sent_to idx ?g m y = insert (packet_for (idx m y) p) (sent_to idx g m y)"
    using topology_idx(1,2) [OF top m y(1)] y(2) parts(4) by (auto simp: sent_to_def begun_simps)
  moreover have "got idx ?g y m = got idx g y m"
    using y by (simp add: got_def node_for_def begun_simps)
  ultimately show ?thesis
    using link register_link [OF assms(1-4) y, of cmd] y unfolding link_ok_def node begun_simps by simp
qed

lemma swap_begin_inv:
  assumes "game_inv N idx pl g" and "game_ok N g" and "m < N"
    and "\<not> swapping g m" and "swap_register cmd (machines g m) = Done p"
  shows "game_inv N idx pl ((set_machine m p g)
      \<lparr>swapping := (swapping g)(m := True), typed := (typed g)(m := typed g m @ [cmd])\<rparr>)"
  unfolding begun_def [symmetric]
  by (rule moves_inv [OF assms(1,3) swap_begin_moves [OF assms] swap_begin_machine [OF assms]])
    (rule swap_begin_link [OF assms])

text \<open>What the loop that fills \<^verbatim>\<open>cmds[]\<close> stores for a player.\<close>

lemma fold_update_unused:
  "\<forall>i \<in> set is. f i \<noteq> p \<Longrightarrow> fold (\<lambda>i cs. cs[f i := c i]) is xs ! p = xs ! p"
  by (induction "is" arbitrary: xs) auto

lemma fold_update_used:
  assumes "i \<in> set is" and "f i = p" and "\<forall>j \<in> set is. f j = p \<longrightarrow> c j = v" and "p < length xs"
  shows "fold (\<lambda>i cs. cs[f i := c i]) is xs ! p = v"
  using assms
proof (induction "is" arbitrary: i rule: rev_induct)
  case (snoc j "is")
  have len: "length (fold (\<lambda>i cs. cs[f i := c i]) is xs) = length xs"
    by (induction "is" arbitrary: xs) auto
  show ?case
  proof (cases "f j = p")
    case True
    then show ?thesis using snoc.prems len by simp
  next
    case False
    with snoc.prems have "i \<in> set is" by auto
    with snoc.IH [OF this] snoc.prems False show ?thesis by simp
  qed
qed simp

text \<open>In the node of machine \<open>k\<close>, the first command that machine \<open>m\<close> has received is that of the tic.\<close>

lemma ready_node:
  assumes inv: "game_inv N idx pl g" and ok: "game_ok N g" and m: "m < N" and k: "k < N"
    and ready: "NewTicReady (machines g m)" and busy: "swapping g m"
  defines "n \<equiv> nodes (machines g m) ! idx m k"
  shows "player n = int (pl k) \<and> w_cmds (recv_window n) ! 0 = stream g k ! tics g m"
proof -
  define s where "s = machines g m"
  note mok = inv_machine [OF inv m]
  have wf: "wf_protocol s" and top: "topology N idx pl" and N: "num_nodes s = N"
    using mok inv by (auto simp: game_inv_def machine_ok_def Let_def s_def)
  have n: "n = nodes s ! idx m k" by (simp add: n_def s_def)
  show ?thesis
  proof (cases "k = m")
    case True
    then have z: "idx m k = 0" using topology_idx(2) [OF top m k] by simp
    have "win_cmds (recv_window (nodes s ! 0)) = drop (tics g m) (stream g m)"
      and len: "unat (w_len (recv_window (nodes s ! 0))) = 4"
      using own_window(2) [OF mok busy] by (auto simp: s_def)
    then have "win_cmds (recv_window (nodes s ! 0)) ! 0 = stream g m ! tics g m"
      using inv_stream [OF mok] busy by simp
    then show ?thesis
      using mok z True len by (simp add: n machine_ok_def Let_def s_def win_cmds_def)
  next
    case False
    have link: "link_ok idx pl g m k" using inv m k False by (simp add: game_inv_def)
    have node_k: "node_for idx g m k = n" by (simp add: node_for_def n_def)
    have pos: "0 < w_len (recv_window n)"
      using ready topology_idx(1) [OF top m k] N by (simp add: NewTicReady_iff n s_def)
    then have "player n \<noteq> -1"
      using wf_nth [OF wf topology_idx(3) [OF top m k]] by (simp add: wf_node_def n)
    moreover have "w_cmds (recv_window n) ! 0 = stream g k ! tics g m"
      using pair_ok_pop(4) [of "stream g m" "tics g m" "stream g k"] link pos stream_bound [OF ok k]
      unfolding link_ok_def node_k by blast
    ultimately show ?thesis using link by (auto simp: link_ok_def node_k)
  qed
qed

lemma tic_cmds_entry:
  assumes inv: "game_inv N idx pl g" and ok: "game_ok N g" and m: "m < N"
    and ready: "NewTicReady (machines g m)" and busy: "swapping g m" and p: "p < MAX_PLAYERS"
  shows "tic_cmds [0..<N] (machines g m) ! p = (case find (\<lambda>k. pl k = p) [0..<N] of
      None \<Rightarrow> 0 | Some k \<Rightarrow> stream g k ! tics g m)"
proof -
  define s where "s = machines g m"
  define c where "c = (\<lambda>i. w_cmds (recv_window (nodes s ! i)) ! 0)"
  let ?fill = "fold (\<lambda>i cs. cs[nat (player (nodes s ! i)) := c i]) [0..<N]"
  have top: "topology N idx pl" using inv by (simp add: game_inv_def)
  have node: "player (nodes s ! idx m k) = int (pl k) \<and> c (idx m k) = stream g k ! tics g m"
    if k: "k < N" for k
    using ready_node [OF inv ok m k ready busy] by (simp add: c_def s_def)
  have slot: "\<exists>k < N. idx m k = i \<and> nat (player (nodes s ! i)) = pl k \<and> c i = stream g k ! tics g m" if i: "i < N" for i
  proof -
    obtain k where "k < N" "idx m k = i" using topology_surj [OF top m i] by auto
    with node [of k] show ?thesis by auto
  qed
  have tc: "tic_cmds [0..<N] (machines g m) = ?fill (replicate MAX_PLAYERS 0)"
    by (simp add: tic_cmds_def c_def s_def)
  show ?thesis
  proof (cases "find (\<lambda>k. pl k = p) [0..<N]")
    case None
    then have "pl k \<noteq> p" if "k < N" for k using that by (auto simp: find_None_iff)
    then have "\<forall>i \<in> set [0..<N]. nat (player (nodes s ! i)) \<noteq> p" using slot by force
    then have "?fill xs ! p = xs ! p" for xs by (rule fold_update_unused)
    then show ?thesis unfolding tc None using p by simp
  next
    case (Some k)
    then have k: "k < N" "pl k = p" by (auto simp: find_Some_iff)
    have "\<forall>j \<in> set [0..<N]. nat (player (nodes s ! j)) = p \<longrightarrow> c j = stream g k ! tics g m"
    proof (intro ballI impI)
      fix j assume j: "j \<in> set [0..<N]" "nat (player (nodes s ! j)) = p"
      then obtain l where l: "l < N" "pl l = p" "c j = stream g l ! tics g m" using slot [of j] by auto
      have "inj_on pl {..<N}" using top by (simp add: topology_def)
      with l k have "l = k" by (auto dest: inj_onD)
      with l show "c j = stream g k ! tics g m" by simp
    qed
    then have "?fill (replicate MAX_PLAYERS 0) ! p = stream g k ! tics g m"
      using node [OF k(1)] topology_idx(1) [OF top m k(1)] k p
      by (intro fold_update_used [of "idx m k"]) auto
    then show ?thesis unfolding tc Some by simp
  qed
qed

lemma tic_cmds_vector:
  assumes "game_inv N idx pl g" and "game_ok N g" and "m < N"
    and "NewTicReady (machines g m)" and "swapping g m"
  shows "tic_cmds [0..<N] (machines g m) = tic_vector N pl g (tics g m)"
proof (rule nth_equalityI)
  fix p assume "p < length (tic_cmds [0..<N] (machines g m))"
  then have "p < MAX_PLAYERS" by simp
  with tic_cmds_entry [OF assms this]
  show "tic_cmds [0..<N] (machines g m) ! p = tic_vector N pl g (tics g m) ! p" by (simp add: tic_vector_def)
qed (simp add: tic_vector_def)

text \<open>The machine's own window after the tic has been collected.\<close>

lemma collect_own:
  assumes inv: "game_inv N idx pl g" and ok: "game_ok N g" and m: "m < N" and busy: "swapping g m"
  defines "r \<equiv> recv_window (nodes (machines g m) ! 0)"
  shows "take 3 (w_cmds (popped r)) = drop (Suc (tics g m)) (stream g m)" and "unat (w_len (popped r)) = 3"
    and "unat (w_start (popped r)) = Suc (tics g m)"
proof -
  note mok = inv_machine [OF inv m]
  have r: "wf_window r" "0 < w_len r" "unat (w_len r) = 4" "win_cmds r = drop (tics g m) (stream g m)"
    "unat (w_start r) = tics g m"
    using wf_nth [OF machine_wf [OF mok], of 0] own_window(1,2) [OF mok] busy
    by (auto simp: wf_node_def MAX_PLAYERS_def r_def word_less_nat_alt)
  have str: "length (stream g m) = tics g m + 4" "tics g m + 16 < 2 ^ 32"
    using inv_stream [OF mok] busy ok m by (auto simp: game_ok_def stream_def)
  note pr = popped_simps [OF r(1,2)]
  have "win_cmds (popped r) = drop (Suc (tics g m)) (stream g m)"
    using pr(3) r(4) str by (metis drop_Suc list.sel(3) tl_drop)
  then show "take 3 (w_cmds (popped r)) = drop (Suc (tics g m)) (stream g m)"
    using pr(2) r(3) by (simp add: win_cmds_def)
  show "unat (w_len (popped r)) = 3" using pr(2) r(3) by simp
  show "unat (w_start (popped r)) = Suc (tics g m)"
    using r(5) str by (simp add: popped_def unat_add_small)
qed

text \<open>The state after the end of a call.\<close>

definition ended :: "nat \<Rightarrow> u16 list \<Rightarrow> protocol \<Rightarrow> game \<Rightarrow> game" where
  "ended m cs p g = (set_machine m p g)
      \<lparr>swapping := (swapping g)(m := False), played := (played g)(m := played g m @ [cs])\<rparr>"

lemma ended_simps:
  "machines (ended m cs p g) = (machines g)(m := p)"
  "tics (ended m cs p g) y = (if y = m then Suc (tics g m) else tics g y)"
  "stream (ended m cs p g) = stream g" "swapping (ended m cs p g) = (swapping g)(m := False)"
  "typed (ended m cs p g) = typed g" "played (ended m cs p g) m = played g m @ [cs]"
  by (auto simp: ended_def set_machine_def stream_def tics_def)

lemma swap_end_parts:
  assumes inv: "game_inv N idx pl g" and ok: "game_ok N g" and m: "m < N"
    and busy: "swapping g m" and ready: "NewTicReady (machines g m)"
    and collect: "swap_collect (machines g m) = Done (cs, p)"
  shows "cs = tic_vector N pl g (tics g m)" and "wf_protocol p"
    and "p = (popped_upto N (machines g m))\<lparr>maketic := maketic (machines g m) + 1, gametic := gametic (machines g m) + 1\<rparr>"
    and "i < N \<Longrightarrow> nodes p ! i = pop_node (nodes (machines g m) ! i)"
proof -
  define s where "s = machines g m"
  have wf: "wf_protocol s" and N: "num_nodes s = N" "N \<le> MAX_PLAYERS" and ready': "NewTicReady s"
    using inv_machine [OF inv m] inv ready by (auto simp: game_inv_def machine_ok_def Let_def s_def topology_def)
  show cs: "cs = tic_vector N pl g (tics g m)" and wfp: "wf_protocol p"
    and p: "p = (popped_upto N (machines g m))\<lparr>maketic := maketic (machines g m) + 1, gametic := gametic (machines g m) + 1\<rparr>"
    using collect swap_collect_eq [OF wf ready'] tic_cmds_vector [OF inv ok m ready busy] N(1)
    by (auto simp: s_def)
  show "nodes p ! i = pop_node (nodes (machines g m) ! i)" if "i < N"
    using that wf N(2) by (simp add: p popped_upto_def nth_append s_def wf_protocol_def)
qed

text \<open>The link to another machine: the first of its commands is taken.\<close>

lemma swap_end_node:
  assumes inv: "game_inv N idx pl g" and ok: "game_ok N g" and m: "m < N"
    and busy: "swapping g m" and ready: "NewTicReady (machines g m)"
    and collect: "swap_collect (machines g m) = Done (cs, p)" and y: "y < N"
  shows "recv_window (node_for idx (ended m cs p g) m y) = popped (recv_window (node_for idx g m y))"
    and "player (node_for idx (ended m cs p g) m y) = player (node_for idx g m y)"
    and "send_window (node_for idx (ended m cs p g) m y) = send_window (node_for idx g m y)"
    and "0 < w_len (recv_window (node_for idx g m y))"
proof -
  have top: "topology N idx pl" and N: "num_nodes (machines g m) = N" "N \<le> MAX_PLAYERS"
    using inv_machine [OF inv m] inv by (auto simp: game_inv_def machine_ok_def Let_def topology_def)
  note idx = topology_idx(1) [OF top m y]
  show "recv_window (node_for idx (ended m cs p g) m y) = popped (recv_window (node_for idx g m y))"
    "player (node_for idx (ended m cs p g) m y) = player (node_for idx g m y)"
    "send_window (node_for idx (ended m cs p g) m y) = send_window (node_for idx g m y)"
    using swap_end_parts(4) [OF assms(1-6) idx] by (simp_all add: node_for_def ended_simps pop_node_def)
  show "0 < w_len (recv_window (node_for idx g m y))"
    using ready idx N by (simp add: NewTicReady_iff node_for_def)
qed

lemma swap_end_pop:
  assumes inv: "game_inv N idx pl g" and ok: "game_ok N g" and m: "m < N"
    and busy: "swapping g m" and ready: "NewTicReady (machines g m)"
    and collect: "swap_collect (machines g m) = Done (cs, p)" and y: "y < N" "y \<noteq> m"
  shows "link_ok idx pl (ended m cs p g) m y" and "got idx (ended m cs p g) m y = got idx g m y"
proof -
  let ?g = "ended m cs p g"
  note node = swap_end_node [OF assms(1-7)]
  have link: "link_ok idx pl g m y" using inv m y by (simp add: game_inv_def)
  then have po: "pair_ok (stream g m) (tics g m) (stream g y) (got idx g y m) (pl m)
      (send_window (node_for idx g m y)) (recv_window (node_for idx g m y)) (sent_to idx g m y)"
    by (simp add: link_ok_def)
  note pop = pair_ok_pop(1,2) [OF po node(4) stream_bound [OF ok y(1)]]
  show "got idx ?g m y = got idx g m y"
    using pop unfolding got_def ended_simps node by simp
  have "sent_to idx ?g m y = sent_to idx g m y"
    by (simp add: sent_to_def ended_simps swap_end_parts(3) [OF assms(1-6)] popped_upto_def)
  moreover have "got idx ?g y m = got idx g y m"
    using y by (simp add: got_def node_for_def ended_simps)
  ultimately show "link_ok idx pl ?g m y"
    using pop link y unfolding link_ok_def node ended_simps by simp
qed

lemma swap_end_moves:
  assumes inv: "game_inv N idx pl g" and ok: "game_ok N g" and m: "m < N"
    and busy: "swapping g m" and ready: "NewTicReady (machines g m)"
    and collect: "swap_collect (machines g m) = Done (cs, p)"
  shows "moves N idx m g (ended m cs p g)"
  using swap_end_pop(2) [OF assms] swap_end_parts(3) [OF assms]
  by (auto simp: moves_def ended_def set_machine_def popped_upto_def)

lemma swap_end_machine:
  assumes inv: "game_inv N idx pl g" and ok: "game_ok N g" and m: "m < N"
    and busy: "swapping g m" and ready: "NewTicReady (machines g m)"
    and collect: "swap_collect (machines g m) = Done (cs, p)"
  shows "machine_ok N idx pl (ended m cs p g) m"
proof -
  define s where "s = machines g m"
  define r where "r = recv_window (nodes s ! 0)"
  note mok = inv_machine [OF inv m] and mv = swap_end_moves [OF assms]
  note parts = swap_end_parts [OF assms, folded s_def]
  note own = collect_own [OF inv ok m busy, folded s_def, folded r_def]
  have tv: "tic_vector N pl (ended m cs p g) t = tic_vector N pl g t" for t
    unfolding tic_vector_def ended_simps ..
  have str: "length (stream g m) = tics g m + 4" "tics g m + 16 < 2 ^ 32"
    using inv_stream [OF mok] busy ok m by (auto simp: game_ok_def stream_def)
  note own
  moreover have old: "unat (gametic s) = tics g m" "unat (maketic s) = tics g m + DELAY"
    "player (nodes s ! 0) = int (pl m)" "consoleplayer s = pl m" "length (typed g m) = Suc (tics g m)"
    "\<forall>t < tics g m. played g m ! t = tic_vector N pl g t"
    using mok busy by (simp_all add: machine_ok_def Let_def s_def)
  moreover from old str have "unat (gametic s + 1) = Suc (tics g m)" "unat (maketic s + 1) = Suc (tics g m) + DELAY"
    by (simp_all add: unat_add_small DELAY_def)
  moreover have "deliverable N idx (ended m cs p g) m a" if "a \<in> set (answers (driver p))" for a
    using moves_deliverable [OF mv] machine_answers [OF mok] that by (simp add: parts(3) popped_upto_def s_def)
  moreover have "length (played g m) = tics g m" by (simp add: tics_def)
  moreover have "gametic p = gametic s + 1" "maketic p = maketic s + 1" "num_nodes p = N"
      "consoleplayer p = consoleplayer s"
    using mok by (simp_all add: parts(3) popped_upto_def machine_ok_def Let_def s_def)
  moreover have "recv_window (nodes p ! 0) = popped r" "player (nodes p ! 0) = player (nodes s ! 0)"
    using parts(4) [of 0] m by (simp_all add: pop_node_def r_def)
  ultimately show ?thesis
    using parts(1,2) str unfolding machine_ok_def Let_def tv ended_simps
    by (simp add: nth_append less_Suc_eq)
qed

lemma swap_end_inv:
  assumes "game_inv N idx pl g" and "game_ok N g" and "m < N"
    and "swapping g m" and "NewTicReady (machines g m)" and "swap_collect (machines g m) = Done (cs, p)"
  shows "game_inv N idx pl ((set_machine m p g)
      \<lparr>swapping := (swapping g)(m := False), played := (played g)(m := played g m @ [cs])\<rparr>)"
  unfolding ended_def [symmetric]
  by (rule moves_inv [OF assms(1,3) swap_end_moves [OF assms] swap_end_machine [OF assms]])
    (rule swap_end_pop(1) [OF assms])

end
