(* ===== verification/Lockstep.thy ===== *)
theory Lockstep
  imports Game_Invariant
begin

text \<open>
  What the players can rely on: the invariant holds in every reachable game, calls of
  \<^verbatim>\<open>ReceivePackets\<close> and \<^verbatim>\<open>SwapCommand\<close> are runs of the game, and therefore
  every machine plays every tic with the same commands.
\<close>

section \<open>Reachable games\<close>

definition game_start :: "nat \<Rightarrow> (nat \<Rightarrow> nat \<Rightarrow> nat) \<Rightarrow> (nat \<Rightarrow> nat) \<Rightarrow> game \<Rightarrow> bool" where
  "game_start N idx pl g \<longleftrightarrow> topology N idx pl \<and> game_init N pl g"

abbreviation reachable_game :: "nat \<Rightarrow> (nat \<Rightarrow> nat \<Rightarrow> nat) \<Rightarrow> (nat \<Rightarrow> nat) \<Rightarrow> game \<Rightarrow> bool" where
  "reachable_game N idx pl \<equiv> reach (game_start N idx pl) (game_step N idx)"

lemma game_start_machine:
  assumes "game_start N idx pl g" and "m < N"
  obtains fake dc c where "machines g m = fresh_protocol fake dc idle_driver c" and "proper_doomcom dc"
    and "dc_numnodes dc = int N" and "dc_consoleplayer dc = int (pl m)" and "length (dc_data dc) = DATA_SIZE"
proof -
  from assms obtain fake dc0 dc c where
    i: "InitProtocol dc (static_protocol fake dc0 idle_driver c) = Done (machines g m)"
      "dc_numnodes dc = int N" "dc_consoleplayer dc = int (pl m)" "length (dc_data dc) = DATA_SIZE"
    unfolding game_start_def game_init_def by blast
  then have "proper_doomcom dc" using InitProtocol_fails by fastforce
  from InitProtocol_ok [OF this] i(1) have "machines g m = fresh_protocol fake dc idle_driver c" by simp
  with that \<open>proper_doomcom dc\<close> i(2-4) show ?thesis by blast
qed

lemma fresh_pair:
  "pair_ok (replicate 3 0) 0 (replicate 3 0) 0 p (send_window (fresh_node a)) (recv_window (fresh_node b)) {}"
  by (simp add: pair_ok_def fresh_node_def wf_window_def win_cmds_def MAX_DELAY_def DELAY_def)

lemma game_start_inv:
  assumes "game_start N idx pl g"
  shows "game_inv N idx pl g"
proof -
  have top: "topology N idx pl" and empty: "swapping g = (\<lambda>_. False)" "typed g = (\<lambda>_. [])" "played g = (\<lambda>_. [])"
    using assms by (auto simp: game_start_def game_init_def)
  have "machine_ok N idx pl g m" if m: "m < N" for m
  proof (rule game_start_machine [OF assms m])
    fix fake dc c
    assume *: "machines g m = fresh_protocol fake dc idle_driver c" "proper_doomcom dc"
      "dc_numnodes dc = int N" "dc_consoleplayer dc = int (pl m)" "length (dc_data dc) = DATA_SIZE"
    have "take 3 (w_cmds (recv_window (fresh_node (int (pl m))))) = stream g m"
      by (simp add: fresh_node_def stream_def empty)
    with * fresh_protocol_wf [of dc fake idle_driver c] show ?thesis
      by (simp add: machine_ok_def Let_def empty tics_def stream_def DELAY_def)
        (simp add: fresh_protocol_def fresh_node_def idle_driver_def)
  qed
  moreover have "link_ok idx pl g m k" if mk: "m < N" "k < N" "k \<noteq> m" for m k
  proof -
    have fresh: "node_for idx g x y = fresh_node (-1) \<and> sent_to idx g x y = {}"
      if xy: "x < N" "y < N" "y \<noteq> x" for x y
    proof (rule game_start_machine [OF assms xy(1)])
      fix fake dc c
      assume "machines g x = fresh_protocol fake dc idle_driver c"
      then show ?thesis
        using topology_idx [OF top xy(1,2)] xy(3)
        by (simp add: node_for_def fresh_protocol_nth sent_to_def)
          (simp add: fresh_protocol_def idle_driver_def)
    qed
    then have "got idx g k m = 0" using mk by (simp add: got_def tics_def empty fresh_node_def)
    with fresh [OF mk] show ?thesis
      using fresh_pair by (simp add: link_ok_def stream_def tics_def empty) (simp add: fresh_node_def)
  qed
  ultimately show ?thesis using top by (simp add: game_inv_def)
qed

lemma game_step_typed: "game_step N idx g g' \<Longrightarrow> length (typed g x) \<le> length (typed g' x)"
  by (induction rule: game_step.induct) (auto simp: set_machine_def)

lemma game_ok_back: "game_step N idx g g' \<Longrightarrow> game_ok N g' \<Longrightarrow> game_ok N g"
  unfolding game_ok_def using game_step_typed le_less_trans by blast

lemma game_step_inv:
  assumes "game_step N idx g g'" and ok': "game_ok N g'" and inv: "game_inv N idx pl g"
  shows "game_inv N idx pl g'"
proof -
  have ok: "game_ok N g" using game_ok_back assms(1) ok' .
  from assms(1) show ?thesis
  proof cases
    case input
    then show ?thesis using input_inv [OF inv ok] by simp
  next
    case receive
    then show ?thesis using receive_inv [OF inv ok] by simp
  next
    case no_answer
    then show ?thesis using no_packet_inv [OF inv ok] by simp
  next
    case no_packet
    then show ?thesis using skip_answer_inv [OF inv ok] by simp
  next
    case read_clock
    then show ?thesis using read_clock_inv [OF inv ok] by simp
  next
    case resend
    then show ?thesis using resend_inv [OF inv ok] by simp
  next
    case swap_begin
    then show ?thesis using swap_begin_inv [OF inv ok] by simp
  next
    case swap_end
    then show ?thesis using swap_end_inv [OF inv ok] by simp
  qed
qed

interpretation game_safe: bounded_invariant "game_start N idx pl" "game_step N idx" "game_ok N" "game_inv N idx pl"
  for N idx pl
  by unfold_locales (rule game_start_inv, assumption, rule game_ok_back, assumption+,
      rule game_step_inv, assumption+)

lemma run_inv:
  assumes "(game_step N idx)\<^sup>*\<^sup>* g g'" and "game_inv N idx pl g" and "game_ok N g'"
  shows "game_inv N idx pl g' \<and> game_ok N g"
  using assms
proof (induction rule: rtranclp_induct)
  case (step h h')
  then show ?case using game_ok_back game_step_inv by blast
qed simp

section \<open>Calls are runs\<close>

abbreviation run :: "nat \<Rightarrow> (nat \<Rightarrow> nat \<Rightarrow> nat) \<Rightarrow> game \<Rightarrow> game \<Rightarrow> bool" where
  "run N idx \<equiv> (game_step N idx)\<^sup>*\<^sup>*"

lemma set_machine_twice [simp]: "set_machine m p (set_machine m q g) = set_machine m p g"
  by (simp add: set_machine_def)

lemma set_machine_self [simp]: "set_machine m (machines g m) g = g"
  by (simp add: set_machine_def)

lemma machines_set_machine [simp]: "machines (set_machine m p g) m = p"
  by (simp add: set_machine_def)

lemma run_CheckResends:
  assumes "m < N" and "num_nodes p = N" and "CheckResends p = Done q"
  shows "run N idx (set_machine m p g) (set_machine m q g)"
proof (rule CheckResends_invariant [OF _ _ assms(3), of "\<lambda>t. run N idx (set_machine m p g) (set_machine m t g)"])
  show "run N idx (set_machine m p g) (set_machine m (p\<lparr>clock_calls := Suc (clock_calls p)\<rparr>) g)"
    using game_step.read_clock [of m N idx "set_machine m p g"] assms(1) by auto
  fix i s s' assume *: "i \<in> {1..<num_nodes p}" "run N idx (set_machine m p g) (set_machine m s g)"
    "SendPacket i s = Done s'"
  then have "game_step N idx (set_machine m s g) (set_machine m s' g)"
    using game_step.resend [of m N i "set_machine m s g" s' idx] assms(1,2) by simp
  with *(2) show "run N idx (set_machine m p g) (set_machine m s' g)" by simp
qed

lemma run_receive_loop:
  assumes "m < N" and "receive_loop p = Done q"
  shows "run N idx (set_machine m p g) (set_machine m q g)"
  using assms(2)
proof (induction "answers (driver p)" arbitrary: p)
  case Nil
  then show ?case
    using game_step.no_answer [of m N "set_machine m p g" idx] assms(1) by (auto simp: receive_loop_Nil)
next
  case (Cons a as)
  have next_answer: "answers (driver p) = a # as" using Cons.hyps(2) by simp
  show ?case
  proof (cases "ans_node a = -1")
    case True
    with Cons.prems next_answer show ?thesis
      using game_step.no_packet [of m N "set_machine m p g" a as idx] assms(1) by (auto simp: receive_loop_Cons)
  next
    case False
    with Cons.prems next_answer obtain t where
      t: "ReceivePacket (nat (ans_node a)) (take_answer a as p) = Done t" "receive_loop t = Done q"
      by (auto simp: receive_loop_Cons obind_eq_Done split: if_splits)
    then have "as = answers (driver t)" by (auto dest: ReceivePacket_driver)
    from Cons.hyps(1) [OF this t(2)] have "run N idx (set_machine m t g) (set_machine m q g)" .
    moreover have "game_step N idx (set_machine m p g) (set_machine m t g)"
      using game_step.receive [of m N "set_machine m p g" a as t idx] assms(1) next_answer False t(1) by simp
    ultimately show ?thesis by (simp add: converse_rtranclp_into_rtranclp)
  qed
qed

lemma run_ReceivePackets:
  assumes "m < N" and "num_nodes p = N" and "ReceivePackets p = Done q"
  shows "run N idx (set_machine m p g) (set_machine m q g)"
proof -
  from assms(3) obtain t where t: "CheckResends p = Done t" "receive_loop t = Done q"
    by (auto simp: ReceivePackets_def obind_eq_Done)
  have "run N idx (set_machine m p g) (set_machine m t g)" using assms(1,2) t(1) by (rule run_CheckResends)
  also have "run N idx (set_machine m t g) (set_machine m q g)" using assms(1) t(2) by (rule run_receive_loop)
  finally show ?thesis .
qed

lemma run_swap_wait:
  assumes "m < N" and "num_nodes p = N" and "swap_wait p = Done q"
  shows "run N idx (set_machine m p g) (set_machine m q g)"
  using assms(2,3)
proof (induction p rule: swap_wait.induct)
  case (1 p)
  show ?case
  proof (cases "NewTicReady p \<or> answers (driver p) = []")
    case True
    with "1.prems" show ?thesis by (simp add: swap_wait.simps [of p] split: if_splits)
  next
    case False
    with "1.prems" obtain t where t: "ReceivePackets p = Done t" "swap_wait t = Done q"
      by (auto simp: swap_wait.simps [of p] obind_eq_Done)
    have "num_nodes t = N" using counters_ReceivePackets [OF t(1)] "1.prems" by (simp add: counters_def)
    with "1.IH" False t have "run N idx (set_machine m t g) (set_machine m q g)" by auto
    with run_ReceivePackets [OF assms(1) "1.prems"(1) t(1), of idx g] show ?thesis by simp
  qed
qed

lemma swap_wait_ready: "swap_wait p = Done q \<Longrightarrow> NewTicReady q"
proof (induction p rule: swap_wait.induct)
  case (1 p)
  then show ?case
    by (cases "NewTicReady p \<or> answers (driver p) = []")
      (auto simp: swap_wait.simps [of p] obind_eq_Done split: if_splits)
qed

text \<open>The game after a completed call.\<close>

definition after_register :: "nat \<Rightarrow> u16 \<Rightarrow> protocol \<Rightarrow> game \<Rightarrow> game" where
  "after_register m cmd p g = (set_machine m p g)
     \<lparr>swapping := (swapping g)(m := True), typed := (typed g)(m := typed g m @ [cmd])\<rparr>"

definition after_tic :: "nat \<Rightarrow> u16 list \<Rightarrow> protocol \<Rightarrow> game \<Rightarrow> game" where
  "after_tic m cs p g = (set_machine m p g)
     \<lparr>swapping := (swapping g)(m := False), played := (played g)(m := played g m @ [cs])\<rparr>"

lemma set_machine_after_register:
  "set_machine m p (after_register m cmd q g) = after_register m cmd p g"
  by (cases g) (simp add: after_register_def set_machine_def)

lemma run_SwapCommand:
  assumes m: "m < N" and idle: "\<not> swapping g m" and n: "num_nodes (machines g m) = N"
    and call: "SwapCommand cmd cs (machines g m) = Done (True, cs', p)"
  obtains s1 s2 where "swap_register cmd (machines g m) = Done s1"
    and "run N idx g (after_register m cmd s2 g)" and "NewTicReady s2"
    and "swap_collect s2 = Done (cs', p)"
    and "run N idx g (after_tic m cs' p (after_register m cmd s2 g))"
proof -
  from call obtain s1 s2 where s: "swap_register cmd (machines g m) = Done s1" "swap_wait s1 = Done s2"
      "swap_collect s2 = Done (cs', p)"
    by (auto simp: SwapCommand_def obind_eq_Done split: if_splits)
  have ready: "NewTicReady s2" using s(2) by (rule swap_wait_ready)
  have "num_nodes s1 = N" using counters_swap_register [OF s(1)] n by (simp add: counters_def)
  from run_swap_wait [OF m this s(2)]
  have "run N idx (set_machine m s1 (after_register m cmd s1 g)) (set_machine m s2 (after_register m cmd s1 g))" .
  then have "run N idx (after_register m cmd s1 g) (after_register m cmd s2 g)"
    by (simp only: set_machine_after_register)
  moreover have "game_step N idx g (after_register m cmd s1 g)"
    unfolding after_register_def using m idle s(1) by (rule game_step.swap_begin)
  ultimately have r: "run N idx g (after_register m cmd s2 g)"
    by (meson converse_rtranclp_into_rtranclp)
  have "game_step N idx (after_register m cmd s2 g) (after_tic m cs' p (after_register m cmd s2 g))"
    unfolding after_tic_def using m ready s(3)
    by (intro game_step.swap_end) (simp_all add: after_register_def)
  with r have "run N idx g (after_tic m cs' p (after_register m cmd s2 g))" by simp
  with s(1,3) r ready that show thesis by blast
qed


section \<open>A game of two\<close>

text \<open>A concrete game, up to the first call of machine 0: machine 1 has made its first command
  (5) and its packet is waiting at machine 0.\<close>

definition pair_idx :: "nat \<Rightarrow> nat \<Rightarrow> nat" where
  "pair_idx m k = (if m = k then 0 else 1)"

definition pair_start :: game where
  "pair_start = \<lparr>machines = (\<lambda>m. fresh_protocol 0 (sample_doomcom 2 (int m)) idle_driver (\<lambda>_. 0)),
     swapping = (\<lambda>_. False), typed = (\<lambda>_. []), played = (\<lambda>_. [])\<rparr>"

definition peer_answer :: answer where
  "peer_answer = \<lparr>ans_node = 1, ans_bytes = peer_packet\<rparr>"

lemma two_machines: "(k :: nat) < 2 \<longleftrightarrow> k = 0 \<or> k = 1"
  by auto

lemma pair_start_reachable: "reachable_game 2 pair_idx (\<lambda>m. m) pair_start"
proof (rule reach_init)
  have set2: "{..<2} = {0, 1 :: nat}" by auto
  have "topology 2 pair_idx (\<lambda>m. m)"
    unfolding topology_def set2 by (auto simp: pair_idx_def MAX_PLAYERS_def two_machines)
  moreover have "game_init 2 (\<lambda>m. m) pair_start"
    unfolding game_init_def
  proof (intro conjI allI impI)
    fix m :: nat assume "m < 2"
    then have "proper_doomcom (sample_doomcom 2 (int m))"
      by (auto simp: proper_doomcom_def sample_doomcom_def)
    from InitProtocol_ok [OF this, of 0 "sample_doomcom 2 0" idle_driver "\<lambda>_. 0"]
    show "\<exists>fake dc0 dc c. InitProtocol dc (static_protocol fake dc0 idle_driver c) = Done (machines pair_start m)
       \<and> dc_numnodes dc = int 2 \<and> dc_consoleplayer dc = int m \<and> length (dc_data dc) = DATA_SIZE"
      by (intro exI [of _ "sample_doomcom 2 (int m)"] exI [of _ 0] exI [of _ "sample_doomcom 2 0"]
          exI [of _ "\<lambda>_. 0"]) (simp add: pair_start_def, simp add: sample_doomcom_def)
  qed (simp_all add: pair_start_def)
  ultimately show "game_start 2 pair_idx (\<lambda>m. m) pair_start" by (simp add: game_start_def)
qed

lemma pair_register:
  "\<exists>p. swap_register 5 (machines pair_start 1) = Done p \<and> (1, peer_packet) \<in> set (sent (driver p))"
proof -
  let ?s = "machines pair_start 1"
  have s: "?s = fresh_protocol 0 (sample_doomcom 2 1) idle_driver (\<lambda>_. 0)" "num_nodes ?s = 2"
    by (simp_all add: pair_start_def fresh_protocol_def sample_doomcom_def)
  have inv: "game_inv 2 pair_idx (\<lambda>m. m) pair_start"
    using pair_start_reachable by (rule game_safe.reach_inv) (simp add: game_ok_def pair_start_def)
  have ok: "game_ok 2 pair_start" "\<not> swapping pair_start 1" by (simp_all add: game_ok_def pair_start_def)
  have one: "(1 :: nat) < 2" by simp
  note len = register_lengths(3,4) [OF inv ok(1) one ok(2)]
  have wf: "wf_protocol ?s" by (rule machine_wf [OF inv_machine [OF inv one]])
  have "new_length i ?s \<le> MAX_DELAY" if "i < num_nodes ?s" for i
    using len(2) [of i] that s(2) by (simp add: MAX_DELAY_def)
  with len(1) s(2) obtain p where p: "swap_register 5 ?s = Done p"
      "sent (driver p) = sent (driver ?s) @ map (\<lambda>i. (int i, packet_for i p)) [1..<2]"
      "send_window (nodes p ! 1) = pushed 5 (new_length 1 ?s) (send_window (nodes ?s ! 1))"
      "recv_window (nodes p ! 1) = recv_window (nodes ?s ! 1)" "player (nodes p ! 0) = player (nodes ?s ! 0)"
    using register_upto [OF wf order_refl, of 5] by (auto simp: swap_register_def MAX_PLAYERS_def)
  have nodes: "nodes ?s ! 1 = fresh_node (-1)" "nodes ?s ! 0 = fresh_node 1"
    unfolding s(1) by (simp_all add: fresh_protocol_nth MAX_PLAYERS_def sample_doomcom_def)
  have "new_length 1 ?s = 4"
    unfolding new_length_def out_window_def nodes
    unfolding s(1) by (simp add: fresh_protocol_def fresh_node_def)
  then have sw: "send_window (nodes p ! 1) = pushed 5 4 (send_window (fresh_node (-1)))"
    unfolding p(3) nodes by simp
  have "win_cmds (pushed 5 4 (send_window (fresh_node (-1)))) = [0, 0, 0, 5]"
    by (simp add: fresh_node_def pushed_def win_cmds_def) (simp add: eval_nat_numeral)
  then have "packet_for 1 p = peer_packet"
    unfolding packet_for_def Let_def sw p(4,5) nodes
    by (simp add: peer_packet_def) (simp add: fresh_node_def pushed_def)
  with p(1,2) show ?thesis by auto
qed

lemma pair_game:
  obtains g where "reachable_game 2 pair_idx (\<lambda>m. m) g" and "\<not> swapping g 0"
    and "typed g 0 = []" and "typed g 1 = [5]" and "played g 0 = []"
    and "machines g 0 = sample_protocol [peer_answer]"
proof -
  obtain p where p: "swap_register 5 (machines pair_start 1) = Done p"
      "(1, peer_packet) \<in> set (sent (driver p))"
    using pair_register by blast
  let ?g = "after_register 1 5 p pair_start"
  let ?h = "set_machine 0 ((machines ?g 0)\<lparr>driver := (driver (machines ?g 0))\<lparr>answers := [peer_answer]\<rparr>,
      clock := \<lambda>k. of_nat k\<rparr>) ?g"
  have "game_step 2 pair_idx pair_start ?g"
    unfolding after_register_def using p(1) by (intro game_step.swap_begin) (simp_all add: pair_start_def)
  moreover have "deliverable 2 pair_idx ?g 0 peer_answer"
    using p(2) by (simp add: deliverable_def peer_answer_def peer_packet_def DATA_SIZE_def)
      (intro exI [of _ 1], simp add: pair_idx_def after_register_def set_machine_def peer_packet_def)
  then have "game_step 2 pair_idx ?g ?h" by (intro game_step.input) auto
  ultimately have "reachable_game 2 pair_idx (\<lambda>m. m) ?h"
    using pair_start_reachable by (meson reach_step)
  moreover have "machines ?h 0 = sample_protocol [peer_answer]"
    by (simp add: after_register_def set_machine_def pair_start_def sample_protocol_def
        fresh_protocol_def idle_driver_def)
  ultimately show thesis
    using that [of ?h] by (simp add: after_register_def set_machine_def pair_start_def)
qed

lemma pair_game_tic:
  obtains g where "reachable_game 2 pair_idx (\<lambda>m. m) g" and "game_ok 2 g" and "tics g 0 = 1"
    and "typed g 1 = [5]" and "typed g 0 = [9]"
proof -
  obtain g where g: "reachable_game 2 pair_idx (\<lambda>m. m) g" "\<not> swapping g 0"
      "typed g 0 = []" "typed g 1 = [5]" "played g 0 = []" "machines g 0 = sample_protocol [peer_answer]"
    by (rule pair_game)
  obtain p where "SwapCommand 9 [] (machines g 0) = Done (True, [0, 0, 0, 0], p)"
    using sample_swap by (auto simp: g(6) peer_answer_def split: outcome.splits)
  then obtain s2 where run: "run 2 pair_idx g (after_tic 0 [0, 0, 0, 0] p (after_register 0 9 s2 g))"
    using run_SwapCommand [where m = 0 and N = 2 and g = g and cmd = 9 and cs = "[]"
        and cs' = "[0, 0, 0, 0]" and p = p and idx = pair_idx] g(2,6) by auto
  with g show thesis
    using reach_rtranclp [OF run g(1)]
      that [of "after_tic 0 [0, 0, 0, 0] p (after_register 0 9 s2 g)"]
    by (simp add: after_tic_def after_register_def set_machine_def game_ok_def tics_def two_machines)
qed

section \<open>Properties\<close>

lemma tic_vector_player:
  assumes "topology N idx pl" and "k < N"
  shows "tic_vector N pl g t ! pl k = stream g k ! t"
proof -
  have inj: "inj_on pl {..<N}" and lt: "pl k < MAX_PLAYERS"
    using assms by (auto simp: topology_def)
  obtain l where l: "find (\<lambda>l. pl l = pl k) [0..<N] = Some l"
    using assms(2) by (cases "find (\<lambda>l. pl l = pl k) [0..<N]") (auto simp: find_None_iff)
  then have "l < N" "pl l = pl k" by (auto simp: find_Some_iff)
  then have "l = k" using inj assms(2) by (auto dest: inj_onD)
  with l lt show ?thesis by (simp add: tic_vector_def)
qed

lemma played_vector:
  "game_inv N idx pl g \<Longrightarrow> m < N \<Longrightarrow> t < tics g m \<Longrightarrow> played g m ! t = tic_vector N pl g t"
  by (simp add: game_inv_def machine_ok_def Let_def)

text \<open>C5: lockstep. However packets are lost, duplicated, reordered or damaged (in a way that the
  length, the checksum, the player or the number of commands shows): for every tic
  a machine has played, \<^verbatim>\<open>SwapCommand\<close> gave it the commands of all players for that
  tic. The player of machine \<open>k\<close> gets element \<open>t\<close> of the stream of \<open>k\<close>, which is three
  empty commands and then what \<open>k\<close> passed to \<^verbatim>\<open>SwapCommand\<close>; so any two machines
  have played the same.\<close>

theorem lockstep_agreement:
  assumes "reachable_game N idx pl g" and "game_ok N g" and "m < N" and "t < tics g m"
  shows "(\<forall>k < N. played g m ! t ! pl k = (replicate 3 0 @ typed g k) ! t)
    \<and> (\<forall>k < N. t < tics g k \<longrightarrow> played g k ! t = played g m ! t)"
proof -
  have inv: "game_inv N idx pl g" using assms(1,2) by (rule game_safe.reach_inv)
  then have top: "topology N idx pl" by (simp add: game_inv_def)
  note vec = played_vector [OF inv]
  show ?thesis
    unfolding vec [OF assms(3,4)]
    using vec tic_vector_player [OF top] by (simp add: stream_def)
qed

theorem lockstep_agreement_witness:
  "\<exists>g. reachable_game 2 pair_idx (\<lambda>m. m) g \<and> typed g 1 = [5] \<and> played g 0 ! 0 ! 1 = 0
    \<and> played g 0 ! 0 ! 0 = 0"
proof (rule pair_game_tic)
  fix g assume g: "reachable_game 2 pair_idx (\<lambda>m. m) g" "game_ok 2 g" "tics g 0 = 1" "typed g 1 = [5]"
  have all: "played g 0 ! 0 ! k = (replicate 3 0 @ typed g k) ! 0" if "k < 2" for k
    using lockstep_agreement [OF g(1,2), of 0 0, THEN conjunct1] g(3) that by simp
  have "(replicate 3 0 @ ts) ! 0 = (0 :: u16)" for ts by (simp add: numeral_eq_Suc)
  then have "played g 0 ! 0 ! 1 = 0" "played g 0 ! 0 ! 0 = 0"
    using all [of 1] all [of 0] by simp_all
  then show ?thesis using g(1,4) by (intro exI [of _ g]) simp
qed

text \<open>C7: the machines stay close. No machine has played more than four tics
  (\<^verbatim>\<open>DELAY\<close>) more than another, no window of 16 commands is asked to hold more than
  eight, and the call that registers a new command succeeds.\<close>

theorem lockstep_bounds:
  assumes "reachable_game N idx pl g" and "game_ok N g" and "m < N"
  shows "(\<forall>k < N. tics g m \<le> tics g k + DELAY)
    \<and> (\<not> swapping g m \<longrightarrow> (\<forall>i < N. new_length i (machines g m) \<le> 8)
         \<and> (\<exists>p. swap_register cmd (machines g m) = Done p \<and> wf_protocol p))"
proof -
  have inv: "game_inv N idx pl g" using assms(1,2) by (rule game_safe.reach_inv)
  note mok = inv_machine [OF inv assms(3)]
  have wf: "wf_protocol (machines g m)" and N: "num_nodes (machines g m) = N"
    using mok by (simp_all add: machine_ok_def Let_def)
  have "tics g m \<le> tics g k + DELAY" if k: "k < N" "k \<noteq> m" for k
    using inv_link(1,2) [OF inv assms(3) k] inv_link(4) [OF inv k(1) assms(3)] 
      inv_stream [OF inv_machine [OF inv k(1)]] by (auto simp: DELAY_def split: if_splits)
  moreover have "\<exists>p. swap_register cmd (machines g m) = Done p \<and> wf_protocol p"
    if "\<not> swapping g m"
  proof -
    have "\<forall>i < num_nodes (machines g m). new_length i (machines g m) \<le> MAX_DELAY"
      using register_lengths(4) [OF inv assms(2,3) that] N by (force simp: MAX_DELAY_def)
    from swap_register_total [OF wf this] show ?thesis by blast
  qed
  ultimately show ?thesis
    using register_lengths(4) [OF inv assms(2,3)] by (metis le_add1)
qed

theorem lockstep_bounds_witness:
  "\<exists>g. reachable_game 2 pair_idx (\<lambda>m. m) g \<and> tics g 0 = 1 \<and> tics g 0 \<le> tics g 1 + DELAY
    \<and> (\<not> swapping g 0 \<longrightarrow> new_length 1 (machines g 0) \<le> 8)"
proof (rule pair_game_tic)
  fix g assume g: "reachable_game 2 pair_idx (\<lambda>m. m) g" "game_ok 2 g" "tics g 0 = 1"
  from lockstep_bounds [OF g(1,2), of 0] g show ?thesis
    by (intro exI [of _ g]) (simp add: two_machines)
qed

text \<open>In a game a call of \<^verbatim>\<open>SwapCommand\<close> returns true if it returns.\<close>

lemma SwapCommand_game_cases:
  assumes inv: "game_inv N idx pl g" and ok: "game_ok N g" and m: "m < N" and idle: "\<not> swapping g m"
  shows "SwapCommand cmd cs (machines g m) = Blocked \<or> (\<exists>cs' p. SwapCommand cmd cs (machines g m) = Done (True, cs', p))"
proof -
  note mok = inv_machine [OF inv m]
  have top: "topology N idx pl" using inv by (simp add: game_inv_def)
  have wf: "wf_protocol (machines g m)" and N: "num_nodes (machines g m) = N"
    using mok by (simp_all add: machine_ok_def Let_def)
  have "proper_answer N a" if a: "a \<in> set (answers (driver (machines g m)))" for a
    using machine_answers [OF mok a] topology_idx(1) [OF top m] top
    by (auto simp: deliverable_def proper_answer_def topology_def)
  moreover have "\<forall>i < num_nodes (machines g m). new_length i (machines g m) \<le> MAX_DELAY"
    using register_lengths(4) [OF inv ok m idle] N by (force simp: MAX_DELAY_def)
  ultimately have cases: "SwapCommand cmd cs (machines g m) = Blocked \<or>
      (\<exists>b cs' p. SwapCommand cmd cs (machines g m) = Done (b, cs', p))"
    using SwapCommand_cases [OF wf] N by blast
  have "unat (maketic (machines g m)) = tics g m + 4" "unat (gametic (machines g m)) = tics g m"
    using mok by (simp_all add: machine_ok_def Let_def DELAY_def)
  then have "\<not> of_nat MAX_DELAY \<le> maketic (machines g m) - gametic (machines g m)"
    by (simp add: unat_sub_small word_le_nat_alt MAX_DELAY_def)
  then have "b = True" if "SwapCommand cmd cs (machines g m) = Done (b, cs', p)" for b cs' p
    using that by (auto simp: SwapCommand_def obind_eq_Done)
  with cases show ?thesis by blast
qed

text \<open>The call itself, in a game that has been going on for any number of tics. It never
  fails an assertion or leaves an array; it either is still waiting when the driver has no
  more answers, or returns true with the commands of the tic in \<^verbatim>\<open>cmds[]\<close>, and the
  game goes on in a reachable state.\<close>

lemma SwapCommand_game_call:
  assumes "reachable_game N idx pl g" and "m < N" and "\<not> swapping g m"
    and "\<forall>k < N. Suc (length (typed g k)) < 2 ^ 32 - 16"
  shows "SwapCommand cmd cs (machines g m) = Blocked
    \<or> (\<exists>cs' p. SwapCommand cmd cs (machines g m) = Done (True, cs', p) \<and> length cs' = MAX_PLAYERS
        \<and> (\<forall>k < N. cs' ! pl k = (replicate 3 0 @ typed g k @ (if k = m then [cmd] else [])) ! tics g m)
        \<and> reachable_game N idx pl (after_tic m cs' p (after_register m cmd p g)))"
proof -
  have ok: "game_ok N g" using assms(4) by (auto simp: game_ok_def)
  have inv: "game_inv N idx pl g" using assms(1) ok by (rule game_safe.reach_inv)
  note mok = inv_machine [OF inv assms(2)]
  have top: "topology N idx pl" using inv by (simp add: game_inv_def)
  have wf: "wf_protocol (machines g m)" and N: "num_nodes (machines g m) = N"
    using mok by (simp_all add: machine_ok_def Let_def)
  show ?thesis
  proof (cases "SwapCommand cmd cs (machines g m) = Blocked")
    case False
    with SwapCommand_game_cases [OF inv ok assms(2,3), of cmd cs]
    obtain cs' p where call: "SwapCommand cmd cs (machines g m) = Done (True, cs', p)" by blast
    then obtain s2 where ready: "NewTicReady s2" and col: "swap_collect s2 = Done (cs', p)"
      and mid: "run N idx g (after_register m cmd s2 g)"
      and fin: "run N idx g (after_tic m cs' p (after_register m cmd s2 g))"
      using run_SwapCommand [where idx = idx, OF assms(2,3) N] by blast
    let ?h = "after_register m cmd s2 g"
    have okh: "game_ok N ?h" using assms(4) by (auto simp: game_ok_def after_register_def set_machine_def)
    from run_inv [OF mid inv okh] have invh: "game_inv N idx pl ?h" by simp
    have h: "swapping ?h m" "machines ?h m = s2" "tics ?h m = tics g m"
      "stream ?h k = replicate 3 0 @ typed g k @ (if k = m then [cmd] else [])" for k
      by (auto simp: after_register_def set_machine_def tics_def stream_def)
    have "wf_protocol s2" "num_nodes s2 = N"
      using inv_machine [OF invh assms(2)] h(2) by (simp_all add: machine_ok_def Let_def)
    then have "cs' = tic_vector N pl ?h (tics g m)"
      using swap_collect_eq(1) [of s2] ready col
        tic_cmds_vector [OF invh okh assms(2) _ h(1)] by (simp add: h)
    moreover have "after_tic m cs' p ?h = after_tic m cs' p (after_register m cmd p g)"
      by (cases g) (simp add: after_tic_def after_register_def set_machine_def)
    ultimately show ?thesis
      using call reach_rtranclp [OF fin assms(1)] tic_vector_player [OF top, of _ ?h]
      by (intro disjI2 exI [of _ cs'] exI [of _ p]) (simp add: h, simp add: tic_vector_def)
  qed simp
qed

end
