(* ===== verification/Fakedisk.thy ===== *)
theory Fakedisk
  imports Protocol_Sound
begin

text \<open>
  The emulated floppy disk of \<^verbatim>\<open>fakedisk.c\<close>: its sectors, the communications
  buffer that the game reads and writes as a file, and the state machine that turns those
  reads and writes into calls of \<^verbatim>\<open>SwapCommand\<close>. The interrupt handlers that lead
  here are in theory \<^verbatim>\<open>Interrupts\<close>.
\<close>

section \<open>State\<close>

definition EXPL_RANDOM_SEED :: u8 where "EXPL_RANDOM_SEED = 0x84"

definition NUM_GAMES :: nat where "NUM_GAMES = 8"

datatype disk_state = STATE_INIT | STATE_WAITING_READ | STATE_WAITING_WRITE

definition PLAYER_WAITING :: u8 where "PLAYER_WAITING = 0"

definition PLAYER_FLYING :: u8 where "PLAYER_FLYING = 1"

text \<open>The states in the order of the enumeration.\<close>

fun state_number :: "disk_state \<Rightarrow> nat" where
  "state_number STATE_INIT = 0"
| "state_number STATE_WAITING_READ = 1"
| "state_number STATE_WAITING_WRITE = 2"

instantiation disk_state :: linorder
begin

definition less_eq_disk_state :: "disk_state \<Rightarrow> disk_state \<Rightarrow> bool" where
  "a \<le> b \<longleftrightarrow> state_number a \<le> state_number b"

definition less_disk_state :: "disk_state \<Rightarrow> disk_state \<Rightarrow> bool" where
  "a < b \<longleftrightarrow> state_number a < state_number b"

instance
proof
  fix a b :: disk_state
  assume "a \<le> b" and "b \<le> a"
  then show "a = b" by (cases a; cases b) (simp_all add: less_eq_disk_state_def)
qed (auto simp: less_eq_disk_state_def less_disk_state_def)

end

record bpb =
  bytes_per_sector :: u16
  sectors_per_cluster :: u8
  reserved_sectors :: u16
  num_fats :: u8
  root_dir_count :: u16
  total_sectors :: u16
  media_descriptor :: u8
  sectors_per_fat :: u16
  sectors_per_track :: u16
  num_heads :: u16

record fat_dirent =
  de_name :: "u8 list"
  de_attr :: u8
  de_res :: "u8 list"
  de_time :: u16
  de_date :: u16
  de_cluster :: u16
  de_size :: u32

record sop_multio =
  mu_max_players :: u8
  mu_num_players :: u8
  mu_last_player :: u8
  mu_key :: "u16 list"
  mu_state :: "u8 list"
  mu_explseed :: u8

text \<open>The static variables that the sectors use (\<^verbatim>\<open>cmd_buf\<close> is static in
  \<^verbatim>\<open>WriteData\<close>). The two counters are \<^verbatim>\<open>int\<close>s of 16 bits, as words.\<close>

record disk =
  locked :: bool
  reads :: u16
  writes :: u16
  dstate :: disk_state
  multio :: sop_multio
  cmd_buf :: "u16 list"

definition static_disk :: disk where
  "static_disk = \<lparr>locked = False, reads = 0, writes = 0, dstate = STATE_INIT,
     multio = \<lparr>mu_max_players = 0, mu_num_players = 0, mu_last_player = 0,
       mu_key = replicate 4 0, mu_state = replicate 4 0, mu_explseed = 0\<rparr>,
     cmd_buf = replicate MAX_PLAYERS 0\<rparr>"

definition SECTOR_BOOT :: u32 where "SECTOR_BOOT = 0"
definition SECTOR_FAT :: u32 where "SECTOR_FAT = 1"
definition SECTOR_DIRECTORY :: u32 where "SECTOR_DIRECTORY = 2"
definition SECTOR_SOPWITH1 :: u32 where "SECTOR_SOPWITH1 = 3"
definition SECTOR_SEMAPHOR :: u32 where "SECTOR_SEMAPHOR = 4"

lemmas sector_defs = SECTOR_BOOT_def SECTOR_FAT_def SECTOR_DIRECTORY_def SECTOR_SOPWITH1_def
  SECTOR_SEMAPHOR_def

section \<open>Packed structures\<close>

definition enc_bpb :: "bpb \<Rightarrow> u8 list" where
  "enc_bpb b = le16 (bytes_per_sector b) @ [sectors_per_cluster b] @ le16 (reserved_sectors b)
     @ [num_fats b] @ le16 (root_dir_count b) @ le16 (total_sectors b) @ [media_descriptor b]
     @ le16 (sectors_per_fat b) @ le16 (sectors_per_track b) @ le16 (num_heads b)"

definition dec_bpb :: "u8 list \<Rightarrow> bpb" where
  "dec_bpb bs =
    \<lparr>bytes_per_sector = of_le16 (slice 0 2 bs), sectors_per_cluster = bs ! 2,
     reserved_sectors = of_le16 (slice 3 2 bs), num_fats = bs ! 5,
     root_dir_count = of_le16 (slice 6 2 bs), total_sectors = of_le16 (slice 8 2 bs),
     media_descriptor = bs ! 10, sectors_per_fat = of_le16 (slice 11 2 bs),
     sectors_per_track = of_le16 (slice 13 2 bs), num_heads = of_le16 (slice 15 2 bs)\<rparr>"

definition enc_dirent :: "fat_dirent \<Rightarrow> u8 list" where
  "enc_dirent e = de_name e @ [de_attr e] @ de_res e @ le16 (de_time e) @ le16 (de_date e)
     @ le16 (de_cluster e) @ le32 (de_size e)"

definition dec_dirent :: "u8 list \<Rightarrow> fat_dirent" where
  "dec_dirent bs =
    \<lparr>de_name = slice 0 11 bs, de_attr = bs ! 11, de_res = slice 12 10 bs,
     de_time = of_le16 (slice 22 2 bs), de_date = of_le16 (slice 24 2 bs),
     de_cluster = of_le16 (slice 26 2 bs), de_size = of_le32 (slice 28 4 bs)\<rparr>"

definition wf_dirent :: "fat_dirent \<Rightarrow> bool" where
  "wf_dirent e \<longleftrightarrow> length (de_name e) = 11 \<and> length (de_res e) = 10"

definition enc_multio :: "sop_multio \<Rightarrow> u8 list" where
  "enc_multio mu = [mu_max_players mu, mu_num_players mu, mu_last_player mu]
     @ concat (map le16 (mu_key mu)) @ mu_state mu @ [mu_explseed mu]"

definition dec_multio :: "u8 list \<Rightarrow> sop_multio" where
  "dec_multio bs =
    \<lparr>mu_max_players = bs ! 0, mu_num_players = bs ! 1, mu_last_player = bs ! 2,
     mu_key = map (\<lambda>i. of_le16 (slice (3 + 2 * i) 2 bs)) [0..<4],
     mu_state = slice 11 4 bs, mu_explseed = bs ! 15\<rparr>"

definition wf_multio :: "sop_multio \<Rightarrow> bool" where
  "wf_multio mu \<longleftrightarrow> length (mu_key mu) = 4 \<and> length (mu_state mu) = 4"

section \<open>Reading\<close>

definition ReadBootSector :: "u8 list \<Rightarrow> bool \<times> u8 list" where
  "ReadBootSector data = (True, overwrite data 0x0b (enc_bpb
     \<lparr>bytes_per_sector = 512, sectors_per_cluster = 1, reserved_sectors = 1, num_fats = 1,
      root_dir_count = of_nat (NUM_GAMES + 1), total_sectors = 320, media_descriptor = 0xed,
      sectors_per_fat = 1, sectors_per_track = 10, num_heads = 1\<rparr>))"

definition bytes_of :: "string \<Rightarrow> u8 list" where
  "bytes_of s = map of_char s"

text \<open>The three fields that are set of directory entry \<open>i\<close>: the name, the cluster and the
  size; an entry has 32 bytes.\<close>

definition put_dirent :: "nat \<Rightarrow> u8 list \<Rightarrow> u16 \<Rightarrow> u32 \<Rightarrow> u8 list \<Rightarrow> u8 list" where
  "put_dirent i name cluster sz data =
     overwrite (overwrite (overwrite data (32 * i) name) (32 * i + 26) (le16 cluster))
       (32 * i + 28) (le32 sz)"

definition game_name :: "nat \<Rightarrow> u8 list" where
  "game_name i = (bytes_of ''SOPWITH0DTA'')[7 := bytes_of ''SOPWITH0DTA'' ! 7 + of_nat i]"

definition ReadDirectory :: "u8 list \<Rightarrow> bool \<times> u8 list" where
  "ReadDirectory data =
    (True, fold (\<lambda>i. put_dirent (i + 1) (game_name i) (ucast SECTOR_SOPWITH1) 512) [0..<NUM_GAMES]
       (put_dirent 0 (bytes_of ''SEMAPHOR   '') (ucast SECTOR_SEMAPHOR) 512 data))"

definition ReadSemaphore :: "u8 list \<Rightarrow> disk \<Rightarrow> bool \<times> u8 list" where
  "ReadSemaphore data d = (True, data[0 := (if locked d then 0xff else 0xfe)])"

definition ReadData :: "protocol \<Rightarrow> u8 list \<Rightarrow> disk \<Rightarrow> (bool \<times> u8 list \<times> disk) outcome" where
  "ReadData p data d =
    obind
      (case dstate d of
         STATE_INIT \<Rightarrow>
           if num_players p > MAX_PLAYERS then Fault OutOfBounds
           else Done (d\<lparr>multio := (multio d)
             \<lparr>mu_max_players := of_nat (num_players p),
              mu_state := fold (\<lambda>i st. st[i := (if i < consoleplayer p then PLAYER_FLYING
                else PLAYER_WAITING)]) [0..<num_players p] (mu_state (multio d)),
              mu_num_players := 1,
              mu_explseed := EXPL_RANDOM_SEED\<rparr>\<rparr>)
       | STATE_WAITING_READ \<Rightarrow>
           if num_players p = 0 then Fault DivideByZero
           else Done (d\<lparr>multio := (multio d)\<lparr>mu_last_player :=
                word_of_int ((int (consoleplayer p) + int (num_players p) - 1) mod int (num_players p))\<rparr>,
              dstate := STATE_WAITING_WRITE\<rparr>)
       | STATE_WAITING_WRITE \<Rightarrow> Done d)
      (\<lambda>d'. Done (True, overwrite data 0 (enc_multio (multio d')), d'))"

definition ReadSector ::
  "protocol \<Rightarrow> u8 list \<Rightarrow> u32 \<Rightarrow> u16 \<Rightarrow> disk \<Rightarrow> (bool \<times> u8 list \<times> disk) outcome" where
  "ReadSector p data sector cnt d =
    (if cnt \<noteq> 1 then Done (False, data, d)
     else if sector > 16 then Done (False, data, d)
     else
       (let d1 = d\<lparr>reads := reads d + 1\<rparr>;
            data1 = replicate 512 0
        in if sector = SECTOR_BOOT then (case ReadBootSector data1 of (b, x) \<Rightarrow> Done (b, x, d1))
           else if sector = SECTOR_FAT then Done (False, data1, d1)
           else if sector = SECTOR_DIRECTORY then (case ReadDirectory data1 of (b, x) \<Rightarrow> Done (b, x, d1))
           else if sector = SECTOR_SOPWITH1 then ReadData p data1 d1
           else if sector = SECTOR_SEMAPHOR then (case ReadSemaphore data1 d1 of (b, x) \<Rightarrow> Done (b, x, d1))
           else Done (False, data1, d1)))"

section \<open>Writing\<close>

definition WriteSemaphore :: "u8 list \<Rightarrow> disk \<Rightarrow> bool \<times> disk" where
  "WriteSemaphore data d =
    (if data ! 0 = 0xfe then (True, d\<lparr>locked := False\<rparr>)
     else if data ! 0 = 0xff then (True, d\<lparr>locked := True\<rparr>)
     else (False, d))"

text \<open>\<^verbatim>\<open>WriteData\<close> over the operation that exchanges the commands.\<close>

definition WriteData_with ::
  "(u16 \<Rightarrow> u16 list \<Rightarrow> protocol \<Rightarrow> (bool \<times> u16 list \<times> protocol) outcome) \<Rightarrow> protocol \<Rightarrow> u8 list \<Rightarrow> disk \<Rightarrow>
     (bool \<times> u8 list \<times> disk \<times> protocol) outcome" where
  "WriteData_with swap p data d =
    (let mu = dec_multio data;
         d0 = d\<lparr>multio := mu\<rparr>;
         n = num_players p
     in case dstate d of
          STATE_INIT \<Rightarrow>
            if n > MAX_PLAYERS then Fault OutOfBounds
            else
              (let mu' = mu\<lparr>mu_state := fold (\<lambda>i st. st[i := PLAYER_FLYING]) [0..<n] (mu_state mu),
                     mu_num_players := of_nat n, mu_last_player := word_of_int (int n - 1)\<rparr>
               in Done (True, overwrite data 0 (enc_multio mu'),
                        d0\<lparr>multio := mu', dstate := STATE_WAITING_READ\<rparr>, p))
        | _ \<Rightarrow>
            if consoleplayer p \<ge> 4 then Fault OutOfBounds
            else
              obind (swap (mu_key mu ! consoleplayer p) (cmd_buf d) p) (\<lambda>(ok, cmds, p').
                if \<not> ok then Done (False, data, d0\<lparr>cmd_buf := cmds\<rparr>, p')
                else if n > MAX_PLAYERS then Fault OutOfBounds
                else
                  (let mu' = mu\<lparr>mu_key := fold (\<lambda>i ks. ks[i := cmds ! i]) [0..<n] (mu_key mu),
                         mu_last_player := word_of_int (int n - 1)\<rparr>
                   in Done (True, overwrite data 0 (enc_multio mu'),
                            d0\<lparr>multio := mu', dstate := STATE_WAITING_READ, cmd_buf := cmds\<rparr>, p'))))"

definition WriteData ::
  "protocol \<Rightarrow> u8 list \<Rightarrow> disk \<Rightarrow> (bool \<times> u8 list \<times> disk \<times> protocol) outcome" where
  "WriteData = WriteData_with SwapCommand"

definition WriteSector_with ::
  "(u16 \<Rightarrow> u16 list \<Rightarrow> protocol \<Rightarrow> (bool \<times> u16 list \<times> protocol) outcome) \<Rightarrow>
     protocol \<Rightarrow> u8 list \<Rightarrow> u32 \<Rightarrow> u16 \<Rightarrow> disk \<Rightarrow> (bool \<times> u8 list \<times> disk \<times> protocol) outcome" where
  "WriteSector_with swap p data sector cnt d =
    (if cnt \<noteq> 1 then Done (False, data, d, p)
     else
       (let d1 = d\<lparr>writes := writes d + 1\<rparr>
        in if sector = SECTOR_SEMAPHOR then
             (case WriteSemaphore data d1 of (b, d2) \<Rightarrow> Done (b, data, d2, p))
           else if sector = SECTOR_SOPWITH1 then WriteData_with swap p data d1
           else Done (False, data, d1, p)))"

definition WriteSector ::
  "protocol \<Rightarrow> u8 list \<Rightarrow> u32 \<Rightarrow> u16 \<Rightarrow> disk \<Rightarrow> (bool \<times> u8 list \<times> disk \<times> protocol) outcome" where
  "WriteSector = WriteSector_with SwapCommand"

section \<open>The buffer\<close>

lemma list_4: "length xs = 4 \<Longrightarrow> \<exists>a b c d. xs = [a, b, c, d]"
  by (auto simp: eval_nat_numeral length_Suc_conv)

lemma map_upt_4: "map f [0..<4] = [f 0, f 1, f 2, f (3 :: nat)]"
  by (simp add: eval_nat_numeral)

interpretation mu: record_codec enc_multio dec_multio 16 wf_multio
proof
  fix v :: sop_multio and rest assume wf: "wf_multio v"
  then obtain a b c d e f g h where k: "mu_key v = [a, b, c, d]" "mu_state v = [e, f, g, h]"
    using list_4 [of "mu_key v"] list_4 [of "mu_state v"] by (auto simp: wf_multio_def)
  then show "length (enc_multio v) = 16" by (simp add: enc_multio_def)
  have le16: "le16 w = [ucast w, ucast (drop_bit 8 w)]" for w by (simp add: le16_def)
  have "of_le16 [ucast w, ucast (drop_bit 8 w)] = w" for w
    using c16.dec_enc [of w] by (simp add: le16_def)
  then show "dec_multio (enc_multio v @ rest) = v"
    by (cases v) (use k in \<open>simp add: dec_multio_def enc_multio_def map_upt_4 slice_def le16 eval_nat_numeral\<close>)
qed

lemma dec_multio_wf: "16 \<le> length data \<Longrightarrow> wf_multio (dec_multio data)"
  by (simp add: wf_multio_def dec_multio_def)

lemma length_fold_update [simp]: "length (fold (\<lambda>i st. st[i := f i]) is xs) = length xs"
  by (induction "is" arbitrary: xs) auto

text \<open>A loop that assigns the first \<open>n\<close> elements.\<close>

lemma fold_update_upt:
  "n \<le> length xs \<Longrightarrow> fold (\<lambda>i st. st[i := f i]) [0..<n] xs = map f [0..<n] @ drop n xs"
proof (induction n)
  case (Suc n)
  then have "drop n xs = xs ! n # drop (Suc n) xs" by (simp add: Cons_nth_drop_Suc)
  with Suc show ?case by (simp add: list_update_append)
qed simp

lemma nth_fold_update:
  "n \<le> length xs \<Longrightarrow> j < length xs \<Longrightarrow> fold (\<lambda>i st. st[i := f i]) [0..<n] xs ! j = (if j < n then f j else xs ! j)"
  by (simp add: fold_update_upt nth_append)

section \<open>What the disk needs of the protocol\<close>

text \<open>The contract of the exchange of commands, and what the disk makes of it.\<close>

locale command_exchange =
  fixes swap :: "u16 \<Rightarrow> u16 list \<Rightarrow> protocol \<Rightarrow> (bool \<times> u16 list \<times> protocol) outcome"
    and fit :: "protocol \<Rightarrow> bool"
  assumes swap_fit: "fit p \<Longrightarrow> swap cmd cs p = Done (b, cs', p') \<Longrightarrow> fit p'"
    and swap_true: "fit p \<Longrightarrow> swap cmd cs p = Done (b, cs', p') \<Longrightarrow> b"
    and swap_players: "swap cmd cs p = Done (b, cs', p') \<Longrightarrow>
      num_players p' = num_players p \<and> consoleplayer p' = consoleplayer p"
    and fit_players: "fit p \<Longrightarrow> consoleplayer p < num_players p \<and> num_players p \<le> MAX_PLAYERS"

text \<open>Whose turn it is, as the buffer says it: everybody has moved, or all up to the player
  before this one.\<close>

definition turn_ok :: "disk \<Rightarrow> protocol \<Rightarrow> bool" where
  "turn_ok d p \<longleftrightarrow> (case dstate d of
      STATE_INIT \<Rightarrow> True
    | STATE_WAITING_READ \<Rightarrow> mu_last_player (multio d) = of_nat (num_players p - 1)
    | STATE_WAITING_WRITE \<Rightarrow> mu_last_player (multio d)
        = of_nat ((consoleplayer p + num_players p - 1) mod num_players p))"

definition disk_ok :: "disk \<Rightarrow> protocol \<Rightarrow> bool" where
  "disk_ok d p \<longleftrightarrow> wf_multio (multio d) \<and> turn_ok d p"

lemma disk_ok_update [simp]:
  "disk_ok (d\<lparr>reads := r\<rparr>) p = disk_ok d p"
  "disk_ok (d\<lparr>writes := w\<rparr>) p = disk_ok d p"
  "disk_ok (d\<lparr>locked := l\<rparr>) p = disk_ok d p"
  by (simp_all add: disk_ok_def turn_ok_def split: disk_state.split)

lemma last_player_word:
  assumes "c < n" and "0 < n"
  shows "word_of_int ((int c + int n - 1) mod int n) = (of_nat ((c + n - 1) mod n) :: u8)"
    and "word_of_int (int n - 1) = (of_nat (n - 1) :: u8)"
proof -
  have "int c + int n - 1 = int (c + n - 1)" using assms(2) by (simp add: of_nat_diff)
  then have "(int c + int n - 1) mod int n = int ((c + n - 1) mod n)"
    by (simp only: of_nat_mod)
  then show "word_of_int ((int c + int n - 1) mod int n) = (of_nat ((c + n - 1) mod n) :: u8)"
    by (simp only: of_int_of_nat_eq)
  have "int n - 1 = int (n - 1)" using assms(2) by (simp add: of_nat_diff)
  then show "word_of_int (int n - 1) = (of_nat (n - 1) :: u8)" by (simp only: of_int_of_nat_eq)
qed

text \<open>What a read of the data sector makes of the state.\<close>

definition after_read :: "protocol \<Rightarrow> disk \<Rightarrow> disk" where
  "after_read p d = (case dstate d of
     STATE_INIT \<Rightarrow> d\<lparr>multio := (multio d)\<lparr>mu_max_players := of_nat (num_players p),
        mu_state := fold (\<lambda>i st. st[i := (if i < consoleplayer p then PLAYER_FLYING
          else PLAYER_WAITING)]) [0..<num_players p] (mu_state (multio d)),
        mu_num_players := 1, mu_explseed := EXPL_RANDOM_SEED\<rparr>\<rparr>
   | STATE_WAITING_READ \<Rightarrow> d\<lparr>multio := (multio d)\<lparr>mu_last_player :=
        of_nat ((consoleplayer p + num_players p - 1) mod num_players p)\<rparr>,
        dstate := STATE_WAITING_WRITE\<rparr>
   | STATE_WAITING_WRITE \<Rightarrow> d)"

lemma ReadData_eq:
  assumes "consoleplayer p < num_players p" and "num_players p \<le> MAX_PLAYERS"
  shows "ReadData p data d
    = Done (True, overwrite data 0 (enc_multio (multio (after_read p d))), after_read p d)"
proof (cases "dstate d")
  case STATE_WAITING_READ
  have "0 < num_players p" using assms(1) by simp
  from last_player_word(1) [OF assms(1) this] this show ?thesis
    unfolding ReadData_def after_read_def STATE_WAITING_READ by simp
qed (use assms in \<open>simp_all add: ReadData_def after_read_def not_less\<close>)

lemma after_read_ok:
  assumes "disk_ok d p"
  shows "disk_ok (after_read p d) p"
    and "dstate (after_read p d) = (if dstate d = STATE_WAITING_READ then STATE_WAITING_WRITE else dstate d)"
  using assms by (cases "dstate d"; simp add: after_read_def disk_ok_def turn_ok_def wf_multio_def)+

lemma ReadSector_cases:
  assumes "disk_ok d p" and "consoleplayer p < num_players p" and "num_players p \<le> MAX_PLAYERS"
  shows "\<exists>b data' d'. ReadSector p data sector cnt d = Done (b, data', d') \<and> disk_ok d' p
    \<and> (STATE_INIT < dstate d \<longrightarrow> STATE_INIT < dstate d')"
proof -
  show ?thesis
  proof (cases "cnt = 1 \<and> \<not> sector > 16 \<and> sector = SECTOR_SOPWITH1")
    case True
    let ?d = "d\<lparr>reads := reads d + 1\<rparr>"
    have "disk_ok ?d p" using assms(1) by simp
    note ok = after_read_ok [OF this]
    have "ReadSector p data sector cnt d = ReadData p (replicate 512 0) ?d"
      using True by (simp add: ReadSector_def sector_defs)
    with ok show ?thesis by (auto simp: ReadData_eq [OF assms(2,3)] less_disk_state_def)
  next
    case False
    then show ?thesis
      using assms(1) by (auto simp: ReadSector_def ReadBootSector_def ReadDirectory_def ReadSemaphore_def Let_def)
  qed
qed

text \<open>The buffer after the first write, and after an exchange.\<close>

definition all_flying :: "protocol \<Rightarrow> sop_multio \<Rightarrow> sop_multio" where
  "all_flying p mu = mu\<lparr>mu_state := fold (\<lambda>i st. st[i := PLAYER_FLYING]) [0..<num_players p] (mu_state mu),
     mu_num_players := of_nat (num_players p), mu_last_player := of_nat (num_players p - 1)\<rparr>"

definition exchanged :: "protocol \<Rightarrow> u16 list \<Rightarrow> sop_multio \<Rightarrow> sop_multio" where
  "exchanged p cmds mu = mu\<lparr>mu_key := fold (\<lambda>i ks. ks[i := cmds ! i]) [0..<num_players p] (mu_key mu),
     mu_last_player := of_nat (num_players p - 1)\<rparr>"

lemma all_flying_simps:
  assumes "wf_multio mu" and "num_players p \<le> MAX_PLAYERS"
  shows "wf_multio (all_flying p mu)" and "mu_last_player (all_flying p mu) = of_nat (num_players p - 1)"
    and "unat (mu_num_players (all_flying p mu)) = num_players p" and "mu_key (all_flying p mu) = mu_key mu"
    and "i < num_players p \<Longrightarrow> mu_state (all_flying p mu) ! i = PLAYER_FLYING"
  using assms by (simp_all add: wf_multio_def all_flying_def nth_fold_update MAX_PLAYERS_def)

lemma exchanged_simps:
  assumes "wf_multio mu" and "num_players p \<le> MAX_PLAYERS"
  shows "wf_multio (exchanged p cmds mu)" and "mu_last_player (exchanged p cmds mu) = of_nat (num_players p - 1)"
    and "mu_state (exchanged p cmds mu) = mu_state mu"
    and "i < 4 \<Longrightarrow> mu_key (exchanged p cmds mu) ! i = (if i < num_players p then cmds ! i else mu_key mu ! i)"
  using assms by (simp_all add: wf_multio_def exchanged_def nth_fold_update MAX_PLAYERS_def)

context command_exchange
begin

text \<open>The first write announces every player, all others exchange commands.\<close>

lemma WriteData_first:
  assumes "fit p" and "dstate d = STATE_INIT" and "16 \<le> length data"
  shows "WriteData_with swap p data d = Done (True, overwrite data 0 (enc_multio (all_flying p (dec_multio data))),
      d\<lparr>multio := all_flying p (dec_multio data), dstate := STATE_WAITING_READ\<rparr>, p)"
proof -
  have n: "0 < num_players p" "num_players p \<le> MAX_PLAYERS"
    using fit_players [OF assms(1)] by auto
  show ?thesis
    unfolding WriteData_with_def Let_def all_flying_def assms(2)
      last_player_word(2) [OF n(1) n(1)]
    using n(2) by (simp add: not_less)
qed

lemma WriteData_exchange:
  assumes "fit p" and "STATE_INIT < dstate d" and "16 \<le> length data"
    and call: "swap (mu_key (dec_multio data) ! consoleplayer p) (cmd_buf d) p = Done (b, cmds, p')"
  shows "WriteData_with swap p data d = Done (True, overwrite data 0 (enc_multio (exchanged p cmds (dec_multio data))),
      d\<lparr>multio := exchanged p cmds (dec_multio data), dstate := STATE_WAITING_READ, cmd_buf := cmds\<rparr>, p')"
proof -
  have n: "0 < num_players p" "num_players p \<le> MAX_PLAYERS" "consoleplayer p < 4"
    using fit_players [OF assms(1)] by (auto simp: MAX_PLAYERS_def)
  have b: "b" using swap_true [OF assms(1) call] .
  have "dstate d = STATE_WAITING_READ \<or> dstate d = STATE_WAITING_WRITE"
    using assms(2) by (cases "dstate d") (simp_all add: less_disk_state_def)
  then show ?thesis
    unfolding WriteData_with_def Let_def exchanged_def last_player_word(2) [OF n(1) n(1)]
    using n(2,3) b by (auto simp: not_less not_le call)
qed

lemma WriteData_keeps:
  assumes "fit p" and "16 \<le> length data" and ret: "WriteData_with swap p data d = Done (b, data', d', p')"
  shows "b" and "fit p'" and "disk_ok d' p'" and "dstate d' = STATE_WAITING_READ"
    and "num_players p' = num_players p \<and> consoleplayer p' = consoleplayer p"
proof -
  have n: "num_players p \<le> MAX_PLAYERS" using fit_players [OF assms(1)] by simp
  note mu = dec_multio_wf [OF assms(2)]
  have "b \<and> fit p' \<and> disk_ok d' p' \<and> dstate d' = STATE_WAITING_READ
      \<and> num_players p' = num_players p \<and> consoleplayer p' = consoleplayer p"
  proof (cases "dstate d = STATE_INIT")
    case True
    from WriteData_first [OF assms(1) True assms(2)] ret assms(1) show ?thesis
      using all_flying_simps(1,2) [OF mu n] by (auto simp: disk_ok_def turn_ok_def)
  next
    case False
    then have st: "STATE_INIT < dstate d" by (cases "dstate d") (simp_all add: less_disk_state_def)
    obtain c cmds q where call: "swap (mu_key (dec_multio data) ! consoleplayer p) (cmd_buf d) p = Done (c, cmds, q)"
      using ret False by (cases "dstate d") (auto simp: WriteData_with_def Let_def obind_eq_Done split: if_splits)
    from WriteData_exchange [OF assms(1) st assms(2) call] ret swap_fit [OF assms(1) call] swap_players [OF call]
    show ?thesis using exchanged_simps(1,2) [OF mu n] by (auto simp: disk_ok_def turn_ok_def)
  qed
  then show "b" "fit p'" "disk_ok d' p'" "dstate d' = STATE_WAITING_READ"
    "num_players p' = num_players p \<and> consoleplayer p' = consoleplayer p" by auto
qed

lemma WriteSector_keeps:
  assumes "fit p" and "disk_ok d p" and "16 \<le> length data"
    and "WriteSector_with swap p data sector cnt d = Done (b, data', d', p')"
  shows "fit p' \<and> disk_ok d' p' \<and> (STATE_INIT < dstate d \<longrightarrow> STATE_INIT < dstate d')
    \<and> num_players p' = num_players p \<and> consoleplayer p' = consoleplayer p"
proof -
  have upd: "disk_ok (d\<lparr>writes := w, locked := l\<rparr>) p = disk_ok d p"
    for w l using disk_ok_update(2) [where d = d] disk_ok_update(3) [where d = "d\<lparr>writes := w\<rparr>"] by simp
  show ?thesis
  proof (cases "cnt = 1 \<and> sector = SECTOR_SOPWITH1")
    case True
    then have "WriteData_with swap p data (d\<lparr>writes := writes d + 1\<rparr>) = Done (b, data', d', p')"
      using assms(4) by (simp add: WriteSector_with_def sector_defs)
    from WriteData_keeps [OF assms(1,3) this] show ?thesis by (simp add: less_disk_state_def)
  next
    case False
    with assms upd show ?thesis
      by (auto simp: WriteSector_with_def WriteSemaphore_def Let_def split: if_splits)
  qed
qed

end

section \<open>\<^verbatim>\<open>SwapCommand\<close> keeps the contract\<close>

definition exchange_fit :: "protocol \<Rightarrow> bool" where
  "exchange_fit p \<longleftrightarrow> wf_protocol p \<and> maketic p - gametic p = of_nat DELAY
     \<and> (\<forall>a \<in> set (answers (driver p)). proper_answer (num_nodes p) a)"

lemma register_node_wf:
  assumes "wf_protocol s" and i: "i < MAX_PLAYERS" and reg: "register_node cmd i s = Done s'"
  shows "wf_protocol s'"
proof -
  define n where "n = nodes s ! i"
  define w where "w = (if i = 0 then recv_window n else send_window n)"
  define k where "k = int16_of_u32 (maketic s - w_start w)"
  have n: "wf_node n" using wf_nth [OF assms(1) i] by (simp add: n_def)
  then have w: "length (w_cmds w) = 16" by (auto simp: w_def wf_node_def wf_window_def MAX_DELAY_def)
  show ?thesis
  proof (cases "k > uint (w_len w)")
    case False
    then show ?thesis
      using reg assms(1) by (simp add: register_node_def Let_def n_def [symmetric] w_def [symmetric] k_def [symmetric])
  next
    case True
    have k0: "0 \<le> k" using True unsigned_greater_eq [of "w_len w", where ?'a = int] by linarith
    have "k \<le> 16"
      using reg w True by (auto simp: register_node_def Let_def n_def [symmetric] w_def [symmetric]
          k_def [symmetric] split: if_splits)
    with k0 have k: "0 \<le> k" "k \<le> 16" by simp_all
    define w' where "w' = w\<lparr>w_cmds := (w_cmds w)[nat (k - 1) := cmd], w_len := word_of_int k\<rparr>"
    define n' where "n' = (if i = 0 then n\<lparr>recv_window := w'\<rparr> else n\<lparr>send_window := w'\<rparr>)"
    have "unat (word_of_int k :: u8) \<le> 16"
    proof -
      have "word_of_int k = (of_nat (nat k) :: u8)" using k(1) by (metis nat_0_le of_int_of_nat_eq)
      moreover have "unat (of_nat (nat k) :: u8) = nat k" by (rule unat_of_nat_u8) (use k in simp)
      ultimately show ?thesis using k by simp
    qed
    then have "wf_window w'" using w by (simp add: w'_def wf_window_def MAX_DELAY_def)
    then have "wf_protocol (s\<lparr>nodes := (nodes s)[i := n']\<rparr>)"
      using n assms(1) i by (intro wf_update) (auto simp: n'_def wf_node_def wf_protocol_def n_def)
    moreover have "(if i \<noteq> 0 then SendPacket i (s\<lparr>nodes := (nodes s)[i := n']\<rparr>)
        else Done (s\<lparr>nodes := (nodes s)[i := n']\<rparr>)) = Done s'"
      using reg True k w by (simp add: register_node_def Let_def n_def [symmetric] w_def [symmetric]
          k_def [symmetric] w'_def [symmetric] n'_def split: if_splits)
    ultimately show ?thesis
      using SendPacket_total [of _ i] i by (fastforce split: if_splits)
  qed
qed

lemma swap_register_wf:
  assumes "wf_protocol s" and "swap_register cmd s = Done s'"
  shows "wf_protocol s'"
proof -
  have n: "num_nodes s \<le> MAX_PLAYERS" using assms(1) by (simp add: wf_protocol_def)
  show ?thesis
  proof (rule ofold_invariant [where P = wf_protocol, OF _ assms(1) assms(2) [unfolded swap_register_def]])
    fix i t t' assume "i \<in> set [0..<num_nodes s]" "wf_protocol t" "register_node cmd i t = Done t'"
    with n show "wf_protocol t'" by (intro register_node_wf [of t i cmd t']) auto
  qed
qed

lemma ReceivePackets_fit: "exchange_fit p \<Longrightarrow> ReceivePackets p = Done p' \<Longrightarrow> exchange_fit p'"
  using ReceivePackets_total [of p] counters_ReceivePackets [of p p']
  by (auto simp: exchange_fit_def counters_def)

lemma swap_wait_fit:
  assumes "exchange_fit p" and "swap_wait p = Done p'"
  shows "exchange_fit p' \<and> NewTicReady p'"
  using assms
proof (induction p rule: swap_wait.induct)
  case (1 p)
  show ?case
  proof (cases "NewTicReady p \<or> answers (driver p) = []")
    case True
    with "1.prems" show ?thesis by (simp add: swap_wait.simps [of p] split: if_splits)
  next
    case False
    with "1.prems" obtain t where "ReceivePackets p = Done t" "swap_wait t = Done p'"
      by (auto simp: swap_wait.simps [of p] obind_eq_Done)
    with "1.IH" False ReceivePackets_fit "1.prems" show ?thesis by auto
  qed
qed

lemma SwapCommand_fit:
  assumes fit: "exchange_fit p" and call: "SwapCommand cmd cs p = Done (b, cs', p')"
  shows "b" and "exchange_fit p'"
proof -
  have "\<not> maketic p - gametic p \<ge> of_nat MAX_DELAY"
    using fit by (simp add: exchange_fit_def DELAY_def MAX_DELAY_def)
  with call obtain s1 s2 where s: "b" "swap_register cmd p = Done s1" "swap_wait s1 = Done s2"
      "swap_collect s2 = Done (cs', p')"
    by (auto simp: SwapCommand_def obind_eq_Done)
  from s(1) show b .
  have "exchange_fit s1"
    using fit swap_register_wf [OF _ s(2)] swap_register_answers [OF s(2)] counters_swap_register [OF s(2)]
    by (simp add: exchange_fit_def counters_def)
  from swap_wait_fit [OF this s(3)] have s2: "exchange_fit s2" "NewTicReady s2" by auto
  have "wf_protocol s2" using s2 by (simp add: exchange_fit_def)
  note c = swap_collect_eq [OF this s2(2)]
  from c(1) s(4) have p': "p' = (popped_upto (num_nodes s2) s2)\<lparr>maketic := maketic s2 + 1, gametic := gametic s2 + 1\<rparr>"
    by simp
  have "wf_protocol p'" unfolding p' by (rule c(2))
  with s2(1) show "exchange_fit p'" by (simp add: exchange_fit_def p' popped_upto_def)
qed

lemma SwapCommand_players:
  assumes "SwapCommand cmd cs p = Done (b, cs', p')"
  shows "num_players p' = num_players p \<and> consoleplayer p' = consoleplayer p"
proof (cases b)
  case True
  with assms counters_SwapCommand [of cmd cs p cs' p'] show ?thesis by (simp add: counters_def)
next
  case False
  with assms show ?thesis by (auto simp: SwapCommand_def obind_eq_Done split: if_splits)
qed

interpretation sw: command_exchange SwapCommand exchange_fit
  by unfold_locales (rule SwapCommand_fit(2), assumption+, rule SwapCommand_fit(1), assumption+,
      erule SwapCommand_players, simp add: exchange_fit_def wf_protocol_def)

lemma WriteData_eq: "WriteData_with SwapCommand = WriteData"
  by (simp add: WriteData_def)

section \<open>The disk in use\<close>

text \<open>What can happen to the disk and the protocol: the game reads or writes a sector, a disk
  interrupt polls the driver, and the driver gets new answers.\<close>

inductive disk_step :: "disk \<times> protocol \<Rightarrow> disk \<times> protocol \<Rightarrow> bool" where
  disk_read: "ReadSector p data sector cnt d = Done (b, data', d') \<Longrightarrow> disk_step (d, p) (d', p)"
| disk_write: "length data = 512 \<Longrightarrow> WriteSector p data sector cnt d = Done (b, data', d', p') \<Longrightarrow>
    disk_step (d, p) (d', p')"
| disk_poll: "ReceivePackets p = Done p' \<Longrightarrow> disk_step (d, p) (d, p')"
| disk_input: "\<forall>a \<in> set as. proper_answer (num_nodes p) a \<Longrightarrow>
    disk_step (d, p) (d, p\<lparr>driver := (driver p)\<lparr>answers := as\<rparr>, clock := c\<rparr>)"

inductive_cases disk_stepE: "disk_step (d, p) x"

definition disk_start :: "disk \<times> protocol \<Rightarrow> bool" where
  "disk_start = (\<lambda>(d, p). d = static_disk \<and> (\<exists>fake dc0 dc c. length (dc_data dc) = DATA_SIZE
     \<and> InitProtocol dc (static_protocol fake dc0 idle_driver c) = Done p))"

definition disk_inv :: "disk \<times> protocol \<Rightarrow> bool" where
  "disk_inv = (\<lambda>(d, p). disk_ok d p \<and> exchange_fit p)"

lemma disk_start_inv: "disk_start x \<Longrightarrow> disk_inv x"
proof (cases x)
  fix d p assume "disk_start x" and x: "x = (d, p)"
  then obtain fake dc0 dc c where i: "d = static_disk" "length (dc_data dc) = DATA_SIZE"
      "InitProtocol dc (static_protocol fake dc0 idle_driver c) = Done p"
    by (auto simp: disk_start_def)
  then have dc: "proper_doomcom dc" using InitProtocol_fails by fastforce
  with i(3) have "p = fresh_protocol fake dc idle_driver c" by (simp add: InitProtocol_ok)
  then have "exchange_fit p"
    using fresh_protocol_wf [OF dc i(2)] by (simp add: exchange_fit_def)
      (simp add: fresh_protocol_def idle_driver_def DELAY_def)
  then show ?thesis using i(1) x by (simp add: disk_inv_def disk_ok_def static_disk_def wf_multio_def turn_ok_def)
qed

lemma disk_ok_players:
  "num_players p' = num_players p \<Longrightarrow> consoleplayer p' = consoleplayer p \<Longrightarrow> disk_ok d p' = disk_ok d p"
  by (simp add: disk_ok_def turn_ok_def split: disk_state.split)

lemma disk_step_inv: "disk_step x y \<Longrightarrow> disk_inv x \<Longrightarrow> disk_inv y"
proof (induction rule: disk_step.induct)
  case (disk_read p data sector cnt d b data' d')
  then have "consoleplayer p < num_players p" "num_players p \<le> MAX_PLAYERS" "disk_ok d p" "exchange_fit p"
    using sw.fit_players [of p] by (auto simp: disk_inv_def)
  with ReadSector_cases [of d p data sector cnt] disk_read.hyps show ?case by (auto simp: disk_inv_def)
next
  case (disk_write data p sector cnt d b data' d' p')
  then have "disk_ok d p" "exchange_fit p" "16 \<le> length data" by (auto simp: disk_inv_def)
  from sw.WriteSector_keeps [OF this(2,1,3) disk_write.hyps(2) [unfolded WriteSector_def]]
  show ?case by (simp add: disk_inv_def)
next
  case (disk_poll p p' d)
  then have "exchange_fit p'" by (auto simp: disk_inv_def intro: ReceivePackets_fit)
  moreover have "num_players p' = num_players p \<and> consoleplayer p' = consoleplayer p"
    using counters_ReceivePackets [OF disk_poll.hyps] by (simp add: counters_def)
  ultimately show ?case using disk_poll.prems disk_ok_players [of p' p d] by (simp add: disk_inv_def)
next
  case (disk_input as p d c)
  then show ?case
    using disk_ok_players [of "p\<lparr>driver := (driver p)\<lparr>answers := as\<rparr>, clock := c\<rparr>" p d]
    by (auto simp: disk_inv_def exchange_fit_def wf_protocol_def)
qed

interpretation disk_safe: invariant disk_start disk_step disk_inv
  by unfold_locales (rule disk_start_inv, assumption, rule disk_step_inv, assumption+)

text \<open>A disk in use: after the first write, with the packet of the other player waiting.\<close>

definition sample_data :: "u16 \<Rightarrow> u8 list" where
  "sample_data cmd = overwrite (replicate 512 0) 3 (le16 cmd)"

definition sample_answer :: answer where
  "sample_answer = \<lparr>ans_node = 1, ans_bytes = peer_packet\<rparr>"

lemma sample_data_key: "length (sample_data cmd) = 512" "mu_key (dec_multio (sample_data cmd)) ! 0 = cmd"
proof -
  have "3 + 2 \<le> length (replicate 512 (0 :: u8))" by simp
  from c16.load_store [OF this, of cmd] show "mu_key (dec_multio (sample_data cmd)) ! 0 = cmd"
    by (simp add: dec_multio_def sample_data_def map_upt_4)
qed (simp add: sample_data_def)

lemma sample_start: "reach disk_start disk_step (static_disk, sample_protocol [sample_answer])"
proof -
  let ?p = "fresh_protocol 0 (sample_doomcom 2 0) idle_driver (\<lambda>_. 0)"
  have "InitProtocol (sample_doomcom 2 0) (static_protocol 0 (sample_doomcom 2 0) idle_driver (\<lambda>_. 0)) = Done ?p"
    using sample_doomcom_proper by (rule InitProtocol_ok)
  moreover have "length (dc_data (sample_doomcom 2 0)) = DATA_SIZE" by (simp add: sample_doomcom_def)
  ultimately have "disk_start (static_disk, ?p)" unfolding disk_start_def by blast
  then have r: "reach disk_start disk_step (static_disk, ?p)" by (rule reach_init)
  have a: "\<forall>a \<in> set [sample_answer]. proper_answer (num_nodes ?p) a"
    by (simp add: sample_answer_def proper_answer_def fresh_protocol_def sample_doomcom_def peer_packet_def DATA_SIZE_def)
  have "?p\<lparr>driver := (driver ?p)\<lparr>answers := [sample_answer]\<rparr>, clock := \<lambda>k. of_nat k\<rparr> = sample_protocol [sample_answer]"
    by (simp add: sample_protocol_def fresh_protocol_def idle_driver_def)
  with disk_step.disk_input [OF a, of static_disk "\<lambda>k. of_nat k"] r show ?thesis by (metis reach_step)
qed

lemma sample_joined:
  obtains d where "reach disk_start disk_step (d, sample_protocol [sample_answer])" and "STATE_INIT < dstate d"
proof -
  let ?p = "sample_protocol [sample_answer]" and ?data = "sample_data 0"
  have fit: "exchange_fit ?p" using disk_safe.reach_inv [OF sample_start] by (simp add: disk_inv_def)
  let ?d = "static_disk\<lparr>writes := 1, multio := all_flying ?p (dec_multio ?data), dstate := STATE_WAITING_READ\<rparr>"
  have "WriteSector ?p ?data SECTOR_SOPWITH1 1 static_disk
      = WriteData_with SwapCommand ?p ?data (static_disk\<lparr>writes := 1\<rparr>)"
    by (simp add: WriteSector_def WriteSector_with_def sector_defs static_disk_def)
  also have "\<dots> = Done (True, overwrite ?data 0 (enc_multio (all_flying ?p (dec_multio ?data))), ?d, ?p)"
    by (rule sw.WriteData_first [OF fit]) (simp_all add: static_disk_def sample_data_key)
  finally have "disk_step (static_disk, ?p) (?d, ?p)"
    by (rule disk_step.disk_write [OF sample_data_key(1)])
  with sample_start show thesis by (intro that [of ?d]) (auto intro: reach_step simp: less_disk_state_def)
qed

lemma SwapCommand_buffer:
  assumes "SwapCommand cmd cs p = Done (True, cs', p')"
  shows "SwapCommand cmd cs2 p = Done (True, cs', p')"
  using assms by (auto simp: SwapCommand_def split: if_splits)

section \<open>Properties\<close>

lemma turn_arith:
  fixes c n :: nat assumes "c < n"
  shows "Suc ((c + n - 1) mod n) mod n = c"
proof (cases c)
  case 0
  then show ?thesis using assms by simp
next
  case (Suc k)
  then have "(c + n - 1) mod n = k" using assms by simp
  with Suc assms show ?thesis by simp
qed

text \<open>C9: turns. Once the game has joined, every read of the data sector succeeds and tells it
  that the player before its own was the last to move, so it is its turn; the disk then waits
  for its command.\<close>

theorem disk_turns:
  assumes "reach disk_start disk_step (d, p)" and "STATE_INIT < dstate d"
  shows "\<exists>data' d'. ReadSector p data SECTOR_SOPWITH1 1 d = Done (True, data', d')
    \<and> dstate d' = STATE_WAITING_WRITE
    \<and> Suc (unat (mu_last_player (dec_multio data'))) mod num_players p = consoleplayer p"
proof -
  from disk_safe.reach_inv [OF assms(1)] have inv: "disk_ok d p" "exchange_fit p" by (auto simp: disk_inv_def)
  from sw.fit_players [OF inv(2)] have n: "consoleplayer p < num_players p" "num_players p \<le> MAX_PLAYERS" by auto
  let ?d = "d\<lparr>reads := reads d + 1\<rparr>"
  have ok: "disk_ok ?d p" using inv(1) by simp
  note read = after_read_ok [OF ok]
  have st: "dstate (after_read p ?d) = STATE_WAITING_WRITE"
    using read(2) assms(2) by (cases "dstate d") (simp_all add: less_disk_state_def)
  have "mu_last_player (multio (after_read p ?d)) = of_nat ((consoleplayer p + num_players p - 1) mod num_players p)"
    using read(1) st by (simp add: disk_ok_def turn_ok_def)
  moreover have "(consoleplayer p + num_players p - 1) mod num_players p < 256"
    using n by (intro less_le_trans [OF mod_less_divisor]) (auto simp: MAX_PLAYERS_def)
  moreover have "ReadSector p data SECTOR_SOPWITH1 1 d
      = Done (True, overwrite (replicate 512 0) 0 (enc_multio (multio (after_read p ?d))), after_read p ?d)"
    by (simp add: ReadSector_def sector_defs ReadData_eq [OF n] Let_def)
  moreover have "wf_multio (multio (after_read p ?d))" using read(1) by (simp add: disk_ok_def)
  ultimately show ?thesis using st turn_arith [OF n(1)] by (simp add: mu.dec_store)
qed

theorem disk_turns_witness:
  "\<exists>d. STATE_INIT < dstate d \<and> (\<exists>data' d'.
     ReadSector (sample_protocol [sample_answer]) [] SECTOR_SOPWITH1 1 d = Done (True, data', d')
     \<and> Suc (unat (mu_last_player (dec_multio data'))) mod 2 = 0)"
proof (rule sample_joined)
  fix d assume d: "reach disk_start disk_step (d, sample_protocol [sample_answer])" "STATE_INIT < dstate d"
  have p: "num_players (sample_protocol as) = 2" "consoleplayer (sample_protocol as) = 0" for as
    by (simp_all add: sample_protocol_def fresh_protocol_def sample_doomcom_def)
  from disk_turns [OF d, of "[]"] obtain data' d' where
    "ReadSector (sample_protocol [sample_answer]) [] SECTOR_SOPWITH1 1 d = Done (True, data', d')"
    "Suc (unat (mu_last_player (dec_multio data'))) mod 2 = 0"
    unfolding p by (elim exE conjE)
  with d(2) show ?thesis
    by (intro exI [of _ d] conjI exI [of _ data'] exI [of _ d'])
qed

text \<open>C8: a write of the data sector is one exchange. It never fails: it returns what
  \<^verbatim>\<open>SwapCommand\<close> makes of the player's own command, so that the buffer holds the
  commands of all players for the tic, says that the last player has moved, and keeps the rest
  of what was written.\<close>

theorem disk_write_exchanges:
  assumes "reach disk_start disk_step (d, p)" and "STATE_INIT < dstate d" and "length data = 512"
    and "WriteSector p data SECTOR_SOPWITH1 1 d = Done (b, data', d', p')"
  shows "b \<and> (\<exists>cmds. SwapCommand (mu_key (dec_multio data) ! consoleplayer p) (cmd_buf d) p = Done (True, cmds, p')
      \<and> dec_multio data' = (dec_multio data)
          \<lparr>mu_key := map (\<lambda>i. if i < num_players p then cmds ! i else mu_key (dec_multio data) ! i) [0..<4],
           mu_last_player := of_nat (num_players p - 1)\<rparr>
      \<and> dstate d' = STATE_WAITING_READ \<and> drop 16 data' = drop 16 data)"
proof -
  from disk_safe.reach_inv [OF assms(1)] have inv: "disk_ok d p" "exchange_fit p" by (auto simp: disk_inv_def)
  have n: "num_players p \<le> MAX_PLAYERS" using sw.fit_players [OF inv(2)] by simp
  have len: "16 \<le> length data" using assms(3) by simp
  let ?d = "d\<lparr>writes := writes d + 1\<rparr>" and ?mu = "dec_multio data"
  have ret: "WriteData_with SwapCommand p data ?d = Done (b, data', d', p')"
    using assms(4) by (simp add: WriteSector_def WriteSector_with_def sector_defs)
  have "dstate d = STATE_WAITING_READ \<or> dstate d = STATE_WAITING_WRITE"
    using assms(2) by (cases "dstate d") (simp_all add: less_disk_state_def)
  with ret obtain c cmds q where call: "SwapCommand (mu_key ?mu ! consoleplayer p) (cmd_buf ?d) p = Done (c, cmds, q)"
    by (auto simp: WriteData_with_def Let_def obind_eq_Done split: if_splits)
  have "STATE_INIT < dstate ?d" using assms(2) by simp
  from sw.WriteData_exchange [OF inv(2) this len call] ret
  have r: "b" "data' = overwrite data 0 (enc_multio (exchanged p cmds ?mu))" "dstate d' = STATE_WAITING_READ" "q = p'"
    by auto
  note ex = exchanged_simps [OF dec_multio_wf [OF len] n, where cmds = cmds]
  have "mu_key (exchanged p cmds ?mu)
      = map (\<lambda>i. if i < num_players p then cmds ! i else mu_key ?mu ! i) [0..<4]"
    using ex(1,4) by (intro nth_equalityI) (simp_all add: wf_multio_def)
  then have "exchanged p cmds ?mu = ?mu
     \<lparr>mu_key := map (\<lambda>i. if i < num_players p then cmds ! i else mu_key ?mu ! i) [0..<4],
      mu_last_player := of_nat (num_players p - 1)\<rparr>"
    by (simp add: exchanged_def)
  moreover have "dec_multio data' = exchanged p cmds ?mu"
    unfolding r(2) using ex(1) by (rule mu.dec_store)
  moreover have "drop 16 data' = drop 16 data"
    unfolding r(2) using mu.valid_width [OF ex(1)] by (simp add: overwrite_def)
  moreover have "c" using sw.swap_true [OF inv(2) call] .
  ultimately show ?thesis using r call by (intro conjI exI [of _ cmds]) simp_all
qed

theorem disk_write_exchanges_witness:
  "\<exists>d data' d' p'. WriteSector (sample_protocol [sample_answer]) (sample_data 9) SECTOR_SOPWITH1 1 d
      = Done (True, data', d', p') \<and> mu_key (dec_multio data') ! 0 = 0 \<and> mu_key (dec_multio data') ! 1 = 0"
proof (rule sample_joined)
  fix d assume d: "reach disk_start disk_step (d, sample_protocol [sample_answer])" "STATE_INIT < dstate d"
  let ?p = "sample_protocol [sample_answer]" and ?d = "d\<lparr>writes := writes d + 1\<rparr>"
  have p: "num_players ?p = 2" "consoleplayer ?p = 0"
    by (simp_all add: sample_protocol_def fresh_protocol_def sample_doomcom_def)
  from sample_swap obtain q where "SwapCommand 9 [] ?p = Done (True, [0, 0, 0, 0], q)"
    by (auto simp: sample_answer_def split: outcome.splits)
  from SwapCommand_buffer [OF this, of "cmd_buf ?d"]
  have call: "SwapCommand (mu_key (dec_multio (sample_data 9)) ! consoleplayer ?p) (cmd_buf ?d) ?p
      = Done (True, [0, 0, 0, 0], q)"
    by (simp only: p sample_data_key)
  have "exchange_fit ?p" using disk_safe.reach_inv [OF d(1)] by (simp add: disk_inv_def)
  from sw.WriteData_exchange [OF this _ _ call] d(2) obtain data' d' where
    w: "WriteSector ?p (sample_data 9) SECTOR_SOPWITH1 1 d = Done (True, data', d', q)"
    by (simp add: WriteSector_def WriteSector_with_def sector_defs sample_data_key)
  from disk_write_exchanges [OF d sample_data_key(1) w] call have
    "dec_multio data' = (dec_multio (sample_data 9))
       \<lparr>mu_key := map (\<lambda>i. if i < 2 then [0, 0, 0, 0] ! i else mu_key (dec_multio (sample_data 9)) ! i) [0..<4],
        mu_last_player := of_nat (2 - 1)\<rparr>"
    unfolding p by auto
  with w show ?thesis by (intro exI [of _ d] exI [of _ data'] exI [of _ d'] exI [of _ q]) (simp add: map_upt_4)
qed

text \<open>C10: joining. As long as the game has not written, a read of the data sector tells it
  that exactly the players before its own are there, so that it takes the player number of this
  machine, that there is no first player left to be, and which random seed to use; its first
  write then returns a buffer in which all players are there.\<close>

theorem disk_join:
  assumes "reach disk_start disk_step (d, p)" and "dstate d = STATE_INIT" and "length data = 512"
  shows "\<exists>rd d' wr d''. ReadSector p rd0 SECTOR_SOPWITH1 1 d = Done (True, rd, d')
    \<and> dstate d' = STATE_INIT
    \<and> unat (mu_max_players (dec_multio rd)) = num_players p \<and> mu_num_players (dec_multio rd) = 1
    \<and> mu_explseed (dec_multio rd) = EXPL_RANDOM_SEED
    \<and> (\<forall>i < num_players p. mu_state (dec_multio rd) ! i
          = (if i < consoleplayer p then PLAYER_FLYING else PLAYER_WAITING))
    \<and> WriteSector p data SECTOR_SOPWITH1 1 d = Done (True, wr, d'', p)
    \<and> unat (mu_num_players (dec_multio wr)) = num_players p
    \<and> (\<forall>i < num_players p. mu_state (dec_multio wr) ! i = PLAYER_FLYING)
    \<and> dstate d'' = STATE_WAITING_READ"
proof -
  from disk_safe.reach_inv [OF assms(1)] have inv: "disk_ok d p" "exchange_fit p" by (auto simp: disk_inv_def)
  from sw.fit_players [OF inv(2)] have n: "consoleplayer p < num_players p" "num_players p \<le> MAX_PLAYERS" by auto
  let ?r = "d\<lparr>reads := reads d + 1\<rparr>" and ?w = "d\<lparr>writes := writes d + 1\<rparr>"
  have "disk_ok ?r p" using inv(1) by simp
  then have wf: "wf_multio (multio (after_read p ?r))" "wf_multio (multio d)"
    using inv(1) after_read_ok(1) by (auto simp: disk_ok_def)
  have read: "ReadSector p rd0 SECTOR_SOPWITH1 1 d
      = Done (True, overwrite (replicate 512 0) 0 (enc_multio (multio (after_read p ?r))), after_read p ?r)"
    by (simp add: ReadSector_def sector_defs ReadData_eq [OF n] Let_def)
  have "mu_state (multio (after_read p ?r)) ! i = (if i < consoleplayer p then PLAYER_FLYING else PLAYER_WAITING)"
    if "i < num_players p" for i
    using that n wf(2) assms(2) by (simp add: after_read_def nth_fold_update wf_multio_def MAX_PLAYERS_def)
  moreover have "unat (mu_max_players (multio (after_read p ?r))) = num_players p"
    "mu_num_players (multio (after_read p ?r)) = 1" "dstate (after_read p ?r) = STATE_INIT"
    "mu_explseed (multio (after_read p ?r)) = EXPL_RANDOM_SEED"
    using assms(2) n by (simp_all add: after_read_def MAX_PLAYERS_def)
  moreover
  have len: "16 \<le> length data" using assms(3) by simp
  have "dstate ?w = STATE_INIT" using assms(2) by simp
  from sw.WriteData_first [OF inv(2) this len]
  have "WriteSector p data SECTOR_SOPWITH1 1 d
      = Done (True, overwrite data 0 (enc_multio (all_flying p (dec_multio data))),
          ?w\<lparr>multio := all_flying p (dec_multio data), dstate := STATE_WAITING_READ\<rparr>, p)"
    by (simp add: WriteSector_def WriteSector_with_def sector_defs)
  moreover note all_flying_simps [OF dec_multio_wf [OF len] n(2)]
  ultimately show ?thesis using read wf(1) by (simp add: mu.dec_store)
qed

theorem disk_join_witness:
  "\<exists>rd d'. ReadSector (sample_protocol [sample_answer]) [] SECTOR_SOPWITH1 1 static_disk = Done (True, rd, d')
    \<and> mu_num_players (dec_multio rd) = 1 \<and> mu_state (dec_multio rd) ! 0 = PLAYER_WAITING"
proof -
  have p: "num_players (sample_protocol as) = 2" "consoleplayer (sample_protocol as) = 0" for as
    by (simp_all add: sample_protocol_def fresh_protocol_def sample_doomcom_def)
  have "dstate static_disk = STATE_INIT" by (simp add: static_disk_def)
  from disk_join [OF sample_start this sample_data_key(1) [of 0], of "[]"] obtain rd d' where
    r: "ReadSector (sample_protocol [sample_answer]) [] SECTOR_SOPWITH1 1 static_disk = Done (True, rd, d')"
      "mu_num_players (dec_multio rd) = 1"
    and flying: "\<forall>i < 2. mu_state (dec_multio rd) ! i = (if i < 0 then PLAYER_FLYING else PLAYER_WAITING)"
    unfolding p by (elim exE conjE)
  from flying have "mu_state (dec_multio rd) ! 0 = PLAYER_WAITING" by simp
  with r show ?thesis by (intro exI [of _ rd] exI [of _ d'] conjI)
qed

text \<open>The semaphore. The lock handshake of the game works in every state: free reads as
  0xfe, taking it by writing 0xff makes the next read return 0xff, and writing 0xfe frees it; any
  other byte is refused and changes nothing.\<close>

lemma semaphore_handshake:
  "\<exists>d1. WriteSector p data SECTOR_SEMAPHOR 1 d = Done (data ! 0 = 0xfe \<or> data ! 0 = 0xff, data, d1, p)
    \<and> locked d1 = (data ! 0 = 0xff \<or> (locked d \<and> data ! 0 \<noteq> 0xfe))
    \<and> dstate d1 = dstate d \<and> multio d1 = multio d
    \<and> (\<exists>d2. ReadSector p buf SECTOR_SEMAPHOR 1 d1
         = Done (True, (if locked d1 then 0xff else 0xfe) # replicate 511 0, d2) \<and> locked d2 = locked d1)"
proof -
  have "replicate 512 (0 :: u8) = 0 # replicate 511 0" by (simp add: eval_nat_numeral)
  then have upd: "(replicate 512 (0 :: u8))[0 := b] = b # replicate 511 0" for b by simp
  have "WriteSemaphore data (d\<lparr>writes := writes d + 1\<rparr>)
    = (data ! 0 = 0xfe \<or> data ! 0 = 0xff,
       d\<lparr>writes := writes d + 1, locked := (data ! 0 = 0xff \<or> (locked d \<and> data ! 0 \<noteq> 0xfe))\<rparr>)"
    by (auto simp: WriteSemaphore_def)
  then show ?thesis
    by (auto simp: WriteSector_def WriteSector_with_def ReadSector_def ReadSemaphore_def sector_defs Let_def upd)
qed

text \<open>Everything else is refused: a transfer of more or less than one sector, a sector that
  has no contents, and a write of the boot sector, the allocation table or the directory fail
  without changing anything but the counters of reads and writes.\<close>

lemma other_sectors_refused:
  assumes "cnt \<noteq> 1 \<or> sector \<notin> {SECTOR_SOPWITH1, SECTOR_SEMAPHOR}"
  shows "(\<exists>d'. WriteSector p data sector cnt d = Done (False, data, d', p)
      \<and> d' = d\<lparr>writes := writes d'\<rparr>)
    \<and> (cnt \<noteq> 1 \<or> sector \<notin> {SECTOR_BOOT, SECTOR_DIRECTORY} \<longrightarrow>
        (\<exists>data' d'. ReadSector p data sector cnt d = Done (False, data', d') \<and> d' = d\<lparr>reads := reads d'\<rparr>))"
  using assms by (auto simp: WriteSector_def WriteSector_with_def ReadSector_def sector_defs Let_def)

section \<open>The directory\<close>

interpretation bp: record_codec enc_bpb dec_bpb 17 "\<lambda>_. True"
proof
  fix v :: bpb and rest
  show "length (enc_bpb v) = 17" by (simp add: enc_bpb_def)
  have le16: "le16 w = [ucast w, ucast (drop_bit 8 w)]" for w by (simp add: le16_def)
  have "of_le16 [ucast w, ucast (drop_bit 8 w)] = w" for w
    using c16.dec_enc [of w] by (simp add: le16_def)
  then show "dec_bpb (enc_bpb v @ rest) = v"
    by (cases v) (simp add: dec_bpb_def enc_bpb_def slice_def le16 eval_nat_numeral)
qed

interpretation de: record_codec enc_dirent dec_dirent 32 wf_dirent
proof
  fix v :: fat_dirent and rest assume wf: "wf_dirent v"
  then show "length (enc_dirent v) = 32" by (simp add: enc_dirent_def wf_dirent_def)
  define pre where "pre = de_name v @ [de_attr v] @ de_res v"
  have pre: "length pre = 22" "slice 0 11 (pre @ xs) = de_name v" "(pre @ xs) ! 11 = de_attr v"
    "slice 12 10 (pre @ xs) = de_res v" for xs
    using wf by (simp_all add: pre_def wf_dirent_def slice_def nth_append)
  have enc: "enc_dirent v @ rest = pre @ le16 (de_time v) @ le16 (de_date v) @ le16 (de_cluster v)
      @ le32 (de_size v) @ rest"
    by (simp add: enc_dirent_def pre_def)
  have l16: "of_le16 (slice k 2 (xs @ le16 w @ ys)) = w" if "length xs = k" for k xs w ys
    using that by (rule c16.load_at)
  have l32: "of_le32 (slice k 4 (xs @ le32 w @ ys)) = w" if "length xs = k" for k xs w ys
    using that by (rule c32.load_at)
  show "dec_dirent (enc_dirent v @ rest) = v"
    unfolding dec_dirent_def enc pre(2-4)
    using l16 [of pre 22] l16 [of "pre @ le16 (de_time v)" 24]
      l16 [of "pre @ le16 (de_time v) @ le16 (de_date v)" 26]
      l32 [of "pre @ le16 (de_time v) @ le16 (de_date v) @ le16 (de_cluster v)" 28] pre(1)
    by simp
qed

text \<open>The entry that names a file; all other fields are zero.\<close>

definition entry :: "u8 list \<Rightarrow> u16 \<Rightarrow> u32 \<Rightarrow> fat_dirent" where
  "entry name cluster sz = \<lparr>de_name = name, de_attr = 0, de_res = replicate 10 0, de_time = 0,
     de_date = 0, de_cluster = cluster, de_size = sz\<rparr>"

definition directory :: "fat_dirent list" where
  "directory = entry (bytes_of ''SEMAPHOR   '') (ucast SECTOR_SEMAPHOR) 512
     # map (\<lambda>i. entry (game_name i) (ucast SECTOR_SOPWITH1) 512) [0..<NUM_GAMES]"

lemma put_dirent_entry:
  assumes "length pre = 32 * i" and "length name = 11"
  shows "put_dirent i name c sz (pre @ replicate 32 0 @ rest) = pre @ enc_dirent (entry name c sz) @ rest"
proof -
  have z: "replicate 32 (0 :: u8) = replicate 11 0 @ replicate 15 0 @ replicate 2 0 @ replicate 4 0"
    by (simp add: replicate_add [symmetric])
  have "enc_dirent (entry name c sz) = name @ replicate 15 0 @ le16 c @ le32 sz"
    by (simp add: enc_dirent_def entry_def le16_def eval_nat_numeral)
  then show ?thesis
    unfolding put_dirent_def z using assms by (simp add: overwrite_def)
qed

lemma length_game_name [simp]: "length (game_name i) = 11"
  by (simp add: game_name_def bytes_of_def)

lemma put_games:
  assumes "length pre = 32"
  shows "fold (\<lambda>i. put_dirent (i + 1) (game_name i) c sz) [0..<n] (pre @ replicate (32 * n) 0 @ rest)
    = pre @ concat (map (\<lambda>i. enc_dirent (entry (game_name i) c sz)) [0..<n]) @ rest"
proof (induction n arbitrary: rest)
  case (Suc n)
  have "replicate (32 * Suc n) (0 :: u8) = replicate (32 * n) 0 @ replicate 32 0"
    by (simp add: replicate_add [symmetric])
  then have "fold (\<lambda>i. put_dirent (i + 1) (game_name i) c sz) [0..<Suc n] (pre @ replicate (32 * Suc n) 0 @ rest)
      = put_dirent (n + 1) (game_name n) c sz
          ((pre @ concat (map (\<lambda>i. enc_dirent (entry (game_name i) c sz)) [0..<n])) @ replicate 32 0 @ rest)"
    using Suc.IH [of "replicate 32 0 @ rest"] by simp
  also have "\<dots> = (pre @ concat (map (\<lambda>i. enc_dirent (entry (game_name i) c sz)) [0..<n]))
      @ enc_dirent (entry (game_name n) c sz) @ rest"
  proof (rule put_dirent_entry)
    have "length (enc_dirent (entry (game_name i) c sz)) = 32" for i
      by (rule de.valid_width) (simp add: wf_dirent_def entry_def)
    then have "length (concat (map (\<lambda>i. enc_dirent (entry (game_name i) c sz)) [0..<n])) = 32 * n"
      by (induction n) auto
    then show "length (pre @ concat (map (\<lambda>i. enc_dirent (entry (game_name i) c sz)) [0..<n])) = 32 * (n + 1)"
      using assms by simp
  qed simp
  finally show ?case by simp
qed simp

lemma ReadDirectory_eq:
  "ReadDirectory (replicate 512 0) = (True, concat (map enc_dirent directory) @ replicate 224 0)"
proof -
  define semaphor where "semaphor = entry (bytes_of ''SEMAPHOR   '') (ucast SECTOR_SEMAPHOR) 512"
  have z: "replicate 512 (0 :: u8) = [] @ replicate 32 0 @ (replicate (32 * NUM_GAMES) 0 @ replicate 224 0)"
    by (simp add: replicate_add [symmetric] NUM_GAMES_def)
  have len: "length (bytes_of ''SEMAPHOR   '') = 11" by (simp add: bytes_of_def)
  have "length (enc_dirent semaphor) = 32"
    by (rule de.valid_width) (simp add: wf_dirent_def semaphor_def entry_def len)
  from put_games [OF this, of "ucast SECTOR_SOPWITH1" 512 NUM_GAMES "replicate 224 0"]
  show ?thesis
    using put_dirent_entry [of "[]" 0 "bytes_of ''SEMAPHOR   ''" "ucast SECTOR_SEMAPHOR" 512
        "replicate (32 * NUM_GAMES) 0 @ replicate 224 0"] len
    unfolding ReadDirectory_def z directory_def semaphor_def [symmetric] by (simp add: comp_def)
qed

text \<open>How a reader finds a file: the first of the 16 entries of the sector with the name.\<close>

definition find_file :: "u8 list \<Rightarrow> u8 list \<Rightarrow> fat_dirent option" where
  "find_file data name = find (\<lambda>e. de_name e = name) (map (\<lambda>i. dec_dirent (drop (32 * i) data)) [0..<16])"

lemma directory_entries:
  "map (\<lambda>i. dec_dirent (drop (32 * i) (concat (map enc_dirent directory) @ replicate 224 0))) [0..<16]
    = directory @ replicate 7 (entry (replicate 11 0) 0 0)"
proof -
  define blank where "blank = entry (replicate 11 0) 0 0"
  have "enc_dirent blank = replicate 32 0"
    by (simp add: blank_def entry_def enc_dirent_def le16_def le32_def eval_nat_numeral)
  then have "concat (map enc_dirent (replicate 7 blank)) = replicate 224 0"
    by (simp add: eval_nat_numeral)
  then have data: "concat (map enc_dirent directory) @ replicate 224 0
      = concat (map enc_dirent (directory @ replicate 7 blank)) @ []" by simp
  have len: "length (directory @ replicate 7 blank) = 16"
    by (simp add: directory_def NUM_GAMES_def)
  have "\<forall>v \<in> set (directory @ replicate 7 blank). wf_dirent v"
    by (auto simp: directory_def wf_dirent_def entry_def blank_def bytes_of_def)
  note arr = de.dec_array [OF this, of _ "[]"]
  show ?thesis
    unfolding data blank_def [symmetric]
    by (rule nth_equalityI) (use len arr in simp_all)
qed

lemma directory_names:
  "map de_name directory = bytes_of ''SEMAPHOR   '' # map game_name [0, 1, 2, 3, 4, 5, 6, 7]"
  by (simp add: directory_def entry_def NUM_GAMES_def comp_def) (simp add: eval_nat_numeral)

text \<open>The files the game looks for: eight saved games, one for each number, of eleven characters in
  the form of a directory entry.\<close>

definition game_files :: "u8 list list" where
  "game_files = map bytes_of [''SOPWITH0DTA'', ''SOPWITH1DTA'', ''SOPWITH2DTA'', ''SOPWITH3DTA'',
     ''SOPWITH4DTA'', ''SOPWITH5DTA'', ''SOPWITH6DTA'', ''SOPWITH7DTA'']"

lemma game_files_eq: "game_files = map game_name [0, 1, 2, 3, 4, 5, 6, 7]"
  unfolding game_files_def by code_simp

lemma set_game_files: "set game_files = game_name ` {..<NUM_GAMES}"
proof -
  have "{..<NUM_GAMES} = set [0, 1, 2, 3, 4, 5, 6, 7]" by (auto simp: NUM_GAMES_def)
  then show ?thesis by (simp add: game_files_eq)
qed

lemma names_distinct: "distinct (replicate 11 0 # map de_name directory)"
  unfolding directory_names by code_simp

lemma find_append_Some: "find P xs = Some x \<Longrightarrow> find P (xs @ ys) = Some x"
  by (induction xs) auto

lemma find_distinct:
  "distinct (map f xs) \<Longrightarrow> x \<in> set xs \<Longrightarrow> find (\<lambda>y. f y = f x) xs = Some x"
  by (induction xs) auto

text \<open>C27: the boot sector and the directory agree with the sectors there are. The directory lies
  where the parameter block of the boot sector puts it and has as many entries as it says. A
  reader that looks for \<^verbatim>\<open>SEMAPHOR\<close> or one of the eight files
  \<^verbatim>\<open>SOPWITH0.DTA\<close> to \<^verbatim>\<open>SOPWITH7.DTA\<close> by its name finds it, with the number of
  the sector that holds its contents as its cluster (one sector for all eight files) and the
  size of one sector; under any other name it finds no file.\<close>

theorem directory_lookup:
  "\<exists>boot d1 data d2. ReadSector p buf 0 1 d = Done (True, boot, d1)
    \<and> ReadSector p buf 2 1 d = Done (True, data, d2)
    \<and> (let b = dec_bpb (drop 11 boot)
       in unat (reserved_sectors b) + unat (num_fats b) * unat (sectors_per_fat b) = 2
          \<and> unat (root_dir_count b) = 9 \<and> unat (bytes_per_sector b) = 512)
    \<and> (\<forall>name \<in> set game_files. find_file data name = Some (entry name 3 512))
    \<and> find_file data (bytes_of ''SEMAPHOR   '')
        = Some (entry (bytes_of ''SEMAPHOR   '') 4 512)
    \<and> (\<forall>name. name \<notin> insert (replicate 11 0) (insert (bytes_of ''SEMAPHOR   '') (set game_files))
        \<longrightarrow> find_file data name = None)"
proof -
  define data where "data = concat (map enc_dirent directory) @ replicate 224 0"
  have sectors: "SECTOR_BOOT = 0" "SECTOR_DIRECTORY = 2" "SECTOR_SOPWITH1 = 3" "SECTOR_SEMAPHOR = 4" "NUM_GAMES = 8"
    by (simp_all add: SECTOR_BOOT_def SECTOR_DIRECTORY_def SECTOR_SOPWITH1_def SECTOR_SEMAPHOR_def NUM_GAMES_def)
  let ?blank = "entry (replicate 11 0) 0 0"
  have lookup: "find_file data name = find (\<lambda>e. de_name e = name) (directory @ replicate 7 ?blank)" for name
    unfolding find_file_def data_def directory_entries ..
  have found: "find_file data (de_name e) = Some e" if e: "e \<in> set directory" for e
  proof -
    have "distinct (map de_name directory)" using names_distinct by simp
    from find_distinct [OF this e] have "find (\<lambda>y. de_name y = de_name e) directory = Some e" .
    then show ?thesis unfolding lookup by (rule find_append_Some)
  qed
  have "find_file data name = Some (entry name (ucast SECTOR_SOPWITH1) 512)"
    if "name \<in> set game_files" for name
    using found [of "entry name (ucast SECTOR_SOPWITH1) 512"] that
    by (auto simp: directory_def entry_def set_game_files)
  moreover have "find_file data (bytes_of ''SEMAPHOR   '')
      = Some (entry (bytes_of ''SEMAPHOR   '') (ucast SECTOR_SEMAPHOR) 512)"
    using found [of "entry (bytes_of ''SEMAPHOR   '') (ucast SECTOR_SEMAPHOR) 512"]
    by (simp add: directory_def entry_def)
  moreover have "find_file data name = None"
    if "name \<notin> insert (replicate 11 0) (insert (bytes_of ''SEMAPHOR   '') (set game_files))" for name
    using that unfolding lookup find_None_iff by (auto simp: directory_def entry_def set_game_files)
  moreover have "ReadSector p buf SECTOR_DIRECTORY 1 d = Done (True, data, d\<lparr>reads := reads d + 1\<rparr>)"
    by (simp add: ReadSector_def sector_defs ReadDirectory_eq data_def Let_def)
  moreover
  define b where "b = \<lparr>bytes_per_sector = 512, sectors_per_cluster = 1, reserved_sectors = 1, num_fats = 1,
      root_dir_count = of_nat (NUM_GAMES + 1), total_sectors = 320, media_descriptor = 0xed,
      sectors_per_fat = 1, sectors_per_track = 10, num_heads = 1\<rparr>"
  have "ReadSector p buf SECTOR_BOOT 1 d
      = Done (True, overwrite (replicate 512 0) 11 (enc_bpb b), d\<lparr>reads := reads d + 1\<rparr>)"
    by (simp add: ReadSector_def sector_defs ReadBootSector_def b_def Let_def)
  moreover have "dec_bpb (drop 11 (overwrite (replicate 512 0) 11 (enc_bpb b))) = b"
    by (simp add: overwrite_def bp.dec_enc_append)
  moreover have "unat (reserved_sectors b) + unat (num_fats b) * unat (sectors_per_fat b) = unat SECTOR_DIRECTORY"
    "unat (root_dir_count b) = NUM_GAMES + 1" "unat (bytes_per_sector b) = 512"
    by (simp_all add: b_def SECTOR_DIRECTORY_def NUM_GAMES_def)
  ultimately show ?thesis by (simp add: Let_def sectors)
qed

theorem directory_lookup_witness:
  "\<exists>data d. ReadSector (sample_protocol []) [] SECTOR_DIRECTORY 1 static_disk = Done (True, data, d)
    \<and> find_file data (bytes_of ''SOPWITH5DTA'') = Some (entry (bytes_of ''SOPWITH5DTA'') 3 512)
    \<and> find_file data (bytes_of ''SOPWITH8DTA'') = None"
proof -
  have "bytes_of ''SOPWITH8DTA'' \<notin> insert (replicate 11 0) (set (bytes_of ''SEMAPHOR   '' # game_files))"
    unfolding game_files_def by code_simp
  then have "bytes_of ''SOPWITH8DTA'' \<notin> insert (replicate 11 0) (insert (bytes_of ''SEMAPHOR   '') (set game_files))"
    by simp
  moreover have "bytes_of ''SOPWITH5DTA'' \<in> set game_files" by (simp add: game_files_def)
  moreover have "SECTOR_DIRECTORY = 2" by (simp add: SECTOR_DIRECTORY_def)
  ultimately show ?thesis using directory_lookup [of "sample_protocol []" "[]" static_disk] by metis
qed

end
