(* ===== verification/Gameplay.thy ===== *)
theory Gameplay
  imports Lockstep Fakedisk
begin

text \<open>
  The disk and the network together: what the game reads back from the sector it writes, in a
  game of several machines.
\<close>

lemma machine_exchange_fit:
  assumes inv: "game_inv N idx pl g" and m: "m < N"
  shows "exchange_fit (machines g m)" and "consoleplayer (machines g m) = pl m"
proof -
  let ?s = "machines g m"
  note mok = inv_machine [OF inv m]
  have top: "topology N idx pl" using inv by (simp add: game_inv_def)
  have "proper_answer (num_nodes ?s) a" if a: "a \<in> set (answers (driver ?s))" for a
    using machine_answers [OF mok a] topology_idx(1) [OF top m] mok
    by (auto simp: deliverable_def proper_answer_def machine_ok_def Let_def)
  moreover have "maketic ?s - gametic ?s = of_nat DELAY"
  proof -
    have "unat (maketic ?s) = tics g m + DELAY" "unat (gametic ?s) = tics g m"
      using mok by (simp_all add: machine_ok_def Let_def)
    then have "unat (maketic ?s - gametic ?s) = DELAY" by (simp add: unat_sub_small)
    then show ?thesis by (simp add: word_unat_eq_iff DELAY_def)
  qed
  ultimately show "exchange_fit ?s"
    using machine_wf [OF mok] by (simp add: exchange_fit_def)
  show "consoleplayer ?s = pl m" using mok by (simp add: machine_ok_def Let_def)
qed

text \<open>What the player gets from the disk. In a reachable game, a machine that has joined
  writes its command into the data sector: the write is still waiting for the network when the
  driver has no more answers, or succeeds, and then the sector holds, for the player of every
  machine, that machine's command of the tic; the same commands that every other machine's sector
  holds for this tic.\<close>

lemma data_sector_in_game:
  assumes "reachable_game N idx pl g" and "m < N" and "\<not> swapping g m"
    and "\<forall>k < N. Suc (length (typed g k)) < 2 ^ 32 - 16"
    and "STATE_INIT < dstate d" and "length data = 512"
    and "\<forall>k < N. pl k < num_players (machines g m)"
  defines "cmd \<equiv> mu_key (dec_multio data) ! pl m"
  shows "WriteSector (machines g m) data SECTOR_SOPWITH1 1 d = Blocked
    \<or> (\<exists>data' d' p. WriteSector (machines g m) data SECTOR_SOPWITH1 1 d = Done (True, data', d', p)
        \<and> (\<forall>k < N. mu_key (dec_multio data') ! pl k
              = (replicate 3 0 @ typed g k @ (if k = m then [cmd] else [])) ! tics g m)
        \<and> (\<exists>cs'. reachable_game N idx pl (after_tic m cs' p (after_register m cmd p g))))"
proof -
  let ?s = "machines g m" and ?d = "d\<lparr>writes := writes d + 1\<rparr>" and ?mu = "dec_multio data"
  have ok: "game_ok N g" using assms(4) by (auto simp: game_ok_def)
  have inv: "game_inv N idx pl g" using assms(1) ok by (rule game_safe.reach_inv)
  note fit = machine_exchange_fit [OF inv assms(2)]
  have np: "num_players ?s \<le> MAX_PLAYERS" "consoleplayer ?s < 4"
    using sw.fit_players [OF fit(1)] by (auto simp: MAX_PLAYERS_def)
  have sector: "WriteSector ?s data SECTOR_SOPWITH1 1 d = WriteData_with SwapCommand ?s data ?d"
    by (simp add: WriteSector_def WriteSector_with_def sector_defs)
  have len: "16 \<le> length data" using assms(6) by simp
  have st: "STATE_INIT < dstate ?d" using assms(5) by simp
  have key: "mu_key ?mu ! consoleplayer ?s = cmd" by (simp add: cmd_def fit(2))
  from SwapCommand_game_call [OF assms(1-4), of cmd "cmd_buf ?d"] show ?thesis
  proof (elim disjE exE conjE)
    assume "SwapCommand cmd (cmd_buf ?d) ?s = Blocked"
    moreover have "dstate d = STATE_WAITING_READ \<or> dstate d = STATE_WAITING_WRITE"
      using assms(5) by (cases "dstate d") (simp_all add: less_disk_state_def)
    ultimately have "WriteData_with SwapCommand ?s data ?d = Blocked"
      using np by (auto simp: WriteData_with_def Let_def key not_less not_le)
    then show ?thesis by (simp add: sector)
  next
    fix cs' p
    assume call: "SwapCommand cmd (cmd_buf ?d) ?s = Done (True, cs', p)"
      and vec: "\<forall>k < N. cs' ! pl k = (replicate 3 0 @ typed g k @ (if k = m then [cmd] else [])) ! tics g m"
      and reach: "reachable_game N idx pl (after_tic m cs' p (after_register m cmd p g))"
    let ?mu' = "exchanged ?s cs' ?mu"
    note w = sw.WriteData_exchange [OF fit(1) st len call [folded key]]
    note ex = exchanged_simps [OF dec_multio_wf [OF len] np(1), where cmds = cs']
    have "pl k < 4" if "k < N" for k
      using assms(7) np(1) that by (fastforce simp: MAX_PLAYERS_def)
    then have "mu_key ?mu' ! pl k = cs' ! pl k" if "k < N" for k
      using ex(4) assms(7) that by simp
    moreover have "dec_multio (overwrite data 0 (enc_multio ?mu')) = ?mu'"
      using ex(1) by (rule mu.dec_store)
    ultimately show ?thesis using w sector vec reach by (intro disjI2) auto
  qed
qed

end
