(* ===== verification/Farmem.thy ===== *)
theory Farmem
  imports Prelude
begin

text \<open>
  Real-mode memory, far pointers and the byte routines of \<^verbatim>\<open>lib/dos.c\<close>. A far
  pointer is a segment and an offset; pointer arithmetic changes the offset only, modulo
  64K.
\<close>

section \<open>Memory\<close>

type_synonym memory = "nat \<Rightarrow> u8"

type_synonym farptr = "u16 \<times> u16"

definition MK_FP :: "u16 \<Rightarrow> u16 \<Rightarrow> farptr" where
  "MK_FP seg off = (seg, off)"

text \<open>The physical address; addresses have 20 bits.\<close>

definition phys :: "farptr \<Rightarrow> nat" where
  "phys p = (16 * unat (fst p) + unat (snd p)) mod 2 ^ 20"

definition far_add :: "farptr \<Rightarrow> nat \<Rightarrow> farptr" where
  "far_add p n = (fst p, snd p + of_nat n)"

definition far_sub :: "farptr \<Rightarrow> nat \<Rightarrow> farptr" where
  "far_sub p n = (fst p, snd p - of_nat n)"

definition mread :: "memory \<Rightarrow> farptr \<Rightarrow> u8" where
  "mread mem p = mem (phys p)"

definition mwrite :: "farptr \<Rightarrow> u8 \<Rightarrow> memory \<Rightarrow> memory" where
  "mwrite p b mem = mem(phys p := b)"

text \<open>The \<open>n\<close> bytes at a pointer, and a store of bytes at a pointer.\<close>

definition region :: "memory \<Rightarrow> farptr \<Rightarrow> nat \<Rightarrow> u8 list" where
  "region mem p n = map (\<lambda>i. mread mem (far_add p i)) [0..<n]"

fun mstore :: "farptr \<Rightarrow> u8 list \<Rightarrow> memory \<Rightarrow> memory" where
  "mstore p [] mem = mem"
| "mstore p (b # bs) mem = mstore (far_add p 1) bs (mwrite p b mem)"

named_theorems far_simps \<open>far pointers and memory\<close>

lemma far_add_add [simp, far_simps]: "far_add (far_add p i) j = far_add p (i + j)"
  by (simp add: far_add_def add.assoc)

lemma far_add_0 [simp, far_simps]: "far_add p 0 = p"
  by (simp add: far_add_def)

lemma far_sub_0 [simp, far_simps]: "far_sub p 0 = p"
  by (simp add: far_sub_def)

lemma fst_far_add [simp]: "fst (far_add p n) = fst p"
  by (simp add: far_add_def)

lemma far_sub_add: "i \<le> j \<Longrightarrow> far_sub (far_add p j) i = far_add p (j - i)"
  by (simp add: far_sub_def far_add_def of_nat_diff)

text \<open>Two pointers into one segment have the same address only if they are equal.\<close>

lemma mod_add_cancel_small:
  fixes k a b :: nat
  assumes "(k + a) mod M = (k + b) mod M" and "a < M" and "b < M"
  shows "a = b"
  using assms
proof (induction a b rule: linorder_wlog)
  case (le a b)
  from le(2) [symmetric] le(1) obtain s where "k + b = k + a + M * s"
    by (elim mod_eq_nat1E) auto
  with le show ?case by (cases s) auto
qed auto

lemma phys_inj:
  assumes "fst p = fst q"
  shows "phys p = phys q \<longleftrightarrow> p = q"
proof
  assume "phys p = phys q"
  then have "(16 * unat (fst q) + unat (snd p)) mod 2 ^ 20 = (16 * unat (fst q) + unat (snd q)) mod 2 ^ 20"
    by (simp add: phys_def assms)
  moreover have "unat (snd p) < 2 ^ 20" "unat (snd q) < 2 ^ 20"
    by (rule less_trans [OF unat_u16_less], simp)+
  ultimately have "unat (snd p) = unat (snd q)" by (rule mod_add_cancel_small)
  then show "p = q" using assms by (simp add: prod_eq_iff word_unat_eq_iff)
qed simp

text \<open>An array of \<open>n\<close> bytes that does not run over the end of its segment.\<close>

definition fits :: "farptr \<Rightarrow> nat \<Rightarrow> bool" where
  "fits p n \<longleftrightarrow> unat (snd p) + n \<le> 2 ^ 16"

lemma fits_off: "fits p n \<Longrightarrow> i < n \<Longrightarrow> unat (snd (far_add p i)) = unat (snd p) + i"
  by (simp add: fits_def far_add_def unat_add_small)

lemma phys_far_add_inj:
  assumes "fits p n" and "fits q n'" and "fst p = fst q" and "i < n" and "j < n'"
  shows "phys (far_add p i) = phys (far_add q j) \<longleftrightarrow> unat (snd p) + i = unat (snd q) + j"
proof -
  have "phys (far_add p i) = phys (far_add q j) \<longleftrightarrow> snd (far_add p i) = snd (far_add q j)"
    using assms(3) by (simp add: phys_inj prod_eq_iff)
  also have "\<dots> \<longleftrightarrow> unat (snd (far_add p i)) = unat (snd (far_add q j))"
    by (simp add: word_unat_eq_iff)
  finally show ?thesis using fits_off [OF assms(1,4)] fits_off [OF assms(2,5)] by simp
qed

lemma mread_mwrite: "mread (mwrite p b mem) q = (if phys q = phys p then b else mread mem q)"
  by (simp add: mread_def mwrite_def)

lemma length_region [simp]: "length (region mem p n) = n"
  by (simp add: region_def)

lemma nth_region [simp]: "i < n \<Longrightarrow> region mem p n ! i = mread mem (far_add p i)"
  by (simp add: region_def)

lemma region_eqI: "(\<And>i. i < n \<Longrightarrow> mread mem (far_add p i) = mread mem' (far_add q i)) \<Longrightarrow>
    region mem p n = region mem' q n"
  by (simp add: region_def)

lemma mstore_other:
  "(\<And>i. i < length bs \<Longrightarrow> a \<noteq> phys (far_add p i)) \<Longrightarrow> mstore p bs mem a = mem a"
proof (induction bs arbitrary: p mem)
  case (Cons b bs)
  have "mstore (far_add p 1) bs (mwrite p b mem) a = mwrite p b mem a"
  proof (rule Cons.IH)
    fix i assume "i < length bs"
    then show "a \<noteq> phys (far_add (far_add p 1) i)" using Cons.prems [of "Suc i"] by simp
  qed
  also have "\<dots> = mem a" using Cons.prems [of 0] by (simp add: mwrite_def)
  finally show ?case by simp
qed simp

lemma fits_tail: "fits p (Suc n) \<Longrightarrow> 0 < n \<Longrightarrow> fits (far_add p 1) n"
  using fits_off [of p "Suc n" 1] by (simp add: fits_def)

lemma mread_mstore:
  "fits p (length bs) \<Longrightarrow> i < length bs \<Longrightarrow> mread (mstore p bs mem) (far_add p i) = bs ! i"
proof (induction bs arbitrary: p mem i)
  case (Cons b bs)
  show ?case
  proof (cases i)
    case 0
    have "mstore (far_add p 1) bs (mwrite p b mem) (phys p) = mwrite p b mem (phys p)"
    proof (rule mstore_other)
      fix j assume j: "j < length bs"
      then have "phys (far_add p 0) \<noteq> phys (far_add p (Suc j))"
        using Cons.prems(1) by (subst phys_far_add_inj) auto
      then show "phys p \<noteq> phys (far_add (far_add p 1) j)" by simp
    qed
    then show ?thesis using 0 by (simp add: mread_def mwrite_def)
  next
    case (Suc j)
    then have "fits (far_add p 1) (length bs)" using Cons.prems by (intro fits_tail) auto
    from Cons.IH [OF this, of j "mwrite p b mem"] Suc Cons.prems(2) show ?thesis by simp
  qed
qed simp

lemma region_mstore: "fits p (length bs) \<Longrightarrow> n = length bs \<Longrightarrow> region (mstore p bs mem) p n = bs"
  by (rule nth_equalityI) (simp_all add: mread_mstore)

section \<open>\<^verbatim>\<open>lib/dos.c\<close>\<close>

text \<open>The loops count with an \<^verbatim>\<open>int\<close> of 16 bits that is compared, as an unsigned
  number, with the \<^verbatim>\<open>size_t\<close> of 16 bits. For more than 32767 bytes the increment leaves the
  range of \<^verbatim>\<open>int\<close>, which the C standard leaves undefined; as the compilers do, it wraps here.
  The loop that runs downwards starts at the last byte.\<close>

function copy_up :: "u16 \<Rightarrow> u16 \<Rightarrow> farptr \<Rightarrow> farptr \<Rightarrow> memory \<Rightarrow> memory" where
  "copy_up i nbytes d s mem =
    (if i < nbytes then copy_up (i + 1) nbytes (far_add d 1) (far_add s 1) (mwrite d (mread mem s) mem) else mem)"
  by pat_completeness auto

lemma unat_next: "i < n \<Longrightarrow> unat (i + 1 :: u16) = Suc (unat i)"
proof -
  assume "i < n"
  then have "unat i < unat n" by (simp add: word_less_nat_alt)
  with unat_u16_less [of n] have "unat i + 1 < 65536" by linarith
  then show ?thesis by (simp add: unat_add_small)
qed

termination copy_up
  by (relation "measure (\<lambda>(i, n, _). unat n - unat i)") (auto simp: unat_next word_less_nat_alt)

function copy_down :: "u16 \<Rightarrow> u16 \<Rightarrow> farptr \<Rightarrow> farptr \<Rightarrow> memory \<Rightarrow> memory" where
  "copy_down i nbytes d s mem =
    (if i < nbytes then copy_down (i + 1) nbytes (far_sub d 1) (far_sub s 1) (mwrite d (mread mem s) mem) else mem)"
  by pat_completeness auto

termination copy_down
  by (relation "measure (\<lambda>(i, n, _). unat n - unat i)") (auto simp: unat_next word_less_nat_alt)

definition far_memcpy :: "farptr \<Rightarrow> farptr \<Rightarrow> u16 \<Rightarrow> memory \<Rightarrow> memory" where
  "far_memcpy dest src nbytes mem = copy_up 0 nbytes dest src mem"

function memcmp_loop :: "u16 \<Rightarrow> u16 \<Rightarrow> farptr \<Rightarrow> farptr \<Rightarrow> memory \<Rightarrow> int" where
  "memcmp_loop i nbytes a b mem =
    (if i < nbytes then
       if mread mem a \<noteq> mread mem b then (if mread mem a < mread mem b then -1 else 1)
       else memcmp_loop (i + 1) nbytes (far_add a 1) (far_add b 1) mem
     else 0)"
  by pat_completeness auto

termination memcmp_loop
  by (relation "measure (\<lambda>(i, n, _). unat n - unat i)") (auto simp: unat_next word_less_nat_alt)

definition far_memcmp :: "farptr \<Rightarrow> farptr \<Rightarrow> u16 \<Rightarrow> memory \<Rightarrow> int" where
  "far_memcmp a b nbytes mem = memcmp_loop 0 nbytes a b mem"

text \<open>What \<^verbatim>\<open><\<close> does with far pointers is up to the compiler; for two pointers into one
  segment it compares the offsets.\<close>

definition compares_offsets :: "(farptr \<Rightarrow> farptr \<Rightarrow> bool) \<Rightarrow> bool" where
  "compares_offsets before \<longleftrightarrow> (\<forall>p q. fst p = fst q \<longrightarrow> before p q = (snd p < snd q))"

definition far_memmove ::
  "(farptr \<Rightarrow> farptr \<Rightarrow> bool) \<Rightarrow> farptr \<Rightarrow> farptr \<Rightarrow> u16 \<Rightarrow> memory \<Rightarrow> memory" where
  "far_memmove before dest src nbytes mem =
    (if before dest src then copy_up 0 nbytes dest src mem
     else copy_down 0 nbytes (far_add dest (unat (nbytes - 1))) (far_add src (unat (nbytes - 1))) mem)"

function bzero_loop :: "u16 \<Rightarrow> u16 \<Rightarrow> farptr \<Rightarrow> memory \<Rightarrow> memory" where
  "bzero_loop i nbytes d mem =
    (if i < nbytes then bzero_loop (i + 1) nbytes (far_add d 1) (mwrite d 0 mem) else mem)"
  by pat_completeness auto

termination bzero_loop
  by (relation "measure (\<lambda>(i, n, _). unat n - unat i)") (auto simp: unat_next word_less_nat_alt)

definition far_bzero :: "farptr \<Rightarrow> u16 \<Rightarrow> memory \<Rightarrow> memory" where
  "far_bzero dest nbytes mem = bzero_loop 0 nbytes dest mem"

declare copy_up.simps [simp del] copy_down.simps [simp del] memcmp_loop.simps [simp del] bzero_loop.simps [simp del]

text \<open>The same loops, over the number of bytes that are left.\<close>

fun up_bytes :: "nat \<Rightarrow> farptr \<Rightarrow> farptr \<Rightarrow> memory \<Rightarrow> memory" where
  "up_bytes 0 d s mem = mem"
| "up_bytes (Suc n) d s mem = up_bytes n (far_add d 1) (far_add s 1) (mwrite d (mread mem s) mem)"

fun down_bytes :: "nat \<Rightarrow> farptr \<Rightarrow> farptr \<Rightarrow> memory \<Rightarrow> memory" where
  "down_bytes 0 d s mem = mem"
| "down_bytes (Suc n) d s mem = down_bytes n (far_sub d 1) (far_sub s 1) (mwrite d (mread mem s) mem)"

fun compare_bytes :: "nat \<Rightarrow> farptr \<Rightarrow> farptr \<Rightarrow> memory \<Rightarrow> int" where
  "compare_bytes 0 a b mem = 0"
| "compare_bytes (Suc n) a b mem =
    (if mread mem a \<noteq> mread mem b then (if mread mem a < mread mem b then -1 else 1)
     else compare_bytes n (far_add a 1) (far_add b 1) mem)"

fun zero_bytes :: "nat \<Rightarrow> farptr \<Rightarrow> memory \<Rightarrow> memory" where
  "zero_bytes 0 d mem = mem"
| "zero_bytes (Suc n) d mem = zero_bytes n (far_add d 1) (mwrite d 0 mem)"

lemma left_bytes: "unat n - unat i = (if i < n then Suc (unat n - unat (i + 1)) else 0)" for i n :: u16
  using unat_next [of i n] by (auto simp: word_less_nat_alt)

lemma copy_up_bytes: "copy_up i nbytes d s mem = up_bytes (unat nbytes - unat i) d s mem"
proof (induction i nbytes d s mem rule: copy_up.induct)
  case (1 i nbytes d s mem)
  then show ?case by (subst copy_up.simps) (simp add: left_bytes [of nbytes i])
qed

lemma copy_down_bytes: "copy_down i nbytes d s mem = down_bytes (unat nbytes - unat i) d s mem"
proof (induction i nbytes d s mem rule: copy_down.induct)
  case (1 i nbytes d s mem)
  then show ?case by (subst copy_down.simps) (simp add: left_bytes [of nbytes i])
qed

lemma memcmp_loop_bytes: "memcmp_loop i nbytes a b mem = compare_bytes (unat nbytes - unat i) a b mem"
proof (induction i nbytes a b mem rule: memcmp_loop.induct)
  case (1 i nbytes a b mem)
  then show ?case by (subst memcmp_loop.simps) (simp add: left_bytes [of nbytes i])
qed

lemma bzero_loop_bytes: "bzero_loop i nbytes d mem = zero_bytes (unat nbytes - unat i) d mem"
proof (induction i nbytes d mem rule: bzero_loop.induct)
  case (1 i nbytes d mem)
  then show ?case by (subst bzero_loop.simps) (simp add: left_bytes [of nbytes i])
qed

lemma far_memcpy_bytes: "far_memcpy dest src nbytes mem = up_bytes (unat nbytes) dest src mem"
  by (simp add: far_memcpy_def copy_up_bytes)

lemma far_memmove_bytes: "far_memmove before dest src nbytes mem =
    (if before dest src then up_bytes (unat nbytes) dest src mem
     else down_bytes (unat nbytes) (far_add dest (unat (nbytes - 1))) (far_add src (unat (nbytes - 1))) mem)"
  by (simp add: far_memmove_def copy_up_bytes copy_down_bytes)

lemma far_memcmp_bytes: "far_memcmp a b nbytes mem = compare_bytes (unat nbytes) a b mem"
  by (simp add: far_memcmp_def memcmp_loop_bytes)

lemma far_bzero_bytes: "far_bzero dest nbytes mem = zero_bytes (unat nbytes) dest mem"
  by (simp add: far_bzero_def bzero_loop_bytes)

lemma zero_bytes_mstore: "zero_bytes n d mem = mstore d (replicate n 0) mem"
  by (induction n arbitrary: d mem) auto

text \<open>Copying upwards when the destination does not lie above the source, in one segment or
  in places that do not overlap at all: no byte is overwritten before it is read.\<close>

definition copies_up_safely :: "farptr \<Rightarrow> farptr \<Rightarrow> nat \<Rightarrow> bool" where
  "copies_up_safely d s n \<longleftrightarrow> (\<forall>i < n. \<forall>j < n. i < j \<longrightarrow> phys (far_add d i) \<noteq> phys (far_add s j))"

lemma up_bytes_mstore:
  "copies_up_safely d s n \<Longrightarrow> up_bytes n d s mem = mstore d (region mem s n) mem"
proof (induction n arbitrary: d s mem)
  case (Suc n)
  have step: "phys (far_add d i) \<noteq> phys (far_add s j)" if "i < j" "j < Suc n" for i j
    using Suc.prems that by (simp add: copies_up_safely_def)
  have "copies_up_safely (far_add d 1) (far_add s 1) n"
    unfolding copies_up_safely_def using step by (auto simp del: One_nat_def)
  from Suc.IH [OF this] have "up_bytes (Suc n) d s mem
      = mstore (far_add d 1) (region (mwrite d (mread mem s) mem) (far_add s 1) n) (mwrite d (mread mem s) mem)"
    by simp
  also have "region (mwrite d (mread mem s) mem) (far_add s 1) n = region mem (far_add s 1) n"
  proof (rule region_eqI)
    fix i assume "i < n"
    then show "mread (mwrite d (mread mem s) mem) (far_add (far_add s 1) i) = mread mem (far_add (far_add s 1) i)"
      using step [of 0 "Suc i"] by (auto simp: mread_mwrite)
  qed
  also have "region mem s (Suc n) = mread mem s # region mem (far_add s 1) n"
    by (simp add: region_def upt_conv_Cons map_Suc_upt [symmetric] del: upt_Suc)
  then have "mstore (far_add d 1) (region mem (far_add s 1) n) (mwrite d (mread mem s) mem)
      = mstore d (region mem s (Suc n)) mem"
    by simp
  finally show ?case .
qed (simp add: region_def)

lemma copy_up_same_segment:
  assumes "fst d = fst s" and "snd d \<le> snd s" and "fits s n"
  shows "copies_up_safely d s n"
proof -
  have "fits d n" using assms by (simp add: fits_def word_le_nat_alt)
  then show ?thesis
    using assms by (auto simp: copies_up_safely_def phys_far_add_inj [of d n s n] word_le_nat_alt)
qed

lemma copy_up_disjoint:
  "\<forall>i < n. \<forall>j < n. phys (far_add d i) \<noteq> phys (far_add s j) \<Longrightarrow> copies_up_safely d s n"
  by (simp add: copies_up_safely_def)

text \<open>Copying downwards is the same when the destination does not lie below the source.\<close>

lemma mstore_snoc: "mstore p (xs @ [x]) mem = mwrite (far_add p (length xs)) x (mstore p xs mem)"
  by (induction xs arbitrary: p mem) auto

lemma mwrite_commute:
  "phys p \<noteq> phys q \<Longrightarrow> mwrite p a (mwrite q b mem) = mwrite q b (mwrite p a mem)"
  by (simp add: mwrite_def fun_upd_twist)

lemma mstore_mwrite:
  "(\<And>i. i < length xs \<Longrightarrow> phys q \<noteq> phys (far_add p i)) \<Longrightarrow>
     mstore p xs (mwrite q b mem) = mwrite q b (mstore p xs mem)"
proof (induction xs arbitrary: p mem)
  case (Cons x xs)
  have "phys q \<noteq> phys (far_add (far_add p 1) i)" if "i < length xs" for i
    using Cons.prems [of "Suc i"] that by simp
  moreover have "phys q \<noteq> phys p" using Cons.prems [of 0] by simp
  ultimately show ?case using Cons.IH [of "far_add p 1"] by (simp add: mwrite_commute [of p q])
qed simp

lemma down_bytes_mstore:
  assumes "fst d = fst s" and "snd s \<le> snd d" and "fits d n"
  shows "down_bytes n (far_add d (n - 1)) (far_add s (n - 1)) mem = mstore d (region mem s n) mem"
  using assms(3)
proof (induction n arbitrary: mem)
  case (Suc n)
  have fits: "fits d n" "fits s (Suc n)" "fits s n"
    using Suc.prems assms(2) by (simp_all add: fits_def word_le_nat_alt)
  define m where "m = mwrite (far_add d n) (mread mem (far_add s n)) mem"
  have "down_bytes (Suc n) (far_add d n) (far_add s n) mem
      = down_bytes n (far_sub (far_add d n) 1) (far_sub (far_add s n) 1) m"
    by (simp add: m_def)
  also have "\<dots> = down_bytes n (far_add d (n - 1)) (far_add s (n - 1)) m"
    by (cases n) (simp_all add: far_sub_add)
  also have "\<dots> = mstore d (region m s n) m" using fits(1) by (rule Suc.IH)
  also have "region m s n = region mem s n"
  proof (rule region_eqI)
    fix i assume i: "i < n"
    then have "phys (far_add s i) \<noteq> phys (far_add d n)"
      using assms(1,2) Suc.prems fits(2)
      by (subst phys_far_add_inj [of s "Suc n" d "Suc n"]) (auto simp: word_le_nat_alt)
    then show "mread m (far_add s i) = mread mem (far_add s i)" by (simp add: m_def mread_mwrite)
  qed
  also have "mstore d (region mem s n) m
      = mwrite (far_add d n) (mread mem (far_add s n)) (mstore d (region mem s n) mem)"
    unfolding m_def
  proof (rule mstore_mwrite)
    fix i assume "i < length (region mem s n)"
    then show "phys (far_add d n) \<noteq> phys (far_add d i)"
      using Suc.prems by (subst phys_far_add_inj [of d "Suc n" d "Suc n"]) auto
  qed
  also have "\<dots> = mstore d (region mem s n @ [mread mem (far_add s n)]) mem"
    by (simp add: mstore_snoc)
  also have "region mem s n @ [mread mem (far_add s n)] = region mem s (Suc n)"
    by (simp add: region_def)
  finally show ?case by simp
qed (simp add: region_def)

lemma far_memmove_mstore:
  assumes "compares_offsets before" and "fst dest = fst src"
    and "fits dest (unat nbytes)" and "fits src (unat nbytes)"
  shows "far_memmove before dest src nbytes mem = mstore dest (region mem src (unat nbytes)) mem"
proof (cases "snd dest < snd src")
  case True
  have before: "before dest src" using True assms(1,2) unfolding compares_offsets_def by blast
  have "copies_up_safely dest src (unat nbytes)"
    using assms True by (intro copy_up_same_segment) auto
  with before show ?thesis by (simp add: far_memmove_bytes up_bytes_mstore)
next
  case False
  have before: "\<not> before dest src" using False assms(1,2) unfolding compares_offsets_def by blast
  show ?thesis
  proof (cases "nbytes = 0")
    case True
    with before show ?thesis by (simp add: far_memmove_bytes region_def)
  next
    case nonzero: False
    then have "1 \<le> unat nbytes" by (simp add: Suc_le_eq unat_gt_0)
    then have "unat (nbytes - 1) = unat nbytes - 1" by (subst unat_sub_small) simp_all
    then show ?thesis
      using False before assms down_bytes_mstore [of dest src "unat nbytes" mem]
      by (simp add: far_memmove_bytes)
  qed
qed

section \<open>Properties\<close>

text \<open>C30: \<^verbatim>\<open>far_memmove\<close> moves bytes within a segment correctly also when the two
  places overlap in either direction: the destination then holds the bytes the source held
  before, and no other byte of memory has changed. (For more than 32767 bytes this rests on a counter
  that wraps.)\<close>

theorem far_memmove_correct:
  assumes "compares_offsets before" and "fst dest = fst src"
    and "fits dest (unat nbytes)" and "fits src (unat nbytes)"
  shows "region (far_memmove before dest src nbytes mem) dest (unat nbytes) = region mem src (unat nbytes)
    \<and> (\<forall>a. (\<forall>i < unat nbytes. a \<noteq> phys (far_add dest i)) \<longrightarrow>
         far_memmove before dest src nbytes mem a = mem a)"
  unfolding far_memmove_mstore [OF assms]
  using assms(3) by (auto simp: region_mstore intro!: mstore_other)

lemma upto_three: "[0..<3] = [0, 1, 2]"
  by (simp add: numeral_eq_Suc)

theorem far_memmove_correct_witness:
  "region (far_memmove (\<lambda>p q. snd p < snd q) (7, 101) (7, 100) 3 (\<lambda>a. of_nat a)) (7, 101) 3
    = [212, 213, 214]"
proof -
  have "compares_offsets (\<lambda>p q. snd p < snd q)" by (simp add: compares_offsets_def)
  from far_memmove_correct [OF this, of "(7, 101)" "(7, 100)" 3 "\<lambda>a. of_nat a"]
  have "region (far_memmove (\<lambda>p q. snd p < snd q) (7, 101) (7, 100) 3 (\<lambda>a. of_nat a)) (7, 101) 3
      = region (\<lambda>a. of_nat a) (7, 100) 3"
    by (simp add: fits_def)
  also have "\<dots> = [212, 213, 214]"
    unfolding region_def upto_three by (simp add: mread_def phys_def far_add_def)
  finally show ?thesis .
qed

lemma compare_bytes_cases:
  "(compare_bytes n a b mem = 0 \<and> region mem a n = region mem b n) \<or>
   (\<exists>k < n. region mem a k = region mem b k \<and> mread mem (far_add a k) \<noteq> mread mem (far_add b k)
      \<and> compare_bytes n a b mem = (if mread mem (far_add a k) < mread mem (far_add b k) then -1 else 1))"
proof (induction n arbitrary: a b)
  case 0
  show ?case by (simp add: region_def)
next
  case (Suc n)
  have cons: "region mem p (Suc k) = mread mem p # region mem (far_add p 1) k" for p k
    by (simp add: region_def upt_conv_Cons map_Suc_upt [symmetric] del: upt_Suc)
  show ?case
  proof (cases "mread mem a = mread mem b")
    case False
    then show ?thesis by (intro disjI2 exI [of _ 0]) (auto simp: region_def)
  next
    case True
    from Suc.IH [of "far_add a 1" "far_add b 1"] show ?thesis
    proof (elim disjE exE conjE)
      fix k assume "k < n" "region mem (far_add a 1) k = region mem (far_add b 1) k"
        "mread mem (far_add (far_add a 1) k) \<noteq> mread mem (far_add (far_add b 1) k)"
        "compare_bytes n (far_add a 1) (far_add b 1) mem =
          (if mread mem (far_add (far_add a 1) k) < mread mem (far_add (far_add b 1) k) then -1 else 1)"
      with True show ?thesis by (intro disjI2 exI [of _ "Suc k"]) (simp add: cons)
    qed (simp add: True cons)
  qed
qed

text \<open>\<^verbatim>\<open>far_memcmp\<close> compares like \<^verbatim>\<open>memcmp\<close>: the result is zero exactly
  when the bytes are equal, and otherwise its sign is that of the first difference.\<close>

lemma far_memcmp_correct:
  "(far_memcmp a b nbytes mem = 0 \<longleftrightarrow> region mem a (unat nbytes) = region mem b (unat nbytes))
   \<and> (far_memcmp a b nbytes mem \<noteq> 0 \<longrightarrow> (\<exists>k < unat nbytes. region mem a k = region mem b k
        \<and> far_memcmp a b nbytes mem
            = (if mread mem (far_add a k) < mread mem (far_add b k) then -1 else 1)))"
proof -
  have "region mem a n \<noteq> region mem b n"
    if "k < n" "mread mem (far_add a k) \<noteq> mread mem (far_add b k)" for k n
    using that by (metis nth_region)
  then show ?thesis
    using compare_bytes_cases [of "unat nbytes" a b mem] unfolding far_memcmp_bytes by (auto split: if_splits)
qed

end
