(* ===== verification/Mempatch.thy ===== *)
theory Mempatch
  imports Farmem Protocol
begin

text \<open>
  The patches \<^verbatim>\<open>mempatch.c\<close> makes in the memory of the game: the search for a byte
  pattern in one segment, the replacement of its first occurrence, and the two patches.
\<close>

section \<open>Patterns\<close>

definition move_oxen_old :: "u8 list" where
  "move_oxen_old = [0x60, 0x05, 0x48, 0x06, 0x50, 0x00, 0x5b, 0x00]"

definition move_oxen_new :: "u8 list" where
  "move_oxen_new = [0x38, 0x04, 0xb2, 0x07, 0x2a, 0x00, 0x2a, 0x00]"

definition respawn_time_old :: "u8 list" where
  "respawn_time_old = [0x8b, 0x76, 0xfe, 0x89, 0x44, 0x06, 0xb8, 0x0a, 0x00, 0x8b,
     0x76, 0xfe, 0x89, 0x44, 0x1a, 0x8b, 0xe5]"

definition respawn_time_new :: "u8 list" where
  "respawn_time_new = [0x8b, 0x76, 0xfe, 0x89, 0x44, 0x06, 0xb8, 0x10, 0x00, 0x8b,
     0x76, 0xfe, 0x89, 0x44, 0x1a, 0x8b, 0xe5]"

section \<open>The search\<close>

text \<open>The first loop of \<^verbatim>\<open>ApplyPatch\<close>, with the variables \<open>i\<close> and
  \<open>match_len\<close>; it returns the final \<open>i\<close>. A mismatch goes back to the byte after the one the
  partial match began with.\<close>

function match_loop :: "(nat \<Rightarrow> u8) \<Rightarrow> nat \<Rightarrow> u8 list \<Rightarrow> nat \<Rightarrow> nat \<Rightarrow> nat \<Rightarrow> nat" where
  "match_loop buf buf_len old sz i match_len =
    (if i < buf_len then
       (if buf i \<noteq> old ! match_len then match_loop buf buf_len old sz (i - match_len + 1) 0
        else if match_len + 1 \<ge> sz then i - match_len
        else match_loop buf buf_len old sz (i + 1) (match_len + 1))
     else i)"
  by pat_completeness auto

termination
  by (relation "measures [\<lambda>(buf, buf_len, old, sz, i, k). buf_len - (i - k),
      \<lambda>(buf, buf_len, old, sz, i, k). buf_len - i]") auto

declare match_loop.simps [simp del]

definition ApplyPatch :: "farptr \<Rightarrow> nat \<Rightarrow> u8 list \<Rightarrow> u8 list \<Rightarrow> nat \<Rightarrow> memory \<Rightarrow> memory" where
  "ApplyPatch p buf_len old new sz mem =
    (let i = match_loop (\<lambda>k. mread mem (far_add p k)) buf_len old sz 0 0
     in if i \<ge> buf_len then mem
        else fold (\<lambda>j. mwrite (far_add p (i + j)) (new ! j)) [0..<sz] mem)"

definition ApplyPatches :: "int \<Rightarrow> nat \<Rightarrow> u16 \<Rightarrow> memory \<Rightarrow> memory" where
  "ApplyPatches no_mem_patch players segment mem =
    (let buf = MK_FP segment 0
     in if no_mem_patch \<noteq> 0 then mem
        else
          (let mem1 = (if players > 2 then
                 ApplyPatch buf 0xffff move_oxen_old move_oxen_new (length move_oxen_old) mem
               else mem)
           in ApplyPatch buf 0xffff respawn_time_old respawn_time_new (length respawn_time_old) mem1))"

section \<open>The search finds the first occurrence\<close>

definition occurs_at :: "(nat \<Rightarrow> u8) \<Rightarrow> u8 list \<Rightarrow> nat \<Rightarrow> bool" where
  "occurs_at buf old s \<longleftrightarrow> (\<forall>j < length old. buf (s + j) = old ! j)"

text \<open>The place of the first occurrence that lies within the first \<open>n\<close> bytes.\<close>

definition first_occurrence :: "(nat \<Rightarrow> u8) \<Rightarrow> nat \<Rightarrow> u8 list \<Rightarrow> nat option" where
  "first_occurrence buf n old = find (\<lambda>s. s + length old \<le> n \<and> occurs_at buf old s) [0..<n]"

text \<open>There is no occurrence before \<open>s\<close>, and what the search gives.\<close>

definition none_before :: "(nat \<Rightarrow> u8) \<Rightarrow> nat \<Rightarrow> u8 list \<Rightarrow> nat \<Rightarrow> bool" where
  "none_before buf n old s \<longleftrightarrow> (\<forall>r < s. \<not> (r + length old \<le> n \<and> occurs_at buf old r))"

definition search_result :: "(nat \<Rightarrow> u8) \<Rightarrow> nat \<Rightarrow> u8 list \<Rightarrow> nat \<Rightarrow> bool" where
  "search_result buf n old r \<longleftrightarrow>
     r < n \<and> r + length old \<le> n \<and> occurs_at buf old r \<and> none_before buf n old r
     \<or> n \<le> r \<and> none_before buf n old n"

text \<open>The end of the buffer within a partial match, and a byte that differs.\<close>

lemma none_before_end:
  assumes "none_before buf n old (i - k)" and "k \<le> i" and "k < length old" and "n \<le> i"
  shows "none_before buf n old n"
  unfolding none_before_def
proof (intro allI impI)
  fix r assume "r < n"
  show "\<not> (r + length old \<le> n \<and> occurs_at buf old r)"
    using assms by (cases "r < i - k") (auto simp: none_before_def)
qed

lemma none_before_mismatch:
  assumes "none_before buf n old (i - k)" and "k \<le> i" and "k < length old" and "buf i \<noteq> old ! k"
  shows "none_before buf n old (i - k + 1)"
proof -
  have "\<not> occurs_at buf old (i - k)" using assms(2-4) by (auto simp: occurs_at_def)
  with assms(1) show ?thesis by (auto simp: none_before_def less_Suc_eq)
qed

lemma match_loop_result:
  assumes "k \<le> i" and "k < length old" and "i \<le> n"
    and "\<forall>j < k. buf (i - k + j) = old ! j" and "none_before buf n old (i - k)"
  shows "search_result buf n old (match_loop buf n old (length old) i k)"
  using assms
proof (induction buf n old "length old" i k rule: match_loop.induct)
  case (1 buf n old i k)
  note run = match_loop.simps [of buf n old "length old" i k]
  consider (finished) "\<not> i < n" | (mismatch) "i < n" "buf i \<noteq> old ! k"
    | (complete) "i < n" "buf i = old ! k" "k + 1 \<ge> length old"
    | (partial) "i < n" "buf i = old ! k" "\<not> k + 1 \<ge> length old" by blast
  then show ?case
  proof cases
    case finished
    with none_before_end [OF "1.prems"(5,1,2)] show ?thesis by (simp add: run search_result_def)
  next
    case mismatch
    then have "old \<noteq> []" "i - k + 1 \<le> n" using "1.prems"(2) by auto
    with none_before_mismatch [OF "1.prems"(5,1,2) mismatch(2)] "1.hyps"(1) [OF mismatch]
    show ?thesis using mismatch by (simp add: run)
  next
    case complete
    then have "length old = Suc k" using "1.prems"(2) by simp
    then have "occurs_at buf old (i - k)" "i - k + length old \<le> n"
      using complete "1.prems"(1,4) by (auto simp: occurs_at_def less_Suc_eq)
    with complete "1.prems"(5) show ?thesis by (auto simp: run search_result_def)
  next
    case partial
    then have "\<forall>j < Suc k. buf (i - k + j) = old ! j" using "1.prems"(1,4) by (auto simp: less_Suc_eq)
    with partial "1.hyps"(2) [OF partial(1) _ partial(3)] "1.prems"(1,5) show ?thesis by (simp add: run)
  qed
qed

lemma match_loop_first:
  assumes "old \<noteq> []"
  shows "match_loop buf n old (length old) 0 0 =
    (case first_occurrence buf n old of Some s \<Rightarrow> s
     | None \<Rightarrow> match_loop buf n old (length old) 0 0)"
    and "first_occurrence buf n old = None \<Longrightarrow> n \<le> match_loop buf n old (length old) 0 0"
    and "first_occurrence buf n old = Some s \<Longrightarrow> s + length old \<le> n \<and> s < n"
proof -
  let ?P = "\<lambda>s. s + length old \<le> n \<and> occurs_at buf old s"
  note r = match_loop_result [of 0 0 old n buf, unfolded search_result_def none_before_def]
  show "first_occurrence buf n old = None \<Longrightarrow> n \<le> match_loop buf n old (length old) 0 0"
    using r assms by (fastforce simp: first_occurrence_def find_None_iff)
  show "first_occurrence buf n old = Some s \<Longrightarrow> s + length old \<le> n \<and> s < n"
    by (auto simp: first_occurrence_def find_Some_iff)
  show "match_loop buf n old (length old) 0 0 =
    (case first_occurrence buf n old of Some s \<Rightarrow> s
     | None \<Rightarrow> match_loop buf n old (length old) 0 0)"
  proof (cases "first_occurrence buf n old")
    case (Some s)
    then have s: "s < n" "?P s" "\<forall>j < s. \<not> ?P j"
      by (auto simp: first_occurrence_def find_Some_iff)
    then have "match_loop buf n old (length old) 0 0 = s"
      using r assms by (auto simp: not_less) (meson linorder_neqE_nat)+
    with Some show ?thesis by simp
  qed simp
qed

section \<open>The patches\<close>

definition patched :: "farptr \<Rightarrow> nat \<Rightarrow> u8 list \<Rightarrow> u8 list \<Rightarrow> memory \<Rightarrow> memory" where
  "patched p n old new mem =
    (case first_occurrence (\<lambda>k. mread mem (far_add p k)) n old of
       None \<Rightarrow> mem | Some s \<Rightarrow> mstore (far_add p s) new mem)"

lemma fold_mwrite: "fold (\<lambda>j. mwrite (far_add p (s + j)) (xs ! j)) [0..<length xs] mem = mstore (far_add p s) xs mem"
proof (induction xs rule: rev_induct)
  case (snoc x xs)
  have "fold (\<lambda>j. mwrite (far_add p (s + j)) ((xs @ [x]) ! j)) [0..<length xs] mem
      = fold (\<lambda>j. mwrite (far_add p (s + j)) (xs ! j)) [0..<length xs] mem"
    by (rule fold_cong) (auto simp: nth_append)
  with snoc show ?case by (simp add: mstore_snoc)
qed simp

lemma ApplyPatch_patched:
  assumes "old \<noteq> []" and "length new = length old"
  shows "ApplyPatch p n old new (length old) mem = patched p n old new mem"
proof -
  define buf where "buf = (\<lambda>k. mread mem (far_add p k))"
  note m = match_loop_first [OF assms(1), of buf n]
  show ?thesis
  proof (cases "first_occurrence buf n old")
    case None
    from m(2) [OF None] None show ?thesis
      by (simp add: ApplyPatch_def patched_def buf_def [symmetric] Let_def)
  next
    case (Some s)
    then have "match_loop buf n old (length old) 0 0 = s" using m(1) by simp
    with m(3) [OF Some] Some show ?thesis
      by (simp add: ApplyPatch_def patched_def buf_def [symmetric] Let_def fold_mwrite assms(2) [symmetric])
  qed
qed

text \<open>What a patch changes: bytes of the first occurrence, and only where the two patterns
  differ.\<close>

lemma patched_cases:
  assumes "snd p = 0" and "n < 2 ^ 16" and "length new = length old"
  obtains "patched p n old new mem = mem"
  | s where "s + length old \<le> n" and "\<And>a. patched p n old new mem a \<noteq> mem a \<Longrightarrow>
      \<exists>j < length old. a = phys (far_add p (s + j)) \<and> mem a = old ! j
        \<and> patched p n old new mem a = new ! j \<and> old ! j \<noteq> new ! j"
proof (cases "first_occurrence (\<lambda>k. mread mem (far_add p k)) n old")
  case None
  then show thesis using that(1) by (simp add: patched_def)
next
  case (Some s)
  then have s: "s + length old \<le> n" "occurs_at (\<lambda>k. mread mem (far_add p k)) old s"
    by (auto simp: first_occurrence_def find_Some_iff)
  let ?q = "far_add p s"
  have eq: "patched p n old new mem = mstore ?q new mem" using Some by (simp add: patched_def)
  have fit: "fits ?q (length new)"
    using s(1) assms by (simp add: fits_def far_add_def)
  show thesis
  proof (rule that(2) [OF s(1)])
    fix a assume "patched p n old new mem a \<noteq> mem a"
    then have diff: "mstore ?q new mem a \<noteq> mem a" by (simp add: eq)
    then obtain j where j: "j < length new" "a = phys (far_add ?q j)"
      using mstore_other [of new a ?q mem] by blast
    have "mstore ?q new mem a = new ! j"
      using mread_mstore [OF fit j(1), of mem] by (simp add: mread_def j(2))
    moreover have "mem a = old ! j"
      using s(2) j assms(3) by (simp add: occurs_at_def mread_def)
    ultimately show "\<exists>j < length old. a = phys (far_add p (s + j)) \<and> mem a = old ! j
        \<and> patched p n old new mem a = new ! j \<and> old ! j \<noteq> new ! j"
      using diff j assms(3) by (intro exI [of _ j]) (simp add: eq)
  qed
qed

lemma pattern_lengths:
  "length move_oxen_old = 8" "length move_oxen_new = 8"
  "length respawn_time_old = 17" "length respawn_time_new = 17"
  by (simp_all add: move_oxen_old_def move_oxen_new_def respawn_time_old_def respawn_time_new_def)

lemma respawn_difference:
  "j < 17 \<Longrightarrow> respawn_time_old ! j \<noteq> respawn_time_new ! j \<Longrightarrow>
    j = 7 \<and> respawn_time_old ! j = 10 \<and> respawn_time_new ! j = 16"
  by (auto simp: respawn_time_old_def respawn_time_new_def nth_Cons' split: if_splits)

lemma ApplyPatches_patched:
  "ApplyPatches flag players segment mem =
    (if flag \<noteq> 0 then mem
     else patched (segment, 0) 0xffff respawn_time_old respawn_time_new
       (if players > 2 then patched (segment, 0) 0xffff move_oxen_old move_oxen_new mem else mem))"
proof -
  have "ApplyPatch p n move_oxen_old move_oxen_new (length move_oxen_old) m
      = patched p n move_oxen_old move_oxen_new m" for p n m
    by (rule ApplyPatch_patched) (simp_all add: move_oxen_old_def move_oxen_new_def)
  moreover have "ApplyPatch p n respawn_time_old respawn_time_new (length respawn_time_old) m
      = patched p n respawn_time_old respawn_time_new m" for p n m
    by (rule ApplyPatch_patched) (simp_all add: respawn_time_old_def respawn_time_new_def)
  ultimately show ?thesis by (simp add: ApplyPatches_def MK_FP_def Let_def)
qed

text \<open>The addresses that the two patches change.\<close>

lemma respawn_changes:
  fixes segment :: u16
  defines "re \<equiv> patched (segment, 0) 0xffff respawn_time_old respawn_time_new"
  shows "(\<forall>a. re m a \<noteq> m a \<longrightarrow> m a = 10 \<and> re m a = 16) \<and> (\<exists>A. finite A \<and> card A \<le> 1 \<and> {a. re m a \<noteq> m a} \<subseteq> A)"
proof (rule patched_cases [of "(segment, 0)" "0xffff" respawn_time_new respawn_time_old m, folded re_def])
  assume "re m = m"
  then show ?thesis by (intro conjI exI [of _ "{}"]) auto
next
  fix s
  let ?a = "phys (far_add (segment, 0) (s + 7))"
  assume "\<And>a. re m a \<noteq> m a \<Longrightarrow> \<exists>j < length respawn_time_old. a = phys (far_add (segment, 0) (s + j))
    \<and> m a = respawn_time_old ! j \<and> re m a = respawn_time_new ! j \<and> respawn_time_old ! j \<noteq> respawn_time_new ! j"
  then have "a = ?a \<and> m a = 10 \<and> re m a = 16" if "re m a \<noteq> m a" for a
    using that respawn_difference unfolding pattern_lengths by metis
  then show ?thesis by (intro conjI exI [of _ "{?a}"]) auto
qed (simp_all add: pattern_lengths)

lemma oxen_changes:
  fixes segment :: u16
  defines "ox \<equiv> patched (segment, 0) 0xffff move_oxen_old move_oxen_new"
  shows "\<exists>A. finite A \<and> card A \<le> 8 \<and> {a. ox m a \<noteq> m a} \<subseteq> A"
proof (rule patched_cases [of "(segment, 0)" "0xffff" move_oxen_new move_oxen_old m, folded ox_def])
  assume "ox m = m"
  then show ?thesis by (intro exI [of _ "{}"]) auto
next
  fix s
  let ?A = "(\<lambda>j. phys (far_add (segment, 0) (s + j))) ` {..<8}"
  assume "\<And>a. ox m a \<noteq> m a \<Longrightarrow> \<exists>j < length move_oxen_old. a = phys (far_add (segment, 0) (s + j))
    \<and> m a = move_oxen_old ! j \<and> ox m a = move_oxen_new ! j \<and> move_oxen_old ! j \<noteq> move_oxen_new ! j"
  then have "{a. ox m a \<noteq> m a} \<subseteq> ?A" unfolding pattern_lengths by blast
  moreover have "card ?A \<le> 8" using card_image_le [of "{..<8 :: nat}"] by force
  ultimately show ?thesis by (intro exI [of _ ?A]) auto
qed (simp_all add: pattern_lengths)

section \<open>Properties\<close>

text \<open>C25: the search never misses: \<^verbatim>\<open>ApplyPatch\<close> replaces the first occurrence of the
  old bytes that lies in the buffer, also when partial matches overlap with it, and changes
  nothing when there is none.\<close>

theorem ApplyPatch_correct:
  assumes "old \<noteq> []" and "length new = length old" and "snd p = 0" and "n < 2 ^ 16"
  shows "case first_occurrence (\<lambda>k. mread mem (far_add p k)) n old of
      None \<Rightarrow> ApplyPatch p n old new (length old) mem = mem
        \<and> (\<forall>s. s + length old \<le> n \<longrightarrow> region mem (far_add p s) (length old) \<noteq> old)
    | Some s \<Rightarrow> s + length old \<le> n \<and> region mem (far_add p s) (length old) = old
        \<and> (\<forall>r < s. region mem (far_add p r) (length old) \<noteq> old)
        \<and> region (ApplyPatch p n old new (length old) mem) (far_add p s) (length old) = new
        \<and> (\<forall>a. (\<forall>j < length old. a \<noteq> phys (far_add p (s + j))) \<longrightarrow>
              ApplyPatch p n old new (length old) mem a = mem a)"
proof -
  let ?buf = "\<lambda>k. mread mem (far_add p k)"
  have occ: "occurs_at ?buf old s \<longleftrightarrow> region mem (far_add p s) (length old) = old" for s
    by (auto simp: occurs_at_def list_eq_iff_nth_eq)
  have pos: "0 < length old" using assms(1) by simp
  show ?thesis
  proof (cases "first_occurrence ?buf n old")
    case None
    have "region mem (far_add p s) (length old) \<noteq> old" if "s + length old \<le> n" for s
    proof -
      have "s < n" using that pos by linarith
      then have "s \<in> set [0..<n]" by simp
      then show ?thesis using None that occ by (simp add: first_occurrence_def find_None_iff)
    qed
    with None show ?thesis by (simp add: ApplyPatch_patched [OF assms(1,2)] patched_def)
  next
    case (Some s)
    then have s: "s + length old \<le> n" "occurs_at ?buf old s" "\<And>r. r < s \<Longrightarrow> \<not> occurs_at ?buf old r"
      by (auto simp: first_occurrence_def find_Some_iff)
    have "fits (far_add p s) (length new)"
      using s(1) assms by (simp add: fits_def far_add_def)
    then have "region (mstore (far_add p s) new mem) (far_add p s) (length old) = new"
      by (rule region_mstore) (simp add: assms(2))
    moreover have "mstore (far_add p s) new mem a = mem a"
      if "\<forall>j < length old. a \<noteq> phys (far_add p (s + j))" for a
      using that assms(2) by (intro mstore_other) simp
    ultimately show ?thesis
      using Some s occ by (simp add: ApplyPatch_patched [OF assms(1,2)] patched_def)
  qed
qed

theorem ApplyPatch_correct_witness:
  "region (ApplyPatch (0, 0) 10 [97, 98] [1, 2] 2 (\<lambda>a. if a = 2 then 98 else 97)) (0, 1) 2 = [1, 2]"
proof -
  let ?mem = "\<lambda>a. if a = 2 then 98 else 97 :: u8"
  let ?buf = "\<lambda>k. mread ?mem (far_add (0, 0) k)"
  have "occurs_at ?buf [97, 98] s \<longleftrightarrow> ?buf s = 97 \<and> ?buf (s + 1) = 98" for s
    by (auto simp: occurs_at_def less_Suc_eq)
  moreover have "?buf 0 = 97" "?buf 1 = 97" "?buf (1 + 1) = 98" "?buf (0 + 1) = 97"
    by (simp_all add: mread_def far_add_def phys_def)
  moreover have "[0..<10] = 0 # 1 # [2..<10 :: nat]" by (simp add: upt_conv_Cons)
  ultimately have first: "first_occurrence ?buf 10 [97, 98] = Some 1"
    by (simp add: first_occurrence_def)
  have "length [97, 98 :: u8] = 2" by simp
  from ApplyPatch_correct [of "[97, 98]" "[1, 2]" "(0, 0)" 10 ?mem, unfolded first this option.case]
  show ?thesis by (simp add: far_add_def)
qed

text \<open>C26: what the patches do to the memory of the game is small: nothing with the flag
  \<^verbatim>\<open>-nomempatch\<close>; at most the one byte of the respawn delay, from 10 to 16, in a game of
  two; at most that one and the eight bytes of the positions of the oxen otherwise.\<close>

theorem ApplyPatches_changes:
  "(flag \<noteq> 0 \<longrightarrow> ApplyPatches flag players segment mem = mem)
   \<and> (players \<le> 2 \<longrightarrow> (\<forall>a. ApplyPatches flag players segment mem a \<noteq> mem a \<longrightarrow>
        mem a = 10 \<and> ApplyPatches flag players segment mem a = 16))
   \<and> finite {a. ApplyPatches flag players segment mem a \<noteq> mem a}
   \<and> card {a. ApplyPatches flag players segment mem a \<noteq> mem a} \<le> (if players \<le> 2 then 1 else 9)"
proof -
  let ?p = "(segment, 0) :: farptr"
  let ?ox = "patched ?p 0xffff move_oxen_old move_oxen_new"
  let ?re = "patched ?p 0xffff respawn_time_old respawn_time_new"
  note re = respawn_changes [of segment] and ox = oxen_changes [of segment]
  obtain A where A: "finite A" "card A \<le> 8" "{a. ?ox mem a \<noteq> mem a} \<subseteq> A" using ox by blast
  obtain B where B: "finite B" "card B \<le> 1" "{a. ?re mem a \<noteq> mem a} \<subseteq> B" using re by blast
  obtain C where C: "finite C" "card C \<le> 1" "{a. ?re (?ox mem) a \<noteq> ?ox mem a} \<subseteq> C" using re by blast
  have "{a. ?re (?ox mem) a \<noteq> mem a} \<subseteq> {a. ?ox mem a \<noteq> mem a} \<union> {a. ?re (?ox mem) a \<noteq> ?ox mem a}"
    by auto
  with A(3) C(3) have "{a. ?re (?ox mem) a \<noteq> mem a} \<subseteq> A \<union> C" by blast
  moreover have "card (A \<union> C) \<le> 9" using card_Un_le [of A C] A(2) C(2) by simp
  ultimately have big: "finite {a. ?re (?ox mem) a \<noteq> mem a}" "card {a. ?re (?ox mem) a \<noteq> mem a} \<le> 9"
    using A(1) C(1) by (auto intro: finite_subset dest: card_mono [rotated])
  have small: "finite {a. ?re mem a \<noteq> mem a}" "card {a. ?re mem a \<noteq> mem a} \<le> 1"
    using B by (auto intro: finite_subset dest: card_mono [rotated])
  show ?thesis
    using re [of mem] big small by (auto simp: ApplyPatches_patched)
qed

text \<open>A game whose code begins with the instructions of the respawn delay.\<close>

definition sample_game :: memory where
  "sample_game a = (if a < 17 then respawn_time_old ! a else 0)"

lemma sample_game_patched: "ApplyPatches 0 2 0 sample_game = mstore (0, 0) respawn_time_new sample_game"
proof -
  let ?buf = "\<lambda>k. mread sample_game (far_add (0, 0) k)"
  have "?buf k = respawn_time_old ! k" if "k < 17" for k
  proof -
    have "unat (word_of_nat k :: u16) = k" using that by (simp add: unat_of_nat take_bit_nat_eq_self)
    then show ?thesis using that by (simp add: mread_def far_add_def phys_def sample_game_def)
  qed
  then have "occurs_at ?buf respawn_time_old 0" by (simp add: occurs_at_def pattern_lengths)
  then have "first_occurrence ?buf 0xffff respawn_time_old = Some 0"
    unfolding first_occurrence_def find_Some_iff by (intro exI [of _ 0]) (simp add: pattern_lengths)
  then show ?thesis by (simp add: ApplyPatches_patched patched_def)
qed

theorem ApplyPatches_changes_witness:
  "ApplyPatches 0 2 0 sample_game 7 = 16 \<and> sample_game 7 = 10
    \<and> card {a. ApplyPatches 0 2 0 sample_game a \<noteq> sample_game a} \<le> 1
    \<and> ApplyPatches 1 2 0 sample_game = sample_game"
proof -
  have "fits (0, 0) (length respawn_time_new)" by (simp add: fits_def pattern_lengths)
  then have "mread (mstore (0, 0) respawn_time_new sample_game) (far_add (0, 0) 7) = respawn_time_new ! 7"
    by (rule mread_mstore) (simp add: pattern_lengths)
  then have "ApplyPatches 0 2 0 sample_game 7 = respawn_time_new ! 7"
    unfolding sample_game_patched by (simp add: mread_def far_add_def phys_def)
  moreover have "respawn_time_new ! 7 = 16" "respawn_time_new ! 7 \<noteq> sample_game 7"
    by (simp_all add: sample_game_def respawn_time_new_def respawn_time_old_def)
  ultimately show ?thesis
    using ApplyPatches_changes [of 0 2 0 sample_game] ApplyPatches_changes [of 1 2 0 sample_game] by simp
qed

end
