(* ===== verification/Ints.thy ===== *)
theory Ints
  imports Prelude
begin

text \<open>
  Interrupt vectors and hardware interrupts: \<^verbatim>\<open>lib/ints.c\<close>. What the machine
  and DOS keep (the vector table, the mask of the interrupt controller, the environment) is one
  record of state; what a hook remembers is another.
\<close>

section \<open>Vectors\<close>

text \<open>A handler: none (the null pointer), one of the program's own, or another program's.\<close>

datatype handler = NullHandler | OwnHandler nat | OtherHandler nat

text \<open>The part of the machine that hooks change. Interrupt numbers are natural numbers.\<close>

record pc =
  ivt :: "nat \<Rightarrow> handler"
  pic_data :: u8
  env :: "string \<rightharpoonup> string"

definition dos_getvect :: "nat \<Rightarrow> pc \<Rightarrow> handler" where
  "dos_getvect i s = ivt s i"

definition dos_setvect :: "nat \<Rightarrow> handler \<Rightarrow> pc \<Rightarrow> pc" where
  "dos_setvect i h s = s\<lparr>ivt := (ivt s)(i := h)\<rparr>"

definition MIN_USER_INTERRUPT :: nat where "MIN_USER_INTERRUPT = 0x60"

definition MAX_USER_INTERRUPT :: nat where "MAX_USER_INTERRUPT = 0x80"

record interrupt_hook =
  force_vector :: nat
  interrupt_num :: nat
  old_isr :: handler

fun free_from :: "nat list \<Rightarrow> pc \<Rightarrow> nat" where
  "free_from [] s = 0"
| "free_from (i # is) s = (if dos_getvect i s = NullHandler then i else free_from is s)"

definition FindFreeInterrupt :: "pc \<Rightarrow> nat" where
  "FindFreeInterrupt = free_from [MIN_USER_INTERRUPT..<MAX_USER_INTERRUPT + 1]"

definition FindAndHookInterrupt :: "interrupt_hook \<Rightarrow> handler \<Rightarrow> pc \<Rightarrow> nat \<times> interrupt_hook \<times> pc" where
  "FindAndHookInterrupt h isr s =
    (let n = (if force_vector h \<noteq> 0 then force_vector h else FindFreeInterrupt s);
         h1 = h\<lparr>interrupt_num := n\<rparr>
     in if force_vector h = 0 \<and> n = 0 then (0, h1, s)
        else (1, h1\<lparr>old_isr := dos_getvect n s\<rparr>, dos_setvect n isr s))"

definition RestoreInterrupt :: "interrupt_hook \<Rightarrow> pc \<Rightarrow> interrupt_hook \<times> pc" where
  "RestoreInterrupt h s =
    (if interrupt_num h = 0 then (h, s)
     else (h\<lparr>interrupt_num := 0\<rparr>, dos_setvect (interrupt_num h) (old_isr h) s))"

section \<open>Hardware interrupts\<close>

record irq_hook =
  irq :: nat
  irq_old_isr :: handler
  was_masked :: bool
  chained :: bool

definition digit :: "nat \<Rightarrow> char" where
  "digit n = char_of (48 + n)"

text \<open>The name in the environment; the number has one digit.\<close>

definition chain_name :: "nat \<Rightarrow> string" where
  "chain_name n = ''CHAIN_IRQ'' @ [digit n]"

definition CheckChainedIRQ :: "nat \<Rightarrow> pc \<Rightarrow> bool" where
  "CheckChainedIRQ n s = (env s (chain_name n) = Some ''1'')"

definition SetChainedIRQ :: "irq_hook \<Rightarrow> bool \<Rightarrow> pc \<Rightarrow> pc" where
  "SetChainedIRQ h enable s =
     s\<lparr>env := (env s)(chain_name (irq h) \<mapsto> (if enable then ''1'' else ''''))\<rparr>"

definition SetIRQMask :: "irq_hook \<Rightarrow> pc \<Rightarrow> pc" where
  "SetIRQMask h s = s\<lparr>pic_data := pic_data s OR push_bit (irq h) 1\<rparr>"

definition ClearIRQMask :: "irq_hook \<Rightarrow> pc \<Rightarrow> pc" where
  "ClearIRQMask h s = s\<lparr>pic_data := pic_data s AND NOT (push_bit (irq h) 1)\<rparr>"

definition HookIRQ :: "irq_hook \<Rightarrow> handler \<Rightarrow> nat \<Rightarrow> pc \<Rightarrow> (irq_hook \<times> pc) outcome" where
  "HookIRQ h isr n s =
    (if \<not> n < 8 then Fault AssertFailed
     else
       (let h1 = h\<lparr>irq := n, chained := CheckChainedIRQ n s\<rparr>;
            s1 = (if \<not> chained h1 then SetChainedIRQ h1 True s else s);
            h2 = h1\<lparr>was_masked := (pic_data s1 AND push_bit n 1 \<noteq> 0), irq_old_isr := dos_getvect (8 + n) s1\<rparr>;
            s2 = dos_setvect (8 + n) isr s1
        in Done (h2, ClearIRQMask h2 s2)))"

definition RestoreIRQ :: "irq_hook \<Rightarrow> pc \<Rightarrow> pc" where
  "RestoreIRQ h s =
    (let s1 = dos_setvect (8 + irq h) (irq_old_isr h) (SetIRQMask h s);
         s2 = (if \<not> was_masked h then ClearIRQMask h s1 else s1)
     in if \<not> chained h then SetChainedIRQ h False s2 else s2)"

section \<open>Hooks that nest\<close>

text \<open>The contract of a pair of operations that install something and take it away again: what
  matters of the machine (its view) is back after the second, whatever is done in between leaves
  the view as it was, and taking away depends on the view only. Then any number of hooks that are
  taken away in the reverse order leave no trace.\<close>

locale hook_pair =
  fixes hook :: "'a \<Rightarrow> 's \<Rightarrow> ('h \<times> 's) option" and restore :: "'h \<Rightarrow> 's \<Rightarrow> 's" and view :: "'s \<Rightarrow> 'v"
  assumes restores: "hook a s = Some (h, t) \<Longrightarrow> view (restore h t) = view s"
    and restore_view: "view t = view t' \<Longrightarrow> view (restore h t) = view (restore h t')"
begin

fun hook_all :: "'a list \<Rightarrow> 's \<Rightarrow> ('h list \<times> 's) option" where
  "hook_all [] s = Some ([], s)"
| "hook_all (a # as) s = (case hook a s of None \<Rightarrow> None | Some (h, t) \<Rightarrow>
     (case hook_all as t of None \<Rightarrow> None | Some (hs, u) \<Rightarrow> Some (h # hs, u)))"

lemma restore_all_view: "view t = view t' \<Longrightarrow> view (foldr restore hs t) = view (foldr restore hs t')"
  by (induction hs) (auto intro: restore_view)

lemma nested:
  "hook_all as s = Some (hs, t) \<Longrightarrow> view u = view t \<Longrightarrow> view (foldr restore hs u) = view s"
proof (induction "as" arbitrary: s hs)
  case (Cons a as)
  then obtain h v hs' where h: "hook a s = Some (h, v)" "hook_all as v = Some (hs', t)" "hs = h # hs'"
    by (auto split: option.splits)
  from Cons.IH [OF h(2) Cons.prems(2)] have "view (foldr restore hs' u) = view v" .
  from restore_view [OF this, of h] restores [OF h(1)] show ?case by (simp add: h(3))
qed simp

end

section \<open>User interrupts\<close>

definition user_hook :: "nat \<times> handler \<Rightarrow> pc \<Rightarrow> (interrupt_hook \<times> pc) option" where
  "user_hook = (\<lambda>(force, isr) s.
     (case FindAndHookInterrupt \<lparr>force_vector = force, interrupt_num = 0, old_isr = NullHandler\<rparr> isr s of
        (r, h, t) \<Rightarrow> if r = 0 then None else Some (h, t)))"

interpretation user: hook_pair user_hook "\<lambda>h t. snd (RestoreInterrupt h t)" ivt
proof
  fix a s h t assume "user_hook a s = Some (h, t)"
  then show "ivt (snd (RestoreInterrupt h t)) = ivt s"
    by (auto simp: user_hook_def FindAndHookInterrupt_def RestoreInterrupt_def Let_def dos_setvect_def
        dos_getvect_def split: prod.splits if_splits)
qed (simp add: RestoreInterrupt_def dos_setvect_def)

lemma free_from_cases:
  assumes "0 \<notin> set is" and "sorted is"
  shows "(free_from is s = 0 \<longleftrightarrow> (\<forall>i \<in> set is. dos_getvect i s \<noteq> NullHandler))
    \<and> (free_from is s \<noteq> 0 \<longrightarrow> free_from is s \<in> set is \<and> dos_getvect (free_from is s) s = NullHandler
          \<and> (\<forall>i \<in> set is. i < free_from is s \<longrightarrow> dos_getvect i s \<noteq> NullHandler))"
  using assms by (induction "is") (auto simp: not_less)

section \<open>Hardware interrupts, hooked and restored\<close>

definition line_hook :: "handler \<times> nat \<Rightarrow> pc \<Rightarrow> (irq_hook \<times> pc) option" where
  "line_hook = (\<lambda>(isr, n) s.
     (case HookIRQ \<lparr>irq = 0, irq_old_isr = NullHandler, was_masked = False, chained = False\<rparr> isr n s of
        Done (h, t) \<Rightarrow> Some (h, t) | _ \<Rightarrow> None))"

definition line_view :: "pc \<Rightarrow> (nat \<Rightarrow> handler) \<times> u8 \<times> (nat \<Rightarrow> bool)" where
  "line_view s = (ivt s, pic_data s, \<lambda>n. n < 8 \<and> CheckChainedIRQ n s)"

lemma chain_name_inj: "n < 8 \<Longrightarrow> m < 8 \<Longrightarrow> chain_name n = chain_name m \<longleftrightarrow> n = m"
  by (auto simp: chain_name_def digit_def dest!: arg_cong [where f = "of_char :: char \<Rightarrow> nat"])

lemma mask_bits:
  fixes x m :: u8
  shows "m AND x = m \<Longrightarrow> x AND NOT m OR m = x" and "m AND x = 0 \<Longrightarrow> (x AND NOT m OR m) AND NOT m = x"
  by (auto simp: bit_eq_iff bit_simps)

lemma masked_iff: "x AND push_bit n 1 \<noteq> 0 \<longleftrightarrow> push_bit n 1 AND x = (push_bit n 1 :: u8)"
  if "n < 8" for x :: u8
proof -
  have "x AND push_bit n 1 = (if bit x n then push_bit n 1 else 0)"
    by (rule bit_word_eqI) (auto simp: bit_simps)
  moreover have "bit (push_bit n 1 :: u8) n" using that by (simp add: bit_simps)
  then have "push_bit n 1 \<noteq> (0 :: u8)" by (rule contrapos_pn) (simp del: push_bit_of_1)
  ultimately show ?thesis by (simp add: and.commute)
qed

lemma HookIRQ_eq:
  assumes "n < 8"
  shows "HookIRQ h isr n s = Done
    (h\<lparr>irq := n, chained := CheckChainedIRQ n s, was_masked := (pic_data s AND push_bit n 1 \<noteq> 0),
       irq_old_isr := ivt s (8 + n)\<rparr>,
     s\<lparr>ivt := (ivt s)(8 + n := isr), pic_data := pic_data s AND NOT (push_bit n 1),
       env := (if CheckChainedIRQ n s then env s else (env s)(chain_name n \<mapsto> ''1''))\<rparr>)"
  using assms
  by (simp add: HookIRQ_def Let_def SetChainedIRQ_def ClearIRQMask_def dos_setvect_def dos_getvect_def)

lemma RestoreIRQ_eq:
  "RestoreIRQ h s = s\<lparr>ivt := (ivt s)(8 + irq h := irq_old_isr h),
     pic_data := (if was_masked h then pic_data s OR push_bit (irq h) 1
                  else (pic_data s OR push_bit (irq h) 1) AND NOT (push_bit (irq h) 1)),
     env := (if chained h then env s else (env s)(chain_name (irq h) \<mapsto> ''''))\<rparr>"
  by (simp add: RestoreIRQ_def Let_def SetChainedIRQ_def ClearIRQMask_def SetIRQMask_def dos_setvect_def)

lemma line_view_eqI:
  "ivt t = ivt s \<Longrightarrow> pic_data t = pic_data s \<Longrightarrow> (\<And>k. k < 8 \<Longrightarrow> CheckChainedIRQ k t = CheckChainedIRQ k s) \<Longrightarrow>
    line_view t = line_view s"
  by (auto simp: line_view_def)

lemma line_view_eqD:
  assumes "line_view t = line_view s"
  shows "ivt t = ivt s" and "pic_data t = pic_data s" and "k < 8 \<Longrightarrow> CheckChainedIRQ k t = CheckChainedIRQ k s"
  using assms by (auto simp: line_view_def fun_eq_iff)

lemma HookIRQ_restore:
  assumes n: "n < 8" and hook: "HookIRQ h0 isr n s = Done (h, t)"
  shows "line_view (RestoreIRQ h t) = line_view s"
proof -
  note eq = hook [unfolded HookIRQ_eq [OF n], simplified]
  let ?m = "push_bit n 1 :: u8"
  have mask: "(if pic_data s AND ?m \<noteq> 0 then pic_data s AND NOT ?m OR ?m
      else (pic_data s AND NOT ?m OR ?m) AND NOT ?m) = pic_data s"
  proof (cases "pic_data s AND ?m \<noteq> 0")
    case True
    then have "?m AND pic_data s = ?m" using masked_iff [OF n] by blast
    from mask_bits(1) [OF this] True show ?thesis by simp
  next
    case False
    then have "?m AND pic_data s = 0" by (simp add: and.commute)
    from mask_bits(2) [OF this] False show ?thesis by simp
  qed
  show ?thesis
  proof (rule line_view_eqI)
    show "ivt (RestoreIRQ h t) = ivt s" "pic_data (RestoreIRQ h t) = pic_data s"
      using eq mask by (auto simp: RestoreIRQ_eq)
    fix k :: nat assume "k < 8"
    then show "CheckChainedIRQ k (RestoreIRQ h t) = CheckChainedIRQ k s"
      using eq n by (auto simp: RestoreIRQ_eq CheckChainedIRQ_def chain_name_inj split: if_splits)
  qed
qed

interpretation line: hook_pair line_hook RestoreIRQ line_view
proof
  fix a s h t assume "line_hook a s = Some (h, t)"
  then obtain isr n where hook: "HookIRQ \<lparr>irq = 0, irq_old_isr = NullHandler,
      was_masked = False, chained = False\<rparr> isr n s = Done (h, t)"
    by (cases a) (auto simp: line_hook_def split: outcome.splits)
  then have "n < 8" by (auto simp: HookIRQ_def split: if_splits)
  then show "line_view (RestoreIRQ h t) = line_view s" using hook by (rule HookIRQ_restore)
next
  fix t t' h assume v: "line_view t = line_view t'"
  note d = line_view_eqD [OF v]
  show "line_view (RestoreIRQ h t) = line_view (RestoreIRQ h t')"
  proof (rule line_view_eqI)
    fix k :: nat assume "k < 8"
    from d(3) [OF this] show "CheckChainedIRQ k (RestoreIRQ h t) = CheckChainedIRQ k (RestoreIRQ h t')"
      by (auto simp: RestoreIRQ_eq CheckChainedIRQ_def)
  qed (simp_all add: RestoreIRQ_eq d)
qed

section \<open>Properties\<close>

text \<open>C28: a user interrupt is hooked without taking a vector from anybody, unless the command
  line forces one. A forced vector is the one that is used; otherwise it is the first free vector of 0x60 to
  0x80. The call fails only if there is none, and then it has changed nothing; if it succeeds, the vector, and no
  other, has the new handler, and the old one is remembered. Restoring brings the vector table back.\<close>

theorem FindAndHookInterrupt_correct:
  assumes "FindAndHookInterrupt h isr s = (r, h', t)"
  shows "(r = 0 \<longleftrightarrow> force_vector h = 0 \<and> (\<forall>i \<in> {0x60..0x80}. ivt s i \<noteq> NullHandler))
    \<and> (r = 0 \<longrightarrow> t = s \<and> interrupt_num h' = 0)
    \<and> (r \<noteq> 0 \<longrightarrow> r = 1 \<and> ivt t (interrupt_num h') = isr
         \<and> (\<forall>i. i \<noteq> interrupt_num h' \<longrightarrow> ivt t i = ivt s i)
         \<and> old_isr h' = ivt s (interrupt_num h')
         \<and> (if force_vector h \<noteq> 0 then interrupt_num h' = force_vector h
            else interrupt_num h' \<in> {0x60..0x80} \<and> ivt s (interrupt_num h') = NullHandler
              \<and> (\<forall>i \<in> {0x60..<interrupt_num h'}. ivt s i \<noteq> NullHandler))
         \<and> ivt (snd (RestoreInterrupt h' t)) = ivt s)"
proof -
  let ?is = "[MIN_USER_INTERRUPT..<MAX_USER_INTERRUPT + 1]"
  have "{MIN_USER_INTERRUPT..<MAX_USER_INTERRUPT + 1} = {0x60..0x80}"
    by (auto simp: MIN_USER_INTERRUPT_def MAX_USER_INTERRUPT_def)
  then have set: "set ?is = {0x60..0x80}" by (simp only: set_upt)
  have "0 \<notin> set ?is" "sorted ?is" by (simp add: MIN_USER_INTERRUPT_def) (rule sorted_upt)
  define n where "n = free_from ?is s"
  note free = free_from_cases [OF \<open>0 \<notin> set ?is\<close> \<open>sorted ?is\<close>, of s, unfolded set, folded n_def]
  have first: "\<forall>i \<in> {0x60..<n}. ivt s i \<noteq> NullHandler" if "n \<noteq> 0"
    using free that by (auto simp: dos_getvect_def)
  show ?thesis
    using assms free first unfolding FindAndHookInterrupt_def FindFreeInterrupt_def n_def [symmetric]
    by (auto simp: Let_def RestoreInterrupt_def dos_setvect_def dos_getvect_def split: if_splits)
qed

definition sample_pc :: pc where
  "sample_pc = \<lparr>ivt = (\<lambda>i. if i = 0x60 then OtherHandler 1 else if i = 0x61 then NullHandler else OtherHandler 2),
     pic_data = 0xff, env = (\<lambda>_. None)\<rparr>"

theorem FindAndHookInterrupt_correct_witness:
  "\<exists>h' t. FindAndHookInterrupt \<lparr>force_vector = 0, interrupt_num = 0, old_isr = NullHandler\<rparr> (OwnHandler 0) sample_pc
      = (1, h', t) \<and> interrupt_num h' = 0x61 \<and> ivt t 0x61 = OwnHandler 0"
proof -
  let ?h = "\<lparr>force_vector = 0, interrupt_num = 0, old_isr = NullHandler\<rparr>"
  obtain r h' t where call: "FindAndHookInterrupt ?h (OwnHandler 0) sample_pc = (r, h', t)"
    by (cases "FindAndHookInterrupt ?h (OwnHandler 0) sample_pc")
  have "(force_vector ?h \<noteq> 0) = False" by simp
  note correct = FindAndHookInterrupt_correct [OF call, unfolded this if_False]
  have free: "ivt sample_pc i = NullHandler \<longleftrightarrow> i = 0x61" for i by (simp add: sample_pc_def)
  have "(0x61 :: nat) \<in> {0x60..0x80}" by simp
  then have "r \<noteq> 0" using correct free by blast
  then have "r = 1" "interrupt_num h' = 0x61" "ivt t (interrupt_num h') = OwnHandler 0"
    using correct free by blast+
  with call show ?thesis by auto
qed

text \<open>Hooking several lines, one after the other.\<close>

fun hook_lines :: "(handler \<times> nat) list \<Rightarrow> pc \<Rightarrow> (irq_hook list \<times> pc) outcome" where
  "hook_lines [] s = Done ([], s)"
| "hook_lines ((isr, n) # as) s =
    obind (HookIRQ \<lparr>irq = 0, irq_old_isr = NullHandler, was_masked = False, chained = False\<rparr> isr n s)
      (\<lambda>(h, t). obind (hook_lines as t) (\<lambda>(hs, u). Done (h # hs, u)))"

lemma hook_lines_ConsE:
  assumes "hook_lines ((isr, n) # as) s = Done (hs, u)"
  obtains h t hs' where "HookIRQ \<lparr>irq = 0, irq_old_isr = NullHandler, was_masked = False, chained = False\<rparr> isr n s = Done (h, t)"
    and "hook_lines as t = Done (hs', u)" and "hs = h # hs'" and "n < 8"
    and "chained h = CheckChainedIRQ n s" and "irq h = n"
    and "env t = (if CheckChainedIRQ n s then env s else (env s)(chain_name n \<mapsto> ''1''))"
proof -
  from assms obtain h t hs' where
    1: "HookIRQ \<lparr>irq = 0, irq_old_isr = NullHandler, was_masked = False, chained = False\<rparr> isr n s = Done (h, t)"
      "hook_lines as t = Done (hs', u)" "hs = h # hs'"
    by (auto simp: obind_eq_Done)
  then have "n < 8" by (auto simp: HookIRQ_def split: if_splits)
  with 1 that show ?thesis by (auto simp: HookIRQ_eq)
qed

lemma hook_lines_total: "\<forall>(isr, n) \<in> set as. n < 8 \<Longrightarrow> \<exists>hs t. hook_lines as s = Done (hs, t)"
proof (induction "as" arbitrary: s)
  case (Cons a as)
  obtain isr n where a: "a = (isr, n)" by (cases a)
  with Cons.prems have n: "n < 8" by simp
  obtain h u where hook: "HookIRQ \<lparr>irq = 0, irq_old_isr = NullHandler, was_masked = False, chained = False\<rparr> isr n s
      = Done (h, u)" using HookIRQ_eq [OF n] by blast
  obtain hs t where "hook_lines as u = Done (hs, t)" using Cons.IH [of u] Cons.prems by auto
  with hook show ?case by (simp add: a)
qed simp

lemma hook_lines_all: "hook_lines as s = Done (hs, t) \<Longrightarrow> line.hook_all as s = Some (hs, t)"
proof (induction "as" arbitrary: s hs)
  case (Cons a as)
  obtain isr n where a: "a = (isr, n)" by (cases a)
  from Cons.prems [unfolded a] show ?case
  proof (rule hook_lines_ConsE)
    fix h s1 hs'
    assume h: "HookIRQ \<lparr>irq = 0, irq_old_isr = NullHandler, was_masked = False, chained = False\<rparr> isr n s = Done (h, s1)"
      "hook_lines as s1 = Done (hs', t)" "hs = h # hs'"
    from h(1) have "line_hook (isr, n) s = Some (h, s1)" by (simp add: line_hook_def)
    with Cons.IH [OF h(2)] h(3) show ?thesis by (simp add: a)
  qed
qed simp

lemma hook_lines_less: "hook_lines as s = Done (hs, t) \<Longrightarrow> b \<in> set as \<Longrightarrow> snd b < 8"
proof (induction "as" arbitrary: s hs)
  case (Cons a as)
  obtain isr n where a: "a = (isr, n)" by (cases a)
  from Cons.prems(1) [unfolded a] show ?case
    by (rule hook_lines_ConsE) (use Cons.IH Cons.prems(2) in \<open>auto simp: a\<close>)
qed simp

text \<open>What stays in the environment: the variable of a line that was not chained is not deleted
  but left without a value.\<close>

lemma hook_lines_env:
  assumes "hook_lines as s = Done (hs, t)" and "env u = env t"
  shows "env (foldr RestoreIRQ hs u) x =
    (if \<exists>(isr, n) \<in> set as. \<not> CheckChainedIRQ n s \<and> x = chain_name n then Some '''' else env s x)"
  using assms
proof (induction "as" arbitrary: s hs)
  case (Cons a as)
  obtain isr n where a: "a = (isr, n)" by (cases a)
  from Cons.prems(1) [unfolded a] show ?case
  proof (rule hook_lines_ConsE)
    fix h s1 hs'
    assume h: "hook_lines as s1 = Done (hs', t)" "hs = h # hs'" "chained h = CheckChainedIRQ n s" "irq h = n"
      "env s1 = (if CheckChainedIRQ n s then env s else (env s)(chain_name n \<mapsto> ''1''))"
    have "CheckChainedIRQ m s1 = CheckChainedIRQ m s" if "CheckChainedIRQ n s \<or> chain_name m \<noteq> chain_name n" for m
      using that h(5) by (auto simp: CheckChainedIRQ_def)
    with Cons.IH [OF h(1) Cons.prems(2)] show ?thesis
      by (cases "CheckChainedIRQ n s"; cases "x = chain_name n")
        (auto simp: a h(2-5) RestoreIRQ_eq split: prod.splits)
  qed
qed simp

lemma hook_lines_chained:
  assumes "hook_lines as s = Done (hs, t)"
  shows "length hs = length as \<and> (\<forall>i < length as. chained (hs ! i)
    \<longleftrightarrow> CheckChainedIRQ (snd (as ! i)) s \<or> (\<exists>j < i. snd (as ! j) = snd (as ! i)))"
  using assms
proof (induction "as" arbitrary: s hs)
  case (Cons a as)
  obtain isr n where a: "a = (isr, n)" by (cases a)
  from Cons.prems have lines: "\<forall>b \<in> set (a # as). snd b < 8" using hook_lines_less by blast
  from Cons.prems [unfolded a] show ?case
  proof (rule hook_lines_ConsE)
    fix h s1 hs'
    assume h: "hook_lines as s1 = Done (hs', t)" "hs = h # hs'" "n < 8" "chained h = CheckChainedIRQ n s"
      "env s1 = (if CheckChainedIRQ n s then env s else (env s)(chain_name n \<mapsto> ''1''))"
    have "CheckChainedIRQ m s1 \<longleftrightarrow> CheckChainedIRQ m s \<or> m = n" if "m < 8" for m
      using that h(3,5) by (auto simp: CheckChainedIRQ_def chain_name_inj)
    then have step: "CheckChainedIRQ (snd (as ! i)) s1 \<longleftrightarrow> CheckChainedIRQ (snd (as ! i)) s \<or> snd (as ! i) = n"
      if "i < length as" for i using that lines by simp
    have ex: "(\<exists>j < Suc i. snd ((a # as) ! j) = c) \<longleftrightarrow> n = c \<or> (\<exists>j < i. snd (as ! j) = c)" for i c
      by (auto simp: a less_Suc_eq_0_disj)
    note IH = Cons.IH [OF h(1)]
    show ?thesis
    proof (intro conjI allI impI)
      show "length hs = length (a # as)" using IH h(2) by simp
      fix i assume i: "i < length (a # as)"
      show "chained (hs ! i)
        \<longleftrightarrow> CheckChainedIRQ (snd ((a # as) ! i)) s \<or> (\<exists>j < i. snd ((a # as) ! j) = snd ((a # as) ! i))"
      proof (cases i)
        case 0
        then show ?thesis using h(2,4) by (simp add: a)
      next
        case (Suc k)
        then have k: "k < length as" using i by simp
        with IH step [OF k] show ?thesis unfolding Suc ex by (auto simp: h(2))
      qed
    qed
  qed
qed simp

text \<open>What hooking does: the handlers are installed one after the other, and the lines are unmasked.\<close>

lemma hook_lines_installs:
  "hook_lines as s = Done (hs, t) \<Longrightarrow>
    ivt t = fold (\<lambda>(isr, n) v. v(8 + n := isr)) as (ivt s)
    \<and> pic_data t = fold (\<lambda>(isr, n) m. m AND NOT (push_bit n 1)) as (pic_data s)"
proof (induction "as" arbitrary: s hs)
  case (Cons a as)
  obtain isr n where a: "a = (isr, n)" by (cases a)
  from Cons.prems [unfolded a] show ?case
  proof (rule hook_lines_ConsE)
    fix h s1 hs'
    assume h: "HookIRQ \<lparr>irq = 0, irq_old_isr = NullHandler, was_masked = False, chained = False\<rparr> isr n s = Done (h, s1)"
      "hook_lines as s1 = Done (hs', t)" "n < 8"
    from h(1) [unfolded HookIRQ_eq [OF h(3)]]
    have "ivt s1 = (ivt s)(8 + n := isr)" "pic_data s1 = pic_data s AND NOT (push_bit n 1)" by auto
    with Cons.IH [OF h(2)] show ?thesis by (simp add: a)
  qed
qed simp

text \<open>C29: hardware interrupts nest. Hooking installs the handlers one after the other and unmasks their lines. Any number of hooks, on any lines, that are restored in the
  reverse order leave the vectors, the interrupt mask and the chaining flags as they were; whatever
  ran in between has to leave these as it found them. What stays behind is in the environment: the
  variable \<^verbatim>\<open>CHAIN_IRQn\<close> of a line that was not chained is there afterwards, as an
  empty one (the code cannot delete a variable), and no other variable changes. Of the hooks on
  one line all but the first are chained, and the first is if the line was already, so that
  exactly one of them tells the interrupt controller that the interrupt is done.\<close>

theorem HookIRQ_nested:
  assumes "\<forall>(isr, n) \<in> set as. n < 8"
  shows "\<exists>hs t. hook_lines as s = Done (hs, t) \<and> length hs = length as
    \<and> ivt t = fold (\<lambda>(isr, n) v. v(8 + n := isr)) as (ivt s)
    \<and> pic_data t = fold (\<lambda>(isr, n) m. m AND NOT (push_bit n 1)) as (pic_data s)
    \<and> (\<forall>u. ivt u = ivt t \<and> pic_data u = pic_data t \<and> env u = env t \<longrightarrow>
         ivt (foldr RestoreIRQ hs u) = ivt s \<and> pic_data (foldr RestoreIRQ hs u) = pic_data s
       \<and> (\<forall>k < 8. CheckChainedIRQ k (foldr RestoreIRQ hs u) = CheckChainedIRQ k s)
       \<and> (\<forall>x. env (foldr RestoreIRQ hs u) x =
            (if \<exists>(isr, n) \<in> set as. env s (chain_name n) \<noteq> Some ''1'' \<and> x = chain_name n then Some '''' else env s x)))
    \<and> (\<forall>i < length as. chained (hs ! i)
         \<longleftrightarrow> CheckChainedIRQ (snd (as ! i)) s \<or> (\<exists>j < i. snd (as ! j) = snd (as ! i)))"
proof -
  obtain hs t where hs: "hook_lines as s = Done (hs, t)" using hook_lines_total [OF assms] by blast
  have "line_view (foldr RestoreIRQ hs u) = line_view s"
    if "ivt u = ivt t" "pic_data u = pic_data t" "env u = env t" for u
  proof (rule line.nested [OF hook_lines_all [OF hs]])
    show "line_view u = line_view t" using that by (intro line_view_eqI) (simp_all add: CheckChainedIRQ_def)
  qed
  then have view: "ivt (foldr RestoreIRQ hs u) = ivt s" "pic_data (foldr RestoreIRQ hs u) = pic_data s"
      "\<forall>k < 8. CheckChainedIRQ k (foldr RestoreIRQ hs u) = CheckChainedIRQ k s"
    if "ivt u = ivt t \<and> pic_data u = pic_data t \<and> env u = env t" for u
    using that line_view_eqD [of "foldr RestoreIRQ hs u" s] by simp_all
  show ?thesis
  proof (intro exI conjI allI impI)
    show "hook_lines as s = Done (hs, t)" by (rule hs)
    show "length hs = length as" using hook_lines_chained [OF hs] by blast
    show "ivt t = fold (\<lambda>(isr, n) v. v(8 + n := isr)) as (ivt s)"
      "pic_data t = fold (\<lambda>(isr, n) m. m AND NOT (push_bit n 1)) as (pic_data s)"
      using hook_lines_installs [OF hs] by blast+
  next
    fix u :: pc and k :: nat assume u: "ivt u = ivt t \<and> pic_data u = pic_data t \<and> env u = env t"
    from view [OF u] show "ivt (foldr RestoreIRQ hs u) = ivt s" "pic_data (foldr RestoreIRQ hs u) = pic_data s"
      "k < 8 \<Longrightarrow> CheckChainedIRQ k (foldr RestoreIRQ hs u) = CheckChainedIRQ k s" by blast+
    from u have "env u = env t" by blast
    from hook_lines_env [OF hs this, unfolded CheckChainedIRQ_def]
    show "env (foldr RestoreIRQ hs u) x = (if \<exists>(isr, n) \<in> set as. env s (chain_name n) \<noteq> Some ''1'' \<and> x = chain_name n
        then Some '''' else env s x)" for x .
  next
    fix i assume "i < length as"
    with hook_lines_chained [OF hs] show "chained (hs ! i)
        \<longleftrightarrow> CheckChainedIRQ (snd (as ! i)) s \<or> (\<exists>j < i. snd (as ! j) = snd (as ! i))" by blast
  qed
qed

theorem HookIRQ_nested_witness:
  "\<exists>hs t. hook_lines [(OwnHandler 0, 4), (OwnHandler 1, 4), (OwnHandler 2, 3)] sample_pc = Done (hs, t)
    \<and> \<not> chained (hs ! 0) \<and> chained (hs ! 1) \<and> pic_data (foldr RestoreIRQ hs t) = 0xff
    \<and> env (foldr RestoreIRQ hs t) (chain_name 4) = Some ''''"
proof -
  let ?as = "[(OwnHandler 0, 4), (OwnHandler 1, 4), (OwnHandler 2, 3)]"
  have "\<forall>(isr, n) \<in> set ?as. n < (8 :: nat)" by simp
  from HookIRQ_nested [OF this, of sample_pc] show ?thesis
  proof (elim exE conjE)
    fix hs t
    assume hs: "hook_lines ?as sample_pc = Done (hs, t)"
      and chained: "\<forall>i < length ?as. chained (hs ! i)
         \<longleftrightarrow> CheckChainedIRQ (snd (?as ! i)) sample_pc \<or> (\<exists>j < i. snd (?as ! j) = snd (?as ! i))"
      and restored: "\<forall>u. ivt u = ivt t \<and> pic_data u = pic_data t \<and> env u = env t \<longrightarrow>
         ivt (foldr RestoreIRQ hs u) = ivt sample_pc \<and> pic_data (foldr RestoreIRQ hs u) = pic_data sample_pc
       \<and> (\<forall>k < 8. CheckChainedIRQ k (foldr RestoreIRQ hs u) = CheckChainedIRQ k sample_pc)
       \<and> (\<forall>x. env (foldr RestoreIRQ hs u) x =
            (if \<exists>(isr, n) \<in> set ?as. env sample_pc (chain_name n) \<noteq> Some ''1'' \<and> x = chain_name n
             then Some '''' else env sample_pc x))"
    from restored [rule_format, of t] have pic: "pic_data (foldr RestoreIRQ hs t) = pic_data sample_pc"
      and env: "env (foldr RestoreIRQ hs t) (chain_name 4) = (if \<exists>(isr, n) \<in> set ?as.
          env sample_pc (chain_name n) \<noteq> Some ''1'' \<and> chain_name 4 = chain_name n
          then Some '''' else env sample_pc (chain_name 4))" by blast+
    have "\<not> CheckChainedIRQ 4 sample_pc" by (simp add: CheckChainedIRQ_def sample_pc_def)
    then have "\<not> chained (hs ! 0)" "chained (hs ! 1)"
      using chained [rule_format, of 0] chained [rule_format, of 1] by auto
    moreover have "pic_data (foldr RestoreIRQ hs t) = 0xff" "env (foldr RestoreIRQ hs t) (chain_name 4) = Some ''''"
      unfolding pic env by (simp_all add: sample_pc_def)
    ultimately show ?thesis using hs by blast
  qed
qed

end
