(* ===== verification/Cstring.thy ===== *)
theory Cstring
  imports Prelude
begin

text \<open>
  Strings as the C library sees them: the character classes and the comparison that ignores
  case, in the C locale, and the conversion \<^verbatim>\<open>strtol\<close> with its end pointer. A C
  string is the list of its characters before the null character.
\<close>

section \<open>Characters\<close>

definition NUL :: char where "NUL = CHR 0x00"

text \<open>The first character of a C string as an array has it.\<close>

fun char0 :: "string \<Rightarrow> char" where
  "char0 [] = NUL"
| "char0 (c # cs) = c"

definition isspace :: "char \<Rightarrow> bool" where
  "isspace c \<longleftrightarrow> c \<in> {CHR '' '', CHR 0x09, CHR 0x0A, CHR 0x0B, CHR 0x0C, CHR 0x0D}"

definition tolower :: "char \<Rightarrow> char" where
  "tolower c = (if 65 \<le> (of_char c :: nat) \<and> (of_char c :: nat) \<le> 90 then char_of (of_char c + 32 :: nat) else c)"

text \<open>\<^verbatim>\<open>strcasecmp\<close> gives zero.\<close>

definition same_nocase :: "string \<Rightarrow> string \<Rightarrow> bool" where
  "same_nocase a b \<longleftrightarrow> map tolower a = map tolower b"

lemma tolower_idem [simp]: "tolower (tolower c) = tolower c"
proof -
  have "of_char (char_of (n + 32) :: char) = n + 32" if "65 \<le> n" "n \<le> 90" for n :: nat
    using that by (simp add: of_char_of)
  then show ?thesis by (simp add: tolower_def)
qed

lemma same_nocase_refl [simp]: "same_nocase a a"
  by (simp add: same_nocase_def)

lemma same_nocase_first: "same_nocase a b \<Longrightarrow> a = [] \<longleftrightarrow> b = []"
  by (auto simp: same_nocase_def)

lemma tolower_nonletter: "tolower c = d \<Longrightarrow> of_char d < (65 :: nat) \<Longrightarrow> c = d"
  by (cases "65 \<le> (of_char c :: nat) \<and> (of_char c :: nat) \<le> 90") (auto simp: tolower_def of_char_of)

section \<open>Numbers\<close>

text \<open>The value of a digit or letter.\<close>

definition digit_value :: "char \<Rightarrow> nat option" where
  "digit_value c =
    (let n = of_char c :: nat
     in if 48 \<le> n \<and> n \<le> 57 then Some (n - 48)
        else if 65 \<le> n \<and> n \<le> 90 then Some (n - 55)
        else if 97 \<le> n \<and> n \<le> 122 then Some (n - 87)
        else None)"

definition is_digit :: "nat \<Rightarrow> char \<Rightarrow> bool" where
  "is_digit base c \<longleftrightarrow> (case digit_value c of Some v \<Rightarrow> v < base | None \<Rightarrow> False)"

definition digits_value :: "nat \<Rightarrow> string \<Rightarrow> nat" where
  "digits_value base = foldl (\<lambda>acc c. acc * base + the (digit_value c)) 0"

definition LONG_MAX :: int where "LONG_MAX = 2147483647"
definition LONG_MIN :: int where "LONG_MIN = -2147483648"

text \<open>An optional sign.\<close>

fun take_sign :: "string \<Rightarrow> bool \<times> string" where
  "take_sign [] = (False, [])"
| "take_sign (c # s) = (if c = CHR ''-'' then (True, s) else if c = CHR ''+'' then (False, s) else (False, c # s))"

text \<open>The base and the digits: base 0 takes it from the prefix.\<close>

definition take_base :: "nat \<Rightarrow> string \<Rightarrow> nat \<times> string" where
  "take_base base s =
    (if (base = 0 \<or> base = 16) \<and> (\<exists>c \<in> {CHR ''x'', CHR ''X''}. take 2 s = [CHR ''0'', c])
        \<and> is_digit 16 (char0 (drop 2 s)) then (16, drop 2 s)
     else if base = 0 then (if char0 s = CHR ''0'' then 8 else 10, s)
     else (base, s))"

text \<open>The value, the rest of the string the end pointer is set to, and whether
  \<^verbatim>\<open>errno\<close> is set. With no digits the end pointer is the start.\<close>

definition strtol :: "string \<Rightarrow> nat \<Rightarrow> int \<times> string \<times> bool" where
  "strtol s base =
    (let (neg, u) = take_sign (dropWhile isspace s);
         (b, d) = take_base base u;
         ds = takeWhile (is_digit b) d;
         v = (if neg then - int (digits_value b ds) else int (digits_value b ds))
     in if ds = [] then (0, s, False)
        else if v < LONG_MIN then (LONG_MIN, drop (length ds) d, True)
        else if v > LONG_MAX then (LONG_MAX, drop (length ds) d, True)
        else (v, drop (length ds) d, False))"

text \<open>Decimal notation, as \<^verbatim>\<open>printf\<close> writes it.\<close>

definition digit_char :: "nat \<Rightarrow> char" where
  "digit_char n = char_of (48 + n)"

fun decimal :: "nat \<Rightarrow> string" where
  "decimal n = (if n < 10 then [digit_char n] else decimal (n div 10) @ [digit_char (n mod 10)])"

declare decimal.simps [simp del]

definition decimal_int :: "int \<Rightarrow> string" where
  "decimal_int i = (if i < 0 then CHR ''-'' # decimal (nat (- i)) else decimal (nat i))"

lemma digit_char: "n < 10 \<Longrightarrow> digit_value (digit_char n) = Some n"
  by (simp add: digit_value_def digit_char_def of_char_of)

lemma digit_char_inj: "n < 10 \<Longrightarrow> digit_char n = c \<longleftrightarrow> digit_value c = Some n"
proof
  assume n: "n < 10" and c: "digit_value c = Some n"
  from c have "of_char c = n + 48" using n by (auto simp: digit_value_def Let_def split: if_splits)
  then have "char_of (of_char c :: nat) = (char_of (48 + n) :: char)" by (simp add: add.commute)
  then show "digit_char n = c" by (simp add: digit_char_def)
qed (auto simp: digit_char)

lemma is_digit_value: "is_digit b c \<longleftrightarrow> (\<exists>v < b. digit_value c = Some v)"
  by (auto simp: is_digit_def split: option.splits)

lemma decimal_0 [simp]: "decimal 0 = ''0''"
  by (subst decimal.simps) (simp add: digit_char_def char_of_def bit_0)

lemma decimal_digits: "list_all (is_digit 10) (decimal n)"
proof (induction n rule: decimal.induct)
  case (1 n)
  have "is_digit 10 (digit_char k)" if "k < 10" for k
    using that by (simp add: is_digit_value digit_char)
  with 1 show ?case by (subst decimal.simps) simp
qed

lemma digits_value_snoc: "digits_value b (ds @ [c]) = digits_value b ds * b + the (digit_value c)"
  by (simp add: digits_value_def)

lemma digits_value_decimal: "digits_value 10 (decimal n) = n"
proof (induction n rule: decimal.induct)
  case (1 n)
  show ?case
  proof (cases "n < 10")
    case True
    then show ?thesis by (subst decimal.simps) (simp add: digits_value_def digit_char)
  next
    case False
    with 1 show ?thesis by (subst decimal.simps) (simp add: digits_value_snoc digit_char)
  qed
qed

lemma decimal_not_Nil [simp]: "decimal n \<noteq> []"
  by (subst decimal.simps) simp

lemma decimal_first:
  assumes "0 < n"
  shows "char0 (decimal n) \<noteq> CHR ''0''"
proof -
  have zero: "CHR ''0'' = digit_char 0" by (simp add: digit_char_def char_of_def bit_0)
  have app: "xs \<noteq> [] \<Longrightarrow> char0 (xs @ ys) = char0 xs" for xs ys by (cases xs) auto
  show ?thesis using assms
  proof (induction n rule: decimal.induct)
    case (1 n)
    show ?case
    proof (cases "n < 10")
      case True
      with 1(2) show ?thesis
        by (subst decimal.simps) (auto simp: zero digit_char_inj digit_char)
    next
      case False
      with 1 show ?thesis by (subst decimal.simps) (simp add: app)
    qed
  qed
qed

lemma digit_not_space: "is_digit b c \<Longrightarrow> \<not> isspace c"
  by (auto simp: is_digit_value isspace_def digit_value_def)

lemma digit_not_sign: "is_digit b c \<Longrightarrow> c \<noteq> CHR ''-'' \<and> c \<noteq> CHR ''+''"
  by (auto simp: is_digit_value digit_value_def)

text \<open>What \<^verbatim>\<open>strtol\<close> makes of a number in decimal notation, with or without a sign.\<close>

lemma take_base_decimal: "take_base 0 (decimal n) = (if n = 0 then 8 else 10, decimal n)"
proof -
  have "take 2 (decimal n) \<noteq> [CHR ''0'', c]" if "c \<in> {CHR ''x'', CHR ''X''}" for c
  proof
    assume "take 2 (decimal n) = [CHR ''0'', c]"
    then have "c \<in> set (decimal n)" by (metis list.set_intros in_set_takeD)
    then have "is_digit 10 c" using decimal_digits [of n] by (simp add: list_all_iff)
    then show False using that by (auto simp: is_digit_value digit_value_def)
  qed
  then show ?thesis using decimal_first [of n]
    by (cases "n = 0") (auto simp: take_base_def)
qed

lemma strtol_decimal:
  assumes "int n \<le> LONG_MAX"
  shows "strtol (decimal n) 0 = (int n, [], False)"
    and "strtol (CHR ''-'' # decimal n) 0 = (- int n, [], False)"
proof -
  define b where "b = (if n = 0 then 8 else 10 :: nat)"
  have base: "take_base 0 (decimal n) = (b, decimal n)" by (simp add: b_def take_base_decimal)
  have ds: "list_all (is_digit b) (decimal n)" "digits_value b (decimal n) = n"
    using decimal_digits [of n] digits_value_decimal [of n]
    by (auto simp: b_def is_digit_value digit_value_def digits_value_def)
  then have tw: "takeWhile (is_digit b) (decimal n) = decimal n"
    by (simp add: list_all_iff takeWhile_eq_all_conv)
  obtain c cs where c: "decimal n = c # cs" "is_digit 10 c"
    using decimal_digits [of n] decimal_not_Nil [of n] by (cases "decimal n") auto
  have sp: "dropWhile isspace (decimal n) = decimal n" "take_sign (decimal n) = (False, decimal n)"
    using c digit_not_space [of 10 c] digit_not_sign [of 10 c] by auto
  have "\<not> isspace (CHR ''-'')" by (simp add: isspace_def)
  then have sg: "take_sign (dropWhile isspace (CHR ''-'' # decimal n)) = (True, decimal n)" by simp
  show "strtol (decimal n) 0 = (int n, [], False)"
    using assms by (simp add: strtol_def sp base tw ds(2) Let_def LONG_MAX_def LONG_MIN_def)
  show "strtol (CHR ''-'' # decimal n) 0 = (- int n, [], False)"
    using assms by (simp only: strtol_def sg) (simp add: base tw ds(2) Let_def LONG_MAX_def LONG_MIN_def)
qed

lemma strtol_decimal_10:
  assumes "int n \<le> LONG_MAX"
  shows "strtol (decimal n) 10 = (int n, [], False)"
proof -
  obtain c cs where c: "decimal n = c # cs" "is_digit 10 c"
    using decimal_digits [of n] decimal_not_Nil [of n] by (cases "decimal n") auto
  have sp: "dropWhile isspace (decimal n) = decimal n" "take_sign (decimal n) = (False, decimal n)"
    using c digit_not_space [of 10 c] digit_not_sign [of 10 c] by auto
  have tw: "takeWhile (is_digit 10) (decimal n) = decimal n"
    using decimal_digits [of n] by (simp add: list_all_iff takeWhile_eq_all_conv)
  show ?thesis
    using assms by (simp add: strtol_def sp tw take_base_def digits_value_decimal Let_def LONG_MAX_def LONG_MIN_def)
qed

lemma char0_decimal: "is_digit 10 (char0 (decimal n))"
  using decimal_digits [of n] decimal_not_Nil [of n] by (cases "decimal n") auto

end
