(* ===== verification/Interrupts.thy ===== *)
theory Interrupts
  imports Fakedisk Mempatch Ints Cstring
begin

text \<open>
  The disk interrupts of \<^verbatim>\<open>fakedisk.c\<close>: the BIOS interrupt 13h and the DOS
  interrupts 25h and 26h as functions of the registers and the state of the program, and the
  installation and removal of the three handlers, with what they print. The switch of stacks around
  \<^verbatim>\<open>RealInt13\<close> and the return sequence of the DOS interrupts are machine code:
  theory \<open>Isrstack\<close> has them.
\<close>

section \<open>State\<close>

text \<open>The registers a handler sees; \<^verbatim>\<open>ax\<close> and \<^verbatim>\<open>dx\<close> by their halves.\<close>

record regs =
  r_al :: u8
  r_ah :: u8
  r_dl :: u8
  r_dh :: u8
  r_bx :: u16
  r_cx :: u16
  r_ds :: u16
  r_es :: u16
  r_cs :: u16
  r_flags :: u16

definition INTR_CF :: u16 where "INTR_CF = 1"

text \<open>The state of the program and of the machine it runs on: vectors, memory, the disk and the
  protocol, and the static variables of \<^verbatim>\<open>fakedisk.c\<close>. The counters are
  \<^verbatim>\<open>int\<close>s of 16 bits, as words; the last field is what has been printed.\<close>

record world =
  w_pc :: pc
  w_mem :: memory
  w_disk :: disk
  w_proto :: protocol
  old_int13 :: handler
  old_int25 :: handler
  old_int26 :: handler
  hooked :: bool
  int13_count :: u16
  int25_count :: u16
  int26_count :: u16
  applied_patches :: bool
  no_mem_patch :: int
  w_out :: string

definition Int13 :: handler where "Int13 = OwnHandler 0x13"
definition Int25 :: handler where "Int25 = OwnHandler 0x25"
definition Int26 :: handler where "Int26 = OwnHandler 0x26"

section \<open>Installing and removing\<close>

text \<open>What is printed: an \<^verbatim>\<open>int\<close> in a field of \<open>n\<close> characters, one line for each
  counter, and the two texts. The counters have 16 bits, which \<^verbatim>\<open>%d\<close> reads with a sign.\<close>

definition int_field :: "nat \<Rightarrow> u16 \<Rightarrow> string" where
  "int_field n v = (let s = decimal_int (sint v) in replicate (n - length s) (CHR '' '') @ s)"

definition counter_line :: "string \<Rightarrow> u16 \<Rightarrow> string" where
  "counter_line label v = label @ int_field 7 v @ [CHR 0x0A]"

definition restored_text :: "world \<Rightarrow> string" where
  "restored_text w = ''Normal interrupts restored.'' @ [CHR 0x0A]
     @ counter_line '' int 13 calls: '' (int13_count w)
     @ counter_line '' int 25 calls: '' (int25_count w)
     @ counter_line '' int 26 calls: '' (int26_count w)
     @ counter_line '' reads:        '' (reads (w_disk w))
     @ counter_line '' writes:       '' (writes (w_disk w))"

definition hooked_text :: string where
  "hooked_text = ''Interrupts hooked.'' @ [CHR 0x0A]"

definition HookDiskInterrupts :: "world \<Rightarrow> world" where
  "HookDiskInterrupts w =
    (if hooked w then w
     else
       (let w1 = w\<lparr>old_int13 := dos_getvect 0x13 (w_pc w), w_pc := dos_setvect 0x13 Int13 (w_pc w)\<rparr>;
            w2 = w1\<lparr>old_int25 := dos_getvect 0x25 (w_pc w1), w_pc := dos_setvect 0x25 Int25 (w_pc w1)\<rparr>;
            w3 = w2\<lparr>old_int26 := dos_getvect 0x26 (w_pc w2), w_pc := dos_setvect 0x26 Int26 (w_pc w2)\<rparr>
        in w3\<lparr>hooked := True, w_out := w_out w3 @ hooked_text\<rparr>))"

definition RestoreDiskInterrupts :: "world \<Rightarrow> world" where
  "RestoreDiskInterrupts w =
    (if hooked w then
       w\<lparr>w_pc := dos_setvect 0x26 (old_int26 w) (dos_setvect 0x25 (old_int25 w)
           (dos_setvect 0x13 (old_int13 w) (w_pc w))),
         hooked := False, w_out := w_out w @ restored_text w\<rparr>
     else w)"

section \<open>Transfers\<close>

definition with_carry :: "bool \<Rightarrow> regs \<Rightarrow> regs" where
  "with_carry c r = r\<lparr>r_flags := (if c then r_flags r OR INTR_CF else r_flags r AND NOT INTR_CF)\<rparr>"

text \<open>A call of \<^verbatim>\<open>ReadSector\<close> or \<^verbatim>\<open>WriteSector\<close> on the 512 bytes
  at a far pointer.\<close>

definition read_at :: "farptr \<Rightarrow> u32 \<Rightarrow> u16 \<Rightarrow> world \<Rightarrow> (bool \<times> world) outcome" where
  "read_at buf sector cnt w =
    obind (ReadSector (w_proto w) (region (w_mem w) buf 512) sector cnt (w_disk w)) (\<lambda>(b, data, d).
      Done (b, w\<lparr>w_mem := mstore buf data (w_mem w), w_disk := d\<rparr>))"

definition write_at :: "farptr \<Rightarrow> u32 \<Rightarrow> u16 \<Rightarrow> world \<Rightarrow> (bool \<times> world) outcome" where
  "write_at buf sector cnt w =
    obind (WriteSector (w_proto w) (region (w_mem w) buf 512) sector cnt (w_disk w)) (\<lambda>(b, data, d, p).
      Done (b, w\<lparr>w_mem := mstore buf data (w_mem w), w_disk := d, w_proto := p\<rparr>))"

text \<open>BIOS sector numbers are indexed from 1; \<^verbatim>\<open>dh\<close> has the high bits.\<close>

definition bios_sector :: "regs \<Rightarrow> u32" where
  "bios_sector r = (ucast (r_cx r) - 1) OR push_bit 16 (ucast (r_dh r))"

definition bios_result :: "bool \<Rightarrow> regs \<Rightarrow> regs" where
  "bios_result ok r =
    (if ok then (with_carry False r)\<lparr>r_ah := 0, r_al := 1\<rparr>
     else (with_carry True r)\<lparr>r_ah := 0x20, r_al := 0\<rparr>)"

text \<open>The result says whether the call was for the emulated drive; if not, the old handler runs.\<close>

definition RealInt13 :: "regs \<Rightarrow> world \<Rightarrow> (bool \<times> regs \<times> world) outcome" where
  "RealInt13 r w =
    obind (ReceivePackets (w_proto w)) (\<lambda>p.
      (let w1 = w\<lparr>w_proto := p, int13_count := int13_count w + 1\<rparr>;
           buf = MK_FP (r_es r) (r_bx r)
       in if r_ah r = 0 \<and> r_dl r = 1 then Done (True, (with_carry False r)\<lparr>r_ah := 0\<rparr>, w1)
          else if r_ah r = 2 \<and> r_dl r = 1 then
            obind (read_at buf (bios_sector r) (ucast (r_al r)) w1) (\<lambda>(ok, w2).
              Done (True, bios_result ok r, w2))
          else if r_ah r = 3 \<and> r_dl r = 1 then
            obind (write_at buf (bios_sector r) (ucast (r_al r)) w1) (\<lambda>(ok, w2).
              Done (True, bios_result ok r, w2))
          else Done (False, r, w1)))"

text \<open>The handlers: they return to the caller, or end in the handler that was there before.\<close>

datatype isr_end = Returns | Chains handler

definition run_int13 :: "regs \<Rightarrow> world \<Rightarrow> (isr_end \<times> regs \<times> world) outcome" where
  "run_int13 r w = obind (RealInt13 r w) (\<lambda>(ours, r', w').
     Done (if ours then Returns else Chains (old_int13 w'), r', w'))"

definition dx :: "regs \<Rightarrow> u16" where
  "dx r = push_bit 8 (ucast (r_dh r)) OR ucast (r_dl r)"

definition dos_result :: "bool \<Rightarrow> regs \<Rightarrow> regs" where
  "dos_result ok r =
    (if ok then (with_carry False r)\<lparr>r_ah := 0, r_al := 0\<rparr>
     else (with_carry True r)\<lparr>r_ah := 0x20, r_al := 0x0c\<rparr>)"

definition run_int25 :: "regs \<Rightarrow> world \<Rightarrow> (isr_end \<times> regs \<times> world) outcome" where
  "run_int25 r w =
    (let w1 = w\<lparr>int25_count := int25_count w + 1, w_pc := dos_setvect 0x13 Int13 (w_pc w)\<rparr>;
         w2 = (if \<not> applied_patches w1 then
                 w1\<lparr>w_mem := ApplyPatches (no_mem_patch w1) (num_players (w_proto w1)) (r_cs r) (w_mem w1),
                    applied_patches := True\<rparr>
               else w1)
     in if r_al r = 1 then
          obind (read_at (MK_FP (r_ds r) (r_bx r)) (ucast (dx r)) (r_cx r) w2) (\<lambda>(ok, w3).
            Done (Returns, dos_result ok r, w3))
        else Done (Chains (old_int25 w2), r, w2))"

definition run_int26 :: "regs \<Rightarrow> world \<Rightarrow> (isr_end \<times> regs \<times> world) outcome" where
  "run_int26 r w =
    (let w1 = w\<lparr>int26_count := int26_count w + 1, w_pc := dos_setvect 0x13 Int13 (w_pc w)\<rparr>
     in if r_al r = 1 then
          obind (write_at (MK_FP (r_ds r) (r_bx r)) (ucast (dx r)) (r_cx r) w1) (\<lambda>(ok, w2).
            Done (Returns, dos_result ok r, w2))
        else Done (Chains (old_int26 w1), r, w1))"

section \<open>Vectors while the game runs\<close>

text \<open>What happens between installing and removing the handlers: disk interrupts, and other
  programs (the game itself among them) that change vectors, memory and the driver's answers.\<close>

inductive int_step :: "world \<Rightarrow> world \<Rightarrow> bool" where
  int13: "run_int13 r w = Done (e, r', w') \<Longrightarrow> int_step w w'"
| int25: "run_int25 r w = Done (e, r', w') \<Longrightarrow> int_step w w'"
| int26: "run_int26 r w = Done (e, r', w') \<Longrightarrow> int_step w w'"
| others: "int_step w (w\<lparr>w_pc := pc', w_mem := mem', w_proto := p'\<rparr>)"

text \<open>What the handlers keep of the state: where the old handlers were.\<close>

definition old_vectors :: "world \<Rightarrow> handler \<times> handler \<times> handler \<times> bool" where
  "old_vectors w = (old_int13 w, old_int25 w, old_int26 w, hooked w)"

lemma read_at_cases:
  assumes "read_at buf sector cnt w = Done (ok, w')"
  obtains data d where "ReadSector (w_proto w) (region (w_mem w) buf 512) sector cnt (w_disk w) = Done (ok, data, d)"
    and "w' = w\<lparr>w_mem := mstore buf data (w_mem w), w_disk := d\<rparr>"
  using assms by (auto simp: read_at_def obind_eq_Done)

lemma write_at_cases:
  assumes "write_at buf sector cnt w = Done (ok, w')"
  obtains data d p where
    "WriteSector (w_proto w) (region (w_mem w) buf 512) sector cnt (w_disk w) = Done (ok, data, d, p)"
    and "w' = w\<lparr>w_mem := mstore buf data (w_mem w), w_disk := d, w_proto := p\<rparr>"
  using assms by (auto simp: write_at_def obind_eq_Done)

lemma read_at_keeps:
  assumes "read_at buf sector cnt w = Done (ok, w')"
  shows "applied_patches w' = applied_patches w \<and> (\<exists>data. w_mem w' = mstore buf data (w_mem w))"
  using assms by (rule read_at_cases) auto

lemma write_at_keeps:
  assumes "write_at buf sector cnt w = Done (ok, w')"
  shows "applied_patches w' = applied_patches w \<and> (\<exists>data. w_mem w' = mstore buf data (w_mem w))"
  using assms by (rule write_at_cases) auto

lemma run_int13_old: "run_int13 r w = Done (e, r', w') \<Longrightarrow> old_vectors w' = old_vectors w
    \<and> (\<forall>h. e = Chains h \<longrightarrow> h = old_int13 w)"
  by (auto simp: run_int13_def RealInt13_def Let_def obind_eq_Done old_vectors_def
      elim!: read_at_cases write_at_cases split: if_splits)

lemma run_int25_old: "run_int25 r w = Done (e, r', w') \<Longrightarrow> old_vectors w' = old_vectors w
    \<and> (\<forall>h. e = Chains h \<longrightarrow> h = old_int25 w)"
  by (auto simp: run_int25_def Let_def obind_eq_Done old_vectors_def
      elim!: read_at_cases split: if_splits)

lemma run_int26_old: "run_int26 r w = Done (e, r', w') \<Longrightarrow> old_vectors w' = old_vectors w
    \<and> (\<forall>h. e = Chains h \<longrightarrow> h = old_int26 w)"
  by (auto simp: run_int26_def Let_def obind_eq_Done old_vectors_def
      elim!: write_at_cases split: if_splits)

lemma int_step_old: "int_step w w' \<Longrightarrow> old_vectors w' = old_vectors w"
  by (induction rule: int_step.induct)
    (auto dest: run_int13_old run_int25_old run_int26_old simp: old_vectors_def)

lemma hooked_old_vectors:
  "\<not> hooked w \<Longrightarrow> old_vectors (HookDiskInterrupts w)
     = (ivt (w_pc w) 0x13, ivt (w_pc w) 0x25, ivt (w_pc w) 0x26, True)"
  by (simp add: HookDiskInterrupts_def Let_def old_vectors_def dos_getvect_def dos_setvect_def)

interpretation vectors: invariant "\<lambda>w. w = HookDiskInterrupts w0 \<and> \<not> hooked w0" int_step
    "\<lambda>w. old_vectors w = (ivt (w_pc w0) 0x13, ivt (w_pc w0) 0x25, ivt (w_pc w0) 0x26, True)" for w0
  by unfold_locales (auto simp: hooked_old_vectors int_step_old)

lemma vectors_kept:
  assumes "\<not> hooked w0" and "int_step\<^sup>*\<^sup>* (HookDiskInterrupts w0) w"
  shows "old_vectors w = (ivt (w_pc w0) 0x13, ivt (w_pc w0) 0x25, ivt (w_pc w0) 0x26, True)"
proof -
  have "reach (\<lambda>w. w = HookDiskInterrupts w0 \<and> \<not> hooked w0) int_step (HookDiskInterrupts w0)"
    using assms(1) by (intro reach_init) simp
  from reach_rtranclp [OF assms(2) this] vectors.reach_inv show ?thesis by blast
qed

section \<open>The counters\<close>

definition int_counters :: "world \<Rightarrow> u16 \<times> u16 \<times> u16" where
  "int_counters w = (int13_count w, int25_count w, int26_count w)"

text \<open>A run with the numbers of interrupts in it.\<close>

inductive int_run :: "nat \<Rightarrow> nat \<Rightarrow> nat \<Rightarrow> world \<Rightarrow> world \<Rightarrow> bool" where
  start: "int_run 0 0 0 w w"
| int13: "int_run a b c w0 w \<Longrightarrow> run_int13 r w = Done (e, r', w') \<Longrightarrow> int_run (Suc a) b c w0 w'"
| int25: "int_run a b c w0 w \<Longrightarrow> run_int25 r w = Done (e, r', w') \<Longrightarrow> int_run a (Suc b) c w0 w'"
| int26: "int_run a b c w0 w \<Longrightarrow> run_int26 r w = Done (e, r', w') \<Longrightarrow> int_run a b (Suc c) w0 w'"
| others: "int_run a b c w0 w \<Longrightarrow> int_run a b c w0 (w\<lparr>w_pc := pc', w_mem := mem', w_proto := p'\<rparr>)"

lemma run_int13_counts: "run_int13 r w = Done (e, r', w') \<Longrightarrow>
    int_counters w' = (int13_count w + 1, int25_count w, int26_count w) \<and> w_out w' = w_out w"
  by (auto simp: run_int13_def RealInt13_def Let_def obind_eq_Done int_counters_def
      elim!: read_at_cases write_at_cases split: if_splits)

lemma run_int25_counts: "run_int25 r w = Done (e, r', w') \<Longrightarrow>
    int_counters w' = (int13_count w, int25_count w + 1, int26_count w) \<and> w_out w' = w_out w"
  by (auto simp: run_int25_def Let_def obind_eq_Done int_counters_def elim!: read_at_cases split: if_splits)

lemma run_int26_counts: "run_int26 r w = Done (e, r', w') \<Longrightarrow>
    int_counters w' = (int13_count w, int25_count w, int26_count w + 1) \<and> w_out w' = w_out w"
  by (auto simp: run_int26_def Let_def obind_eq_Done int_counters_def elim!: write_at_cases split: if_splits)

lemmas run_counts = run_int13_counts run_int25_counts run_int26_counts

lemma int_step_out: "int_step w w' \<Longrightarrow> w_out w' = w_out w"
  by (induction rule: int_step.induct) (auto dest: run_counts)

lemma int_steps_out: "int_step\<^sup>*\<^sup>* w w' \<Longrightarrow> w_out w' = w_out w"
  by (induction rule: rtranclp_induct) (auto dest: int_step_out)

lemma int_run_steps: "int_run a b c w0 w \<Longrightarrow> int_step\<^sup>*\<^sup>* w0 w"
  by (induction rule: int_run.induct) (blast intro: int_step.intros rtranclp.rtrancl_into_rtrancl rtranclp.rtrancl_refl)+

lemma int_run_counters:
  "int_run a b c w0 w \<Longrightarrow> int_counters w = (int13_count w0 + of_nat a, int25_count w0 + of_nat b, int26_count w0 + of_nat c)"
  by (induction rule: int_run.induct) (auto simp: int_counters_def dest!: run_counts)

text \<open>What is printed at the end: the numbers of interrupts that there were, as long as each is less
  than 32768. A counter that has gone beyond is printed as a negative number.\<close>

lemma int_field_nat:
  assumes "n < 2 ^ 15"
  shows "int_field k (of_nat n) = replicate (k - length (decimal n)) (CHR '' '') @ decimal n"
proof -
  have "signed_take_bit 15 (int n) = int n" using assms by (intro signed_take_bit_int_eq_self) auto
  then have "sint (of_nat n :: u16) = int n" using assms by (simp add: sint_uint unsigned_of_nat take_bit_nat_eq_self)
  then show ?thesis by (simp add: int_field_def decimal_int_def Let_def)
qed

lemma counter_wraps: "int_field 7 (of_nat 32768) = '' -32768''"
  by (simp add: int_field_def decimal_int_def decimal.simps digit_char_def) code_simp

lemma restored_counts:
  assumes "\<not> hooked w0" and "int_counters w0 = (0, 0, 0)" and "int_run a b c (HookDiskInterrupts w0) w"
    and "a < 2 ^ 15" and "b < 2 ^ 15" and "c < 2 ^ 15"
  defines "line \<equiv> \<lambda>label n. label @ replicate (7 - length (decimal n)) (CHR '' '') @ decimal n @ [CHR 0x0A]"
  shows "\<exists>rest. w_out (RestoreDiskInterrupts w) = w_out w0 @ hooked_text
     @ ''Normal interrupts restored.'' @ [CHR 0x0A] @ line '' int 13 calls: '' a @ line '' int 25 calls: '' b
     @ line '' int 26 calls: '' c @ rest"
proof -
  have "int_counters (HookDiskInterrupts w0) = (0, 0, 0)" "w_out (HookDiskInterrupts w0) = w_out w0 @ hooked_text"
    using assms(1,2) by (auto simp: HookDiskInterrupts_def int_counters_def Let_def)
  with int_run_counters [OF assms(3)] int_steps_out [OF int_run_steps [OF assms(3)]]
  have w: "int_counters w = (of_nat a, of_nat b, of_nat c)" "w_out w = w_out w0 @ hooked_text"
    by (auto simp: int_counters_def)
  have "hooked w"
    using vectors_kept [OF assms(1) int_run_steps [OF assms(3)]] by (simp add: old_vectors_def)
  with w assms(4-6) show ?thesis
    by (simp add: RestoreDiskInterrupts_def restored_text_def counter_line_def int_counters_def int_field_nat line_def)
qed

section \<open>Properties\<close>

text \<open>C19: \<^verbatim>\<open>HookDiskInterrupts\<close> installs the three handlers, and
  \<^verbatim>\<open>RestoreDiskInterrupts\<close> puts back the vectors that were there before, whatever
  disk interrupts and other programs have done in between (interrupt 25h and 26h install the
  handler of 13h again each time); no other vector is touched, not even that of interrupt 21h, which
  the \<^verbatim>\<open>README\<close> says the program hooks too. A second call of either changes
  nothing. In between, every disk interrupt for another drive ends in the handler that was there
  before, so no handler ever chains to itself unless it had been there before.\<close>

theorem disk_vectors_restored:
  assumes "\<not> hooked w0" and "int_step\<^sup>*\<^sup>* (HookDiskInterrupts w0) w"
  shows "(ivt (w_pc (HookDiskInterrupts w0)))
      = (ivt (w_pc w0))(0x13 := Int13, 0x25 := Int25, 0x26 := Int26)
    \<and> HookDiskInterrupts w = w
    \<and> ivt (w_pc (RestoreDiskInterrupts w)) = (ivt (w_pc w))
        (0x13 := ivt (w_pc w0) 0x13, 0x25 := ivt (w_pc w0) 0x25, 0x26 := ivt (w_pc w0) 0x26)
    \<and> RestoreDiskInterrupts (RestoreDiskInterrupts w) = RestoreDiskInterrupts w
    \<and> (\<forall>r h r' w'. (run_int13 r w = Done (Chains h, r', w') \<longrightarrow> h = ivt (w_pc w0) 0x13)
         \<and> (run_int25 r w = Done (Chains h, r', w') \<longrightarrow> h = ivt (w_pc w0) 0x25)
         \<and> (run_int26 r w = Done (Chains h, r', w') \<longrightarrow> h = ivt (w_pc w0) 0x26))"
proof -
  from vectors_kept [OF assms] have old: "old_int13 w = ivt (w_pc w0) 0x13"
    "old_int25 w = ivt (w_pc w0) 0x25" "old_int26 w = ivt (w_pc w0) 0x26" "hooked w"
    by (simp_all add: old_vectors_def)
  have chains: "(run_int13 r w = Done (Chains h, r', w') \<longrightarrow> h = ivt (w_pc w0) 0x13)
         \<and> (run_int25 r w = Done (Chains h, r', w') \<longrightarrow> h = ivt (w_pc w0) 0x25)
         \<and> (run_int26 r w = Done (Chains h, r', w') \<longrightarrow> h = ivt (w_pc w0) 0x26)" for r h r' w'
    using old(1-3) run_int13_old [of r w "Chains h" r' w'] run_int25_old [of r w "Chains h" r' w']
      run_int26_old [of r w "Chains h" r' w'] by auto
  have "HookDiskInterrupts w = w" using old(4) by (simp add: HookDiskInterrupts_def)
  moreover have "(ivt (w_pc (HookDiskInterrupts w0)))
      = (ivt (w_pc w0))(0x13 := Int13, 0x25 := Int25, 0x26 := Int26)"
    using assms(1) by (simp add: HookDiskInterrupts_def Let_def dos_setvect_def dos_getvect_def)
  moreover have "ivt (w_pc (RestoreDiskInterrupts w)) = (ivt (w_pc w))
        (0x13 := ivt (w_pc w0) 0x13, 0x25 := ivt (w_pc w0) 0x25, 0x26 := ivt (w_pc w0) 0x26)"
    using old by (simp add: RestoreDiskInterrupts_def dos_setvect_def)
  moreover have "RestoreDiskInterrupts (RestoreDiskInterrupts w) = RestoreDiskInterrupts w"
    by (simp add: RestoreDiskInterrupts_def)
  ultimately show ?thesis using chains by blast
qed

definition sample_world :: world where
  "sample_world = \<lparr>w_pc = sample_pc, w_mem = (\<lambda>_. 0), w_disk = static_disk, w_proto = sample_protocol [],
     old_int13 = NullHandler, old_int25 = NullHandler, old_int26 = NullHandler, hooked = False,
     int13_count = 0, int25_count = 0, int26_count = 0, applied_patches = False, no_mem_patch = 0, w_out = []\<rparr>"

theorem disk_vectors_restored_witness:
  "\<exists>w. int_step\<^sup>*\<^sup>* (HookDiskInterrupts sample_world) w \<and> ivt (w_pc w) 0x13 = NullHandler
    \<and> ivt (w_pc (RestoreDiskInterrupts w)) 0x13 = OtherHandler 2"
proof -
  let ?h = "HookDiskInterrupts sample_world"
  let ?w = "?h\<lparr>w_pc := (w_pc ?h)\<lparr>ivt := \<lambda>_. NullHandler\<rparr>, w_mem := \<lambda>_. 0, w_proto := w_proto ?h\<rparr>"
  have run: "int_step\<^sup>*\<^sup>* ?h ?w" by (intro r_into_rtranclp int_step.others)
  have "\<not> hooked sample_world" by (simp add: sample_world_def)
  from disk_vectors_restored [OF this run] run show ?thesis
    by (intro exI [of _ ?w]) (simp add: sample_world_def sample_pc_def)
qed

lemma carry_flag: "(r_flags (with_carry c r) AND INTR_CF \<noteq> 0) = c"
proof -
  have "(x OR 1) AND 1 \<noteq> 0" "(x AND NOT 1) AND 1 = 0" for x :: u16
    by (simp_all add: bit_eq_iff bit_simps) (auto intro: exI [of _ 0])
  then show ?thesis by (simp add: with_carry_def INTR_CF_def)
qed

lemma result_flags:
  "(r_flags (bios_result ok r) AND INTR_CF = 0) = ok" "(r_flags (dos_result ok r) AND INTR_CF = 0) = ok"
  using carry_flag [of False r] carry_flag [of True r] by (simp_all add: bios_result_def dos_result_def)

lemma ReadData_length:
  assumes "ReadData p data d = Done (b, data', d')" and "wf_multio (multio d)" and "16 \<le> length data"
  shows "length data' = length data \<and> wf_multio (multio d')"
proof -
  from assms(1,2) have "wf_multio (multio d') \<and> data' = overwrite data 0 (enc_multio (multio d'))"
    by (cases "dstate d") (auto simp: ReadData_def wf_multio_def split: if_splits)
  then show ?thesis using mu.store_length assms(3) by blast
qed

lemma ReadSector_length:
  assumes "ReadSector p buf sector cnt d = Done (ok, data, d')" and "length buf = 512" and "wf_multio (multio d)"
  shows "length data = 512"
proof -
  have "length (snd (ReadDirectory (replicate 512 0))) = 512"
  proof -
    have "length (concat (map enc_dirent directory)) = 288"
    proof -
      have "length (enc_dirent e) = 32" if "e \<in> set directory" for e
        using that by (intro de.valid_width) (auto simp: directory_def wf_dirent_def entry_def bytes_of_def)
      then have "map (length \<circ> enc_dirent) directory = map (\<lambda>_. 32) directory" by simp
      moreover have "length directory = 9" by (simp add: directory_def NUM_GAMES_def)
      ultimately show ?thesis by (simp add: length_concat map_replicate_const sum_list_replicate comp_def)
    qed
    then show ?thesis by (simp add: ReadDirectory_eq)
  qed
  moreover have "length (snd (ReadBootSector (replicate 512 0))) = 512"
    by (simp add: ReadBootSector_def bp.valid_width)
  moreover have "length data = 512" if "ReadData p (replicate 512 0) (d\<lparr>reads := reads d + 1\<rparr>) = Done (ok, data, d')"
    using ReadData_length [OF that] assms(3) by simp
  ultimately show ?thesis
    using assms(1,2)
    by (auto simp: ReadSector_def ReadSemaphore_def Let_def split: if_splits prod.splits)
qed

lemma WriteSector_length:
  assumes "WriteSector p buf sector cnt d = Done (ok, data, d', p')" and "length buf = 512"
  shows "length data = 512"
proof -
  let ?mu = "dec_multio buf"
  have wf: "length (mu_key ?mu) = 4" "length (mu_state ?mu) = 4"
    using dec_multio_wf [of buf] assms(2) by (auto simp: wf_multio_def)
  have enc: "length (overwrite buf 0 (enc_multio mu)) = 512" if "wf_multio mu" for mu
    using mu.store_length [OF that] assms(2) by simp
  have "length data' = 512" if "WriteData_with SwapCommand p buf d0 = Done (b, data', d1, p1)" for b data' d0 d1 p1
    using that wf assms(2) by (cases "dstate d0")
      (auto simp: WriteData_with_def Let_def obind_eq_Done wf_multio_def intro!: enc split: if_splits)
  then show ?thesis
    using assms by (auto simp: WriteSector_def WriteSector_with_def Let_def WriteSemaphore_def split: if_splits)
qed

lemma read_at_memory:
  assumes "read_at buf sector cnt w = Done (ok, w')" and "wf_multio (multio (w_disk w))" and "fits buf 512"
  shows "\<exists>data. ReadSector (w_proto w) (region (w_mem w) buf 512) sector cnt (w_disk w) = Done (ok, data, w_disk w')
    \<and> region (w_mem w') buf 512 = data \<and> w_proto w' = w_proto w
    \<and> (\<forall>a. (\<forall>i < 512. a \<noteq> phys (far_add buf i)) \<longrightarrow> w_mem w' a = w_mem w a)"
  using assms(1)
proof (rule read_at_cases)
  fix data d assume r: "ReadSector (w_proto w) (region (w_mem w) buf 512) sector cnt (w_disk w) = Done (ok, data, d)"
    and w': "w' = w\<lparr>w_mem := mstore buf data (w_mem w), w_disk := d\<rparr>"
  have len: "length data = 512" using ReadSector_length [OF r] assms(2) by simp
  then have "region (mstore buf data (w_mem w)) buf 512 = data" using assms(3) by (simp add: region_mstore)
  moreover have "mstore buf data (w_mem w) a = w_mem w a" if "\<forall>i < 512. a \<noteq> phys (far_add buf i)" for a
    using that len by (intro mstore_other) simp
  ultimately show ?thesis using r w' by simp
qed

lemma write_at_memory:
  assumes "write_at buf sector cnt w = Done (ok, w')" and "fits buf 512"
  shows "\<exists>data. WriteSector (w_proto w) (region (w_mem w) buf 512) sector cnt (w_disk w)
        = Done (ok, data, w_disk w', w_proto w')
    \<and> region (w_mem w') buf 512 = data
    \<and> (\<forall>a. (\<forall>i < 512. a \<noteq> phys (far_add buf i)) \<longrightarrow> w_mem w' a = w_mem w a)"
  using assms(1)
proof (rule write_at_cases)
  fix data d p assume r: "WriteSector (w_proto w) (region (w_mem w) buf 512) sector cnt (w_disk w) = Done (ok, data, d, p)"
    and w': "w' = w\<lparr>w_mem := mstore buf data (w_mem w), w_disk := d, w_proto := p\<rparr>"
  have len: "length data = 512" using WriteSector_length [OF r] by simp
  then have "region (mstore buf data (w_mem w)) buf 512 = data" using assms(2) by (simp add: region_mstore)
  moreover have "mstore buf data (w_mem w) a = w_mem w a" if "\<forall>i < 512. a \<noteq> phys (far_add buf i)" for a
    using that len by (intro mstore_other) simp
  ultimately show ?thesis using r w' by simp
qed

lemma bios_result_fields: "bios_result ok r =
    (if ok then r\<lparr>r_ah := 0, r_al := 1, r_flags := r_flags r AND NOT 1\<rparr>
     else r\<lparr>r_ah := 0x20, r_al := 0, r_flags := r_flags r OR 1\<rparr>)"
  by (simp add: bios_result_def with_carry_def INTR_CF_def)

lemma bios_sector_number:
  assumes "r_cx r \<noteq> 0"
  shows "bios_sector r = of_nat (unat (r_cx r) - 1 + 65536 * unat (r_dh r))"
proof -
  define c where "c = unat (r_cx r) - 1"
  have "unat (r_cx r) \<noteq> 0" using assms by (simp add: unat_eq_0)
  then have suc: "unat (r_cx r) = Suc c" by (simp add: c_def)
  have "ucast (r_cx r) = (of_nat (Suc c) :: u32)" by (simp only: suc [symmetric] of_nat_unat)
  then have c: "c < 2 ^ 16" "ucast (r_cx r) - 1 = (of_nat c :: u32)"
    using suc unat_u16_less [of "r_cx r"] by simp_all
  have "\<not> bit (of_nat c :: u32) n \<or> \<not> bit (push_bit 16 (ucast (r_dh r)) :: u32) n" for n
  proof (cases "n < 16")
    case False
    have "take_bit 16 c = c" using c(1) by (simp add: take_bit_nat_eq_self)
    then have "\<not> bit c n" using False by (metis bit_take_bit_iff)
    then show ?thesis by (simp add: bit_simps)
  qed (simp add: bit_simps)
  then have "bios_sector r = of_nat c + push_bit 16 (ucast (r_dh r))"
    unfolding bios_sector_def c(2) by (subst disjunctive_add) auto
  then show ?thesis by (simp add: c_def push_bit_eq_mult mult.commute)
qed

text \<open>C20: a BIOS disk interrupt. It polls the network first. A reset of the emulated drive
  succeeds: \<^verbatim>\<open>ah\<close> is 0 and the carry flag clear. A read or write of the emulated drive
  is one of the sector \<^verbatim>\<open>cx - 1\<close> with \<^verbatim>\<open>dh\<close> above its 16 bits (all
  bits are set when \<^verbatim>\<open>cx\<close> is 0), on the
  buffer at \<^verbatim>\<open>es:bx\<close>: a read leaves the contents of the sector there, a write what
  \<^verbatim>\<open>WriteSector\<close> leaves, and nothing else in memory changes. On success
  \<^verbatim>\<open>ah\<close> is 0, \<^verbatim>\<open>al\<close> is 1 and the carry flag clear; on failure
  \<^verbatim>\<open>ah\<close> is 0x20, \<^verbatim>\<open>al\<close> is 0 and the carry flag set; all other registers
  and flags stay. Calls for another drive or another function chain to the old handler with registers,
  memory and disk as they were.\<close>

theorem int13_transfer:
  assumes "run_int13 r w = Done (e, r', w')"
    and "wf_multio (multio (w_disk w))" and "fits (r_es r, r_bx r) 512"
    and "sector = (if r_cx r = 0 then -1 else of_nat (unat (r_cx r) - 1 + 65536 * unat (r_dh r)))"
  shows "(r_dl r \<noteq> 1 \<or> r_ah r \<notin> {0, 2, 3} \<longrightarrow>
      e = Chains (old_int13 w) \<and> r' = r \<and> w_mem w' = w_mem w \<and> w_disk w' = w_disk w
        \<and> ReceivePackets (w_proto w) = Done (w_proto w'))
    \<and> (r_dl r = 1 \<and> r_ah r = 0 \<longrightarrow>
      e = Returns \<and> r' = r\<lparr>r_ah := 0, r_flags := r_flags r AND NOT 1\<rparr> \<and> w_mem w' = w_mem w \<and> w_disk w' = w_disk w
        \<and> ReceivePackets (w_proto w) = Done (w_proto w'))
    \<and> (r_dl r = 1 \<and> r_ah r = 2 \<longrightarrow> e = Returns \<and>
        (\<exists>ok. ReceivePackets (w_proto w) = Done (w_proto w')
          \<and> ReadSector (w_proto w') (region (w_mem w) (r_es r, r_bx r) 512) sector (ucast (r_al r)) (w_disk w)
            = Done (ok, region (w_mem w') (r_es r, r_bx r) 512, w_disk w')
          \<and> r' = (if ok then r\<lparr>r_ah := 0, r_al := 1, r_flags := r_flags r AND NOT 1\<rparr>
                   else r\<lparr>r_ah := 0x20, r_al := 0, r_flags := r_flags r OR 1\<rparr>)
          \<and> (r_flags r' AND INTR_CF = 0) = ok
          \<and> (\<forall>a. (\<forall>i < 512. a \<noteq> phys (far_add (r_es r, r_bx r) i)) \<longrightarrow> w_mem w' a = w_mem w a)))
    \<and> (r_dl r = 1 \<and> r_ah r = 3 \<longrightarrow> e = Returns \<and>
        (\<exists>ok p. ReceivePackets (w_proto w) = Done p
          \<and> WriteSector p (region (w_mem w) (r_es r, r_bx r) 512) sector (ucast (r_al r)) (w_disk w)
            = Done (ok, region (w_mem w') (r_es r, r_bx r) 512, w_disk w', w_proto w')
          \<and> r' = (if ok then r\<lparr>r_ah := 0, r_al := 1, r_flags := r_flags r AND NOT 1\<rparr>
                   else r\<lparr>r_ah := 0x20, r_al := 0, r_flags := r_flags r OR 1\<rparr>)
          \<and> (r_flags r' AND INTR_CF = 0) = ok
          \<and> (\<forall>a. (\<forall>i < 512. a \<noteq> phys (far_add (r_es r, r_bx r) i)) \<longrightarrow> w_mem w' a = w_mem w a)))"
proof -
  have sec: "sector = bios_sector r" using assms(4) bios_sector_number [of r] by (auto simp: bios_sector_def)
  from assms(1) obtain p where p: "ReceivePackets (w_proto w) = Done p"
    by (auto simp: run_int13_def RealInt13_def obind_eq_Done)
  define w1 where "w1 = w\<lparr>w_proto := p, int13_count := int13_count w + 1\<rparr>"
  have w1: "w_proto w1 = p" "w_mem w1 = w_mem w" "w_disk w1 = w_disk w" by (simp_all add: w1_def)
  have "e = Chains (old_int13 w) \<and> r' = r \<and> w_mem w' = w_mem w \<and> w_disk w' = w_disk w
        \<and> ReceivePackets (w_proto w) = Done (w_proto w')"
    if "r_dl r \<noteq> 1 \<or> r_ah r \<notin> {0, 2, 3}"
    using assms(1) that p by (auto simp: run_int13_def RealInt13_def Let_def)
  moreover have "e = Returns \<and> r' = r\<lparr>r_ah := 0, r_flags := r_flags r AND NOT 1\<rparr> \<and> w_mem w' = w_mem w \<and> w_disk w' = w_disk w
        \<and> ReceivePackets (w_proto w) = Done (w_proto w')"
    if "r_dl r = 1" "r_ah r = 0"
    using assms(1) that p by (auto simp: run_int13_def RealInt13_def Let_def with_carry_def INTR_CF_def)
  moreover have "e = Returns \<and>
        (\<exists>ok. ReceivePackets (w_proto w) = Done (w_proto w')
          \<and> ReadSector (w_proto w') (region (w_mem w) (r_es r, r_bx r) 512) sector (ucast (r_al r)) (w_disk w)
            = Done (ok, region (w_mem w') (r_es r, r_bx r) 512, w_disk w')
          \<and> r' = (if ok then r\<lparr>r_ah := 0, r_al := 1, r_flags := r_flags r AND NOT 1\<rparr>
                   else r\<lparr>r_ah := 0x20, r_al := 0, r_flags := r_flags r OR 1\<rparr>)
          \<and> (r_flags r' AND INTR_CF = 0) = ok
          \<and> (\<forall>a. (\<forall>i < 512. a \<noteq> phys (far_add (r_es r, r_bx r) i)) \<longrightarrow> w_mem w' a = w_mem w a))"
    if "r_dl r = 1" "r_ah r = 2"
  proof -
    from assms(1) that p obtain ok where t: "read_at (r_es r, r_bx r) sector (ucast (r_al r)) w1 = Done (ok, w')"
        "e = Returns" "r' = bios_result ok r"
      by (auto simp: run_int13_def RealInt13_def Let_def obind_eq_Done MK_FP_def w1_def sec)
    have "(r_flags r' AND INTR_CF = 0) = ok" unfolding t(3) by (rule result_flags)
    moreover note bios_result_fields [of ok r, folded t(3)]
    ultimately show ?thesis
      using read_at_memory [OF t(1) _ assms(3)] assms(2) p t(2) unfolding w1 by blast
  qed
  moreover have "e = Returns \<and>
        (\<exists>ok p. ReceivePackets (w_proto w) = Done p
          \<and> WriteSector p (region (w_mem w) (r_es r, r_bx r) 512) sector (ucast (r_al r)) (w_disk w)
            = Done (ok, region (w_mem w') (r_es r, r_bx r) 512, w_disk w', w_proto w')
          \<and> r' = (if ok then r\<lparr>r_ah := 0, r_al := 1, r_flags := r_flags r AND NOT 1\<rparr>
                   else r\<lparr>r_ah := 0x20, r_al := 0, r_flags := r_flags r OR 1\<rparr>)
          \<and> (r_flags r' AND INTR_CF = 0) = ok
          \<and> (\<forall>a. (\<forall>i < 512. a \<noteq> phys (far_add (r_es r, r_bx r) i)) \<longrightarrow> w_mem w' a = w_mem w a))"
    if "r_dl r = 1" "r_ah r = 3"
  proof -
    from assms(1) that p obtain ok where t: "write_at (r_es r, r_bx r) sector (ucast (r_al r)) w1 = Done (ok, w')"
        "e = Returns" "r' = bios_result ok r"
      by (auto simp: run_int13_def RealInt13_def Let_def obind_eq_Done MK_FP_def w1_def sec)
    have "(r_flags r' AND INTR_CF = 0) = ok" unfolding t(3) by (rule result_flags)
    moreover note bios_result_fields [of ok r, folded t(3)]
    ultimately show ?thesis
      using write_at_memory [OF t(1) assms(3)] p t(2) unfolding w1 by blast
  qed
  ultimately show ?thesis by blast
qed

definition sample_regs :: regs where
  "sample_regs = \<lparr>r_al = 1, r_ah = 2, r_dl = 1, r_dh = 0, r_bx = 0, r_cx = 5, r_ds = 0x100, r_es = 0x100,
     r_cs = 0x200, r_flags = 1\<rparr>"

theorem int13_transfer_witness:
  "\<exists>r' w'. run_int13 sample_regs sample_world = Done (Returns, r', w')
    \<and> r' = sample_regs\<lparr>r_ah := 0, r_al := 1, r_flags := 0\<rparr>
    \<and> region (w_mem w') (0x100, 0) 512 = (replicate 512 0)[0 := 0xfe]"
proof -
  obtain p where p: "ReceivePackets (sample_protocol []) = Done p"
    using ReceivePackets_total [OF sample_protocol_wf, of "[]"] by auto
  have sec: "bios_sector sample_regs = SECTOR_SEMAPHOR" "ucast (r_al sample_regs) = (1 :: u16)"
    by (simp_all add: bios_sector_def sample_regs_def SECTOR_SEMAPHOR_def)
  have rd: "ReadSector q buf SECTOR_SEMAPHOR 1 static_disk
      = Done (True, (replicate 512 0)[0 := 0xfe], static_disk\<lparr>reads := 1\<rparr>)" for q buf
    by (simp add: ReadSector_def sector_defs ReadSemaphore_def static_disk_def)
  have v: "r_al sample_regs = 1" "r_ah sample_regs = 2" "r_dl sample_regs = 1" "r_es sample_regs = 0x100"
    "r_bx sample_regs = 0" "int13_count sample_world = 0"
    by (simp_all add: sample_regs_def sample_world_def)
  let ?w = "sample_world\<lparr>w_proto := p, int13_count := 1\<rparr>"
  have w: "w_disk ?w = static_disk" "w_disk sample_world = static_disk" "w_proto sample_world = sample_protocol []"
    by (simp_all add: sample_world_def)
  obtain w' where "read_at (0x100, 0) SECTOR_SEMAPHOR 1 ?w = Done (True, w')"
    by (simp add: read_at_def rd w)
  then have call: "run_int13 sample_regs sample_world = Done (Returns, bios_result True sample_regs, w')"
    using p by (simp add: run_int13_def RealInt13_def sec w v MK_FP_def)
  have h: "wf_multio (multio (w_disk sample_world))" "fits (r_es sample_regs, r_bx sample_regs) 512"
    "r_dl sample_regs = 1" "r_ah sample_regs = 2" "r_es sample_regs = 0x100" "r_bx sample_regs = 0"
    by (simp_all add: w static_disk_def wf_multio_def fits_def sample_regs_def)
  have s: "SECTOR_SEMAPHOR = (if r_cx sample_regs = 0 then -1 else of_nat (unat (r_cx sample_regs) - 1 + 65536 * unat (r_dh sample_regs)))"
    by (simp add: sample_regs_def SECTOR_SEMAPHOR_def)
  from int13_transfer [OF call h(1,2) s] h(3,4) obtain ok where
    r: "ReadSector (w_proto w') (region (w_mem sample_world) (0x100, 0) 512) SECTOR_SEMAPHOR 1 static_disk
      = Done (ok, region (w_mem w') (0x100, 0) 512, w_disk w')"
    and r': "bios_result True sample_regs = (if ok
        then sample_regs\<lparr>r_ah := 0, r_al := 1, r_flags := r_flags sample_regs AND NOT 1\<rparr>
        else sample_regs\<lparr>r_ah := 0x20, r_al := 0, r_flags := r_flags sample_regs OR 1\<rparr>)"
    unfolding h(5,6) sec w by blast
  from r have "ok" "region (w_mem w') (0x100, 0) 512 = (replicate 512 0)[0 := 0xfe]"
    unfolding rd by simp_all
  with call r' show ?thesis by (simp add: sample_regs_def)
qed

lemma bios_dos_sector:
  assumes "r_dh r = 0" and "r_cx r = dx r' + 1" and "dx r' \<noteq> 0xffff"
  shows "bios_sector r = ucast (dx r')"
proof -
  have "unat (dx r') + 1 < 65536"
  proof -
    have "unat (dx r') \<noteq> unat (0xffff :: u16)" using assms(3) by (simp add: word_unat_eq_iff)
    then have "unat (dx r') \<noteq> 65535" by simp
    then show ?thesis using unat_u16_less [of "dx r'"] by linarith
  qed
  then have "unat (dx r' + 1) = unat (dx r') + 1" by (simp add: unat_add_small)
  moreover have u: "unat (ucast (x :: u16) :: u32) = unat x" for x
    by (simp add: unsigned_ucast_eq take_bit_nat_eq_self less_trans [OF unat_u16_less])
  ultimately have "ucast (dx r' + 1) - 1 = (ucast (dx r') :: u32)"
    by (simp add: word_unat_eq_iff unat_sub_small u)
  then show ?thesis by (simp add: bios_sector_def assms(1,2))
qed

definition patched_world :: world where
  "patched_world = sample_world\<lparr>applied_patches := True\<rparr>"

definition dos_regs :: regs where
  "dos_regs = sample_regs\<lparr>r_cx := 1, r_dl := 4, r_dh := 0\<rparr>"

text \<open>C21: the two ways to a sector agree. The BIOS counts sectors from 1 and DOS from 0: a BIOS
  read with one more in \<^verbatim>\<open>cx\<close> than DOS has in \<^verbatim>\<open>dx\<close> gets the same
  sector, so it succeeds in the same cases with the same contents.\<close>

theorem bios_dos_agree:
  assumes "r_dl r = 1" and "r_ah r = 2" and "r_dh r = 0" and "r_al r = 1" and "r_cx r = dx r' + 1"
    and "r_al r' = 1" and "r_cx r' = 1" and "dx r' \<noteq> 0xffff" and "r_ds r' = r_es r" and "r_bx r' = r_bx r"
    and "applied_patches w" and "run_int13 r w = Done (e1, r1, w1)"
    and "run_int25 r' (w\<lparr>w_proto := w_proto w1\<rparr>) = Done (e2, r2, w2)"
  shows "e1 = Returns \<and> e2 = Returns \<and> w_mem w1 = w_mem w2 \<and> w_disk w1 = w_disk w2
    \<and> (r_flags r1 AND INTR_CF = 0) = (r_flags r2 AND INTR_CF = 0)"
proof -
  have sec: "bios_sector r = ucast (dx r')" using assms by (intro bios_dos_sector)
  from assms(12) obtain p where p: "ReceivePackets (w_proto w) = Done p"
    by (auto simp: run_int13_def RealInt13_def obind_eq_Done)
  let ?buf = "(r_es r, r_bx r)" and ?u = "w\<lparr>w_proto := p, int13_count := int13_count w + 1\<rparr>"
  from assms(1,2,4,12) p obtain ok1 where a: "read_at ?buf (ucast (dx r')) 1 ?u = Done (ok1, w1)"
      "e1 = Returns" "r1 = bios_result ok1 r"
    by (auto simp: run_int13_def RealInt13_def Let_def obind_eq_Done MK_FP_def sec)
  have w1: "w_proto w1 = p" using a(1) by (auto elim: read_at_cases)
  let ?v = "w\<lparr>w_proto := p, int25_count := int25_count w + 1, w_pc := dos_setvect 0x13 Int13 (w_pc w)\<rparr>"
  from assms(6,7,9,10,11,13) obtain ok2 where b: "read_at ?buf (ucast (dx r')) 1 ?v = Done (ok2, w2)"
      "e2 = Returns" "r2 = dos_result ok2 r'"
    by (auto simp: run_int25_def Let_def obind_eq_Done MK_FP_def w1)
  from a(1) obtain data d where
    r: "ReadSector p (region (w_mem w) ?buf 512) (ucast (dx r')) 1 (w_disk w) = Done (ok1, data, d)"
    and m1: "w_mem w1 = mstore ?buf data (w_mem w)" "w_disk w1 = d"
    by (auto elim: read_at_cases)
  from b(1) r have "ok2 = ok1 \<and> w_mem w2 = mstore ?buf data (w_mem w) \<and> w_disk w2 = d"
    by (auto simp: read_at_def)
  then show ?thesis using a(2,3) b(2,3) m1 result_flags by simp
qed

theorem bios_dos_agree_witness:
  "\<exists>e1 r1 w1 e2 r2 w2. run_int13 sample_regs patched_world = Done (e1, r1, w1)
    \<and> run_int25 dos_regs (patched_world\<lparr>w_proto := w_proto w1\<rparr>) = Done (e2, r2, w2)
    \<and> e1 = Returns \<and> w_mem w1 = w_mem w2"
proof -
  obtain p where p: "ReceivePackets (w_proto patched_world) = Done p"
    using ReceivePackets_total [OF sample_protocol_wf, of "[]"]
    by (auto simp: patched_world_def sample_world_def)
  have rd: "\<exists>w'. read_at buf 4 1 w = Done (True, w')" if "w_disk w = static_disk" for w buf
    by (simp add: that read_at_def ReadSector_def sector_defs ReadSemaphore_def static_disk_def)
  have bs: "bios_sector sample_regs = 4" "dx dos_regs = 4"
    by (simp_all add: bios_sector_def sample_regs_def dos_regs_def dx_def)
  have d: "w_disk patched_world = static_disk" by (simp add: patched_world_def sample_world_def)
  have v: "r_al sample_regs = 1" "r_ah sample_regs = 2" "r_dl sample_regs = 1" "r_al dos_regs = 1"
    "r_cx dos_regs = 1" "applied_patches patched_world"
    by (simp_all add: sample_regs_def dos_regs_def patched_world_def)
  obtain w1 where "read_at (MK_FP (r_es sample_regs) (r_bx sample_regs)) 4 1
      (patched_world\<lparr>w_proto := p, int13_count := int13_count patched_world + 1\<rparr>) = Done (True, w1)"
    using rd d by fastforce
  then have "run_int13 sample_regs patched_world = Done (Returns, bios_result True sample_regs, w1)"
    using p by (simp add: run_int13_def RealInt13_def bs v)
  then obtain r1 w1 where c1: "run_int13 sample_regs patched_world = Done (Returns, r1, w1)" by blast
  obtain w2 where "read_at (MK_FP (r_ds dos_regs) (r_bx dos_regs)) 4 1
      (patched_world\<lparr>w_proto := w_proto w1, int25_count := int25_count patched_world + 1,
        w_pc := dos_setvect 0x13 Int13 (w_pc patched_world)\<rparr>) = Done (True, w2)"
    using rd d by fastforce
  then have "run_int25 dos_regs (patched_world\<lparr>w_proto := w_proto w1\<rparr>) = Done (Returns, dos_result True dos_regs, w2)"
    by (simp add: run_int25_def Let_def bs v)
  then obtain r2 w2 where c2: "run_int25 dos_regs (patched_world\<lparr>w_proto := w_proto w1\<rparr>) = Done (Returns, r2, w2)"
    by blast
  have h: "r_dh sample_regs = 0" "r_cx sample_regs = dx dos_regs + 1" "dx dos_regs \<noteq> 0xffff"
    "r_ds dos_regs = r_es sample_regs" "r_bx dos_regs = r_bx sample_regs"
    by (simp_all add: bs) (simp_all add: sample_regs_def dos_regs_def)
  from bios_dos_agree [OF v(3,2) h(1) v(1) h(2) v(4,5) h(3-5) v(6) c1 c2] c1 c2 show ?thesis by blast
qed

definition run_keeps :: "world \<Rightarrow> world \<Rightarrow> bool" where
  "run_keeps w w' \<longleftrightarrow> applied_patches w' = applied_patches w
    \<and> (w_mem w' = w_mem w \<or> (\<exists>p data. w_mem w' = mstore p data (w_mem w)))"

lemma run_keepsI:
  "applied_patches w' = applied_patches w \<and> (\<exists>data. w_mem w' = mstore p data (w_mem w)) \<Longrightarrow> run_keeps w w'"
  unfolding run_keeps_def by blast

lemma run_int13_keeps:
  assumes "run_int13 r w = Done (e, r', w')"
  shows "run_keeps w w'"
proof -
  from assms obtain p where p: "ReceivePackets (w_proto w) = Done p"
    by (auto simp: run_int13_def RealInt13_def obind_eq_Done)
  let ?w1 = "w\<lparr>w_proto := p, int13_count := int13_count w + 1\<rparr>" and ?buf = "MK_FP (r_es r) (r_bx r)"
  from assms p consider "w' = ?w1"
    | ok where "read_at ?buf (bios_sector r) (ucast (r_al r)) ?w1 = Done (ok, w')"
    | ok where "write_at ?buf (bios_sector r) (ucast (r_al r)) ?w1 = Done (ok, w')"
    by (auto simp: run_int13_def RealInt13_def Let_def obind_eq_Done split: if_splits)
  then show ?thesis
  proof cases
    case 1 then show ?thesis by (simp add: run_keeps_def)
  next
    case 2 from read_at_keeps [OF this] show ?thesis by (intro run_keepsI [of _ _ ?buf]) simp
  next
    case 3 from write_at_keeps [OF this] show ?thesis by (intro run_keepsI [of _ _ ?buf]) simp
  qed
qed

lemma run_int26_keeps:
  assumes "run_int26 r w = Done (e, r', w')"
  shows "run_keeps w w'"
proof -
  let ?w1 = "w\<lparr>int26_count := int26_count w + 1, w_pc := dos_setvect 0x13 Int13 (w_pc w)\<rparr>"
    and ?buf = "MK_FP (r_ds r) (r_bx r)"
  from assms consider "w' = ?w1"
    | ok where "write_at ?buf (ucast (dx r)) (r_cx r) ?w1 = Done (ok, w')"
    by (auto simp: run_int26_def Let_def obind_eq_Done split: if_splits)
  then show ?thesis
  proof cases
    case 1 then show ?thesis by (simp add: run_keeps_def)
  next
    case 2 from write_at_keeps [OF this] show ?thesis by (intro run_keepsI [of _ _ ?buf]) simp
  qed
qed

definition memory_patched :: "regs \<Rightarrow> world \<Rightarrow> memory" where
  "memory_patched r w = (if applied_patches w then w_mem w
     else ApplyPatches (no_mem_patch w) (num_players (w_proto w)) (r_cs r) (w_mem w))"

lemma run_int25_patches:
  assumes "run_int25 r w = Done (e, r', w')"
  shows "applied_patches w'" and "r_al r \<noteq> 1 \<Longrightarrow> w_mem w' = memory_patched r w"
    and "r_al r = 1 \<Longrightarrow> \<exists>data. w_mem w' = mstore (MK_FP (r_ds r) (r_bx r)) data (memory_patched r w)"
proof -
  define w1 where "w1 = w\<lparr>int25_count := int25_count w + 1, w_pc := dos_setvect 0x13 Int13 (w_pc w)\<rparr>"
  define w2 where "w2 = (if \<not> applied_patches w1 then
                 w1\<lparr>w_mem := ApplyPatches (no_mem_patch w1) (num_players (w_proto w1)) (r_cs r) (w_mem w1),
                    applied_patches := True\<rparr>
               else w1)"
  have w2: "applied_patches w2" "w_mem w2 = memory_patched r w"
    by (simp_all add: w2_def w1_def memory_patched_def)
  from assms consider "r_al r \<noteq> 1" "w' = w2"
    | ok where "r_al r = 1" "read_at (MK_FP (r_ds r) (r_bx r)) (ucast (dx r)) (r_cx r) w2 = Done (ok, w')"
    unfolding run_int25_def Let_def w1_def [symmetric] w2_def [symmetric]
    by (auto simp: obind_eq_Done split: if_splits)
  then have "applied_patches w' \<and> (r_al r \<noteq> 1 \<longrightarrow> w_mem w' = memory_patched r w)
    \<and> (r_al r = 1 \<longrightarrow> (\<exists>data. w_mem w' = mstore (MK_FP (r_ds r) (r_bx r)) data (memory_patched r w)))"
  proof cases
    case 1 then show ?thesis by (simp add: w2)
  next
    case 2 from read_at_keeps [OF 2(2)] 2(1) w2 show ?thesis by simp
  qed
  then show "applied_patches w'" and "r_al r \<noteq> 1 \<Longrightarrow> w_mem w' = memory_patched r w"
    and "r_al r = 1 \<Longrightarrow> \<exists>data. w_mem w' = mstore (MK_FP (r_ds r) (r_bx r)) data (memory_patched r w)"
    by blast+
qed

text \<open>C22: the patches are made once: the first DOS read makes them, in the segment of the caller,
  before it transfers anything, and no later disk interrupt of either kind makes them again.\<close>

theorem patches_made_once:
  assumes "run_int25 r w = Done (e, r', w')"
  shows "applied_patches w'
    \<and> (r_al r \<noteq> 1 \<longrightarrow> w_mem w' = memory_patched r w)
    \<and> (r_al r = 1 \<longrightarrow> (\<exists>data. w_mem w' = mstore (MK_FP (r_ds r) (r_bx r)) data (memory_patched r w)))
    \<and> (\<forall>s. memory_patched s w' = w_mem w')
    \<and> (\<forall>s f t t'. run_int13 s w' = Done (f, t, t') \<or> run_int26 s w' = Done (f, t, t') \<longrightarrow>
         applied_patches t' \<and> (w_mem t' = w_mem w' \<or>
           (\<exists>p data. w_mem t' = mstore p data (w_mem w'))))"
proof (intro conjI impI allI)
  show ap: "applied_patches w'" using assms by (rule run_int25_patches(1))
  then show "memory_patched s w' = w_mem w'" for s by (simp add: memory_patched_def)
  show "w_mem w' = memory_patched r w" if "r_al r \<noteq> 1"
    using run_int25_patches(2) [OF assms] that by blast
  show "\<exists>data. w_mem w' = mstore (MK_FP (r_ds r) (r_bx r)) data (memory_patched r w)" if "r_al r = 1"
    using run_int25_patches(3) [OF assms] that by blast
  fix s f t t' assume "run_int13 s w' = Done (f, t, t') \<or> run_int26 s w' = Done (f, t, t')"
  then have "run_keeps w' t'" using run_int13_keeps run_int26_keeps by blast
  then show "applied_patches t'" and "w_mem t' = w_mem w' \<or> (\<exists>p data. w_mem t' = mstore p data (w_mem w'))"
    using ap unfolding run_keeps_def by blast+
qed

theorem patches_made_once_witness:
  "\<exists>e r' w'. run_int25 (sample_regs\<lparr>r_al := 0\<rparr>) sample_world = Done (e, r', w') \<and> applied_patches w'"
proof -
  obtain e r' w' where call: "run_int25 (sample_regs\<lparr>r_al := 0\<rparr>) sample_world = Done (e, r', w')"
    by (simp add: run_int25_def Let_def)
  from patches_made_once [OF call] call show ?thesis by blast
qed

end
