(* ===== verification/Flag.thy ===== *)
theory Flag
  imports Cstring
begin

text \<open>
  The first half of \<^verbatim>\<open>lib/flag.c\<close>: the table of flags, the usage text, the search
  for a flag by its name and the parsing of numbers. How the program can stop instead of
  returning is a value of the type \<open>stop\<close>.
\<close>

section \<open>Ways to stop\<close>

text \<open>What the message of an error says; the texts are in theory Report.\<close>

datatype complaint =
    ResponseFileNotFound string
  | UnknownFlag string
  | InvalidValue string string
  | ValueOutOfRange string int int int
  | NoValueGiven string
  | NoCommand
  | NoDriver
  | Aborted string

text \<open>The usage with exit code 0; \<^verbatim>\<open>Error\<close>; \<^verbatim>\<open>ErrorPrintUsage\<close>; a null
  pointer given to a function of the C library; and a failed assertion or an access out of
  bounds.\<close>

datatype stop =
    ShowUsage
  | Error complaint
  | ErrorPrintUsage complaint
  | NullPointer
  | Crash fault

fun ebind :: "stop + 'a \<Rightarrow> ('a \<Rightarrow> stop + 'b) \<Rightarrow> stop + 'b" where
  "ebind (Inl e) f = Inl e"
| "ebind (Inr x) f = f x"

lemma ebind_cong [fundef_cong]:
  "x = y \<Longrightarrow> (\<And>a. y = Inr a \<Longrightarrow> f a = g a) \<Longrightarrow> ebind x f = ebind y g"
  by (cases x) auto

lemma ebind_eq_Inr: "ebind x f = Inr b \<longleftrightarrow> (\<exists>a. x = Inr a \<and> f a = Inr b)"
  by (cases x) auto

lemma ebind_eq_Inl: "ebind x f = Inl e \<longleftrightarrow> x = Inl e \<or> (\<exists>a. x = Inr a \<and> f a = Inl e)"
  by (cases x) auto

lemma ebind_assoc: "ebind (ebind x f) g = ebind x (\<lambda>a. ebind (f a) g)"
  by (cases x) auto

section \<open>The table of flags\<close>

definition MAX_FLAGS :: nat where "MAX_FLAGS = 24"

datatype flag_type = FLAG_BOOL | FLAG_STRING | FLAG_UNSIGNED_INT | FLAG_INT | FLAG_API_POINTER

text \<open>The pointer in the union is the number of the variable or of the callback.\<close>

record flag =
  f_type :: flag_type
  f_name :: string
  f_param :: "string option"
  f_help :: "string option"
  f_value :: nat

text \<open>The table is the list of the entries in use, \<^verbatim>\<open>num_flags\<close> its length. An unused
  entry is all zero.\<close>

definition NewFlag :: "string \<Rightarrow> string option \<Rightarrow> flag list \<Rightarrow> flag list outcome" where
  "NewFlag name help fl =
    (if \<not> length fl < MAX_FLAGS then Fault AssertFailed
     else Done (fl @ [\<lparr>f_type = FLAG_BOOL, f_name = name, f_param = None, f_help = help, f_value = 0\<rparr>]))"

text \<open>Fields set through the pointer that \<^verbatim>\<open>NewFlag\<close> returns, to the last entry.\<close>

definition set_new :: "(flag \<Rightarrow> flag) \<Rightarrow> flag list \<Rightarrow> flag list" where
  "set_new g fl = butlast fl @ [g (last fl)]"

definition BoolFlag :: "string \<Rightarrow> nat \<Rightarrow> string \<Rightarrow> flag list \<Rightarrow> flag list outcome" where
  "BoolFlag name ptr help fl = obind (NewFlag name (Some help) fl) (\<lambda>fl.
     Done (set_new (\<lambda>f. f\<lparr>f_type := FLAG_BOOL, f_value := ptr\<rparr>) fl))"

definition IntFlag :: "string \<Rightarrow> nat \<Rightarrow> string \<Rightarrow> string \<Rightarrow> flag list \<Rightarrow> flag list outcome" where
  "IntFlag name ptr param help fl = obind (NewFlag name (Some help) fl) (\<lambda>fl.
     Done (set_new (\<lambda>f. f\<lparr>f_type := FLAG_INT, f_param := Some param, f_value := ptr\<rparr>) fl))"

definition UnsignedIntFlag :: "string \<Rightarrow> nat \<Rightarrow> string \<Rightarrow> string \<Rightarrow> flag list \<Rightarrow> flag list outcome" where
  "UnsignedIntFlag name ptr param help fl = obind (NewFlag name (Some help) fl) (\<lambda>fl.
     Done (set_new (\<lambda>f. f\<lparr>f_type := FLAG_UNSIGNED_INT, f_param := Some param, f_value := ptr\<rparr>) fl))"

definition StringFlag :: "string \<Rightarrow> nat \<Rightarrow> string \<Rightarrow> string \<Rightarrow> flag list \<Rightarrow> flag list outcome" where
  "StringFlag name ptr param help fl = obind (NewFlag name (Some help) fl) (\<lambda>fl.
     Done (set_new (\<lambda>f. f\<lparr>f_type := FLAG_STRING, f_param := Some param, f_value := ptr\<rparr>) fl))"

definition APIPointerFlag :: "string \<Rightarrow> nat \<Rightarrow> flag list \<Rightarrow> flag list outcome" where
  "APIPointerFlag name callback fl = obind (NewFlag name None fl) (\<lambda>fl.
     Done (set_new (\<lambda>f. f\<lparr>f_type := FLAG_API_POINTER, f_param := Some ''flataddr'', f_value := callback\<rparr>) fl))"

definition FindFlagForName :: "flag list \<Rightarrow> string \<Rightarrow> flag option" where
  "FindFlagForName fl name = find (\<lambda>f. same_nocase (f_name f) name) fl"

definition MustFindFlagForName :: "flag list \<Rightarrow> string \<Rightarrow> stop + flag" where
  "MustFindFlagForName fl name =
    (case FindFlagForName fl name of
       None \<Rightarrow> Inl (ErrorPrintUsage (UnknownFlag name))
     | Some f \<Rightarrow> Inr f)"

lemma FindFlagForName_Some: "FindFlagForName fl name = Some f \<Longrightarrow> f \<in> set fl \<and> same_nocase (f_name f) name"
  by (auto simp: FindFlagForName_def find_Some_iff)

lemma FindFlagForName_nocase:
  "same_nocase a b \<Longrightarrow> FindFlagForName fl a = FindFlagForName fl b"
  by (simp add: FindFlagForName_def same_nocase_def)

section \<open>Numbers\<close>

definition INT_MIN :: int where "INT_MIN = -32768"
definition INT_MAX :: int where "INT_MAX = 32767"
definition UINT_MAX :: int where "UINT_MAX = 65535"

definition MustParseInt :: "string \<Rightarrow> string \<Rightarrow> int \<Rightarrow> int \<Rightarrow> stop + u16" where
  "MustParseInt flag_name val lo hi =
    (let (result, endptr, errno) = strtol val 0
     in if (result = 0 \<and> errno) \<or> endptr = val \<or> endptr \<noteq> [] then
          Inl (ErrorPrintUsage (InvalidValue flag_name val))
        else if result < lo \<or> result > hi then
          Inl (ErrorPrintUsage (ValueOutOfRange flag_name result lo hi))
        else Inr (word_of_int result))"

section \<open>The usage text\<close>

text \<open>The label of a flag, with the name of its parameter.\<close>

definition usage_label :: "flag \<Rightarrow> string" where
  "usage_label f = ''  '' @ f_name f @
     (case f_param f of Some p \<Rightarrow> if f_type f \<noteq> FLAG_BOOL then '' <'' @ p @ ''>'' else [] | None \<Rightarrow> [])"

definition usage_width :: "flag \<Rightarrow> nat" where
  "usage_width f = 4 + length (f_name f) +
     (case f_param f of Some p \<Rightarrow> if f_type f \<noteq> FLAG_BOOL then 3 + length p else 0 | None \<Rightarrow> 0)"

definition usage_columns :: "flag list \<Rightarrow> nat" where
  "usage_columns fl = fold (\<lambda>f columns. if usage_width f > columns then usage_width f else columns) fl 0"

definition usage_line :: "nat \<Rightarrow> flag \<Rightarrow> string" where
  "usage_line columns f =
    (case f_help f of
       None \<Rightarrow> []
     | Some help \<Rightarrow> usage_label f @ replicate (columns - length (usage_label f)) (CHR '' '') @ help @ [CHR 0x0A])"

text \<open>\<^verbatim>\<open>fprintf\<close> with one string argument.\<close>

fun printf_s :: "string \<Rightarrow> string \<Rightarrow> string" where
  "printf_s [] s = []"
| "printf_s [c] s = [c]"
| "printf_s (c # d # r) s =
    (if c = CHR ''%'' \<and> d = CHR ''s'' then s @ printf_s r s
     else c # printf_s (d # r) s)"

definition PrintProgramUsage ::
  "string \<Rightarrow> string option \<Rightarrow> string option \<Rightarrow> bool \<Rightarrow> flag list \<Rightarrow> string" where
  "PrintProgramUsage program description example baked fl =
    (case description of Some d \<Rightarrow> d @ [CHR 0x0A, CHR 0x0A] | None \<Rightarrow> [])
    @ ''Usage: '' @ program @ '' [args] [command]'' @ [CHR 0x0A]
    @ concat (map (usage_line (usage_columns fl)) fl)
    @ (case example of
         Some e \<Rightarrow> if \<not> baked then [CHR 0x0A] @ ''Example:'' @ [CHR 0x0A] @ ''  '' @ printf_s e program @ [CHR 0x0A] else []
       | None \<Rightarrow> [])"

section \<open>Properties\<close>

lemma usage_columns_ge:
  assumes "f \<in> set fl"
  shows "usage_width f \<le> usage_columns fl"
proof -
  let ?g = "\<lambda>f columns. if usage_width f > columns then usage_width f else columns"
  have grow: "m \<le> fold ?g fl m" for fl m
  proof (induction fl arbitrary: m)
    case (Cons h t)
    have "m \<le> ?g h m" by simp
    also have "\<dots> \<le> fold ?g t (?g h m)" by (rule Cons)
    finally show ?case by simp
  qed simp
  have "f \<in> set fl \<Longrightarrow> usage_width f \<le> fold ?g fl m" for m
  proof (induction fl arbitrary: m)
    case (Cons h t)
    show ?case
    proof (cases "f = h")
      case True
      have "usage_width h \<le> ?g h m" by simp
      also have "\<dots> \<le> fold ?g t (?g h m)" by (rule grow)
      finally show ?thesis using True by simp
    next
      case False
      with Cons show ?thesis by simp
    qed
  qed simp
  with assms show ?thesis by (simp add: usage_columns_def)
qed

lemma usage_label_width: "length (usage_label f) + 2 = usage_width f"
  by (simp add: usage_label_def usage_width_def split: option.split)

text \<open>The usage text is a table: in the line of a flag the help text begins at the same
  column for every flag, after at least two spaces, however long the names are.\<close>

lemma usage_aligned:
  assumes "f \<in> set fl" and "f_help f = Some help"
  shows "\<exists>gap. usage_line (usage_columns fl) f = usage_label f @ replicate gap (CHR '' '') @ help @ [CHR 0x0A]
    \<and> length (usage_label f) + gap = usage_columns fl \<and> 2 \<le> gap"
  using usage_columns_ge [OF assms(1)] usage_label_width [of f] assms(2)
  by (intro exI [of _ "usage_columns fl - length (usage_label f)"]) (simp add: usage_line_def)

text \<open>C38: a number is accepted exactly when all of the text is one numeral (decimal, or
  hexadecimal or octal with their prefixes) and its value is in the range; a value that the
  \<^verbatim>\<open>long\<close> of the C library cannot hold is refused too.\<close>

theorem MustParseInt_correct:
  assumes "LONG_MIN < lo" and "hi < LONG_MAX"
  shows "MustParseInt name val lo hi =
    (case take_sign (dropWhile isspace val) of (neg, u) \<Rightarrow> case take_base 0 u of (b, d) \<Rightarrow>
       let v = (if neg then - int (digits_value b d) else int (digits_value b d))
       in if d = [] \<or> \<not> list_all (is_digit b) d then Inl (ErrorPrintUsage (InvalidValue name val))
          else if lo \<le> v \<and> v \<le> hi then Inr (word_of_int v)
          else Inl (ErrorPrintUsage (ValueOutOfRange name (if v < LONG_MIN then LONG_MIN
                 else if v > LONG_MAX then LONG_MAX else v) lo hi)))"
proof -
  obtain neg u where sign: "take_sign (dropWhile isspace val) = (neg, u)" by fastforce
  obtain b d where base: "take_base 0 u = (b, d)" by fastforce
  let ?ds = "takeWhile (is_digit b) d"
  show ?thesis
  proof (cases "d = [] \<or> \<not> list_all (is_digit b) d")
    case True
    have "?ds = [] \<or> drop (length ?ds) d \<noteq> []"
    proof (rule ccontr)
      assume "\<not> ?thesis"
      moreover have "?ds @ drop (length ?ds) d = d"
        by (metis dropWhile_eq_drop takeWhile_dropWhile_id)
      ultimately have "?ds \<noteq> []" "?ds = d" by auto
      then have "list_all (is_digit b) d" by (metis takeWhile_eq_all_conv list_all_iff)
      with True \<open>?ds \<noteq> []\<close> show False by simp
    qed
    with True show ?thesis
      by (auto simp: MustParseInt_def strtol_def sign base Let_def)
  next
    case False
    then have ds: "?ds = d" by (simp add: list_all_iff takeWhile_eq_all_conv)
    define v where "v = (if neg then - int (digits_value b d) else int (digits_value b d))"
    have ne: "val \<noteq> []" using sign base False by (auto simp: take_base_def split: if_splits)
    have "strtol val 0 = (if v < LONG_MIN then (LONG_MIN, [], True)
        else if v > LONG_MAX then (LONG_MAX, [], True) else (v, [], False))"
      using False by (simp add: strtol_def sign base ds Let_def v_def)
    then have "MustParseInt name val lo hi =
        (if lo \<le> v \<and> v \<le> hi then Inr (word_of_int v)
         else Inl (ErrorPrintUsage (ValueOutOfRange name (if v < LONG_MIN then LONG_MIN
                 else if v > LONG_MAX then LONG_MAX else v) lo hi)))"
      using assms ne by (simp add: MustParseInt_def LONG_MIN_def LONG_MAX_def)
    with False show ?thesis by (simp add: sign base Let_def v_def [symmetric])
  qed
qed

theorem MustParseInt_correct_witness:
  "MustParseInt ''-n'' '' 0x1F'' 0 UINT_MAX = Inr 31
    \<and> MustParseInt ''-n'' ''017'' INT_MIN INT_MAX = Inr 15
    \<and> MustParseInt ''-n'' ''65536'' 0 UINT_MAX = Inl (ErrorPrintUsage (ValueOutOfRange ''-n'' 65536 0 65535))
    \<and> MustParseInt ''-n'' ''12ab'' 0 UINT_MAX = Inl (ErrorPrintUsage (InvalidValue ''-n'' ''12ab''))"
proof -
  have r: "LONG_MIN < 0" "UINT_MAX < LONG_MAX" "LONG_MIN < INT_MIN" "INT_MAX < LONG_MAX"
    by (simp_all add: LONG_MIN_def LONG_MAX_def INT_MIN_def INT_MAX_def UINT_MAX_def)
  note eval = isspace_def take_base_def is_digit_def digit_value_def Let_def
  have "take_sign (dropWhile isspace '' 0x1F'') = (False, ''0x1F'')"
    "take_sign (dropWhile isspace ''017'') = (False, ''017'')"
    "take_sign (dropWhile isspace ''65536'') = (False, ''65536'')"
    "take_sign (dropWhile isspace ''12ab'') = (False, ''12ab'')"
    by (simp_all add: eval)
  moreover have "take_base 0 ''0x1F'' = (16, ''1F'')" "take_base 0 ''017'' = (8, ''017'')"
    "take_base 0 ''65536'' = (10, ''65536'')" "take_base 0 ''12ab'' = (10, ''12ab'')"
    by (simp_all add: eval)
  moreover have "list_all (is_digit 16) ''1F''" "list_all (is_digit 8) ''017''"
    "list_all (is_digit 10) ''65536''" "\<not> list_all (is_digit 10) ''12ab''"
    by (simp_all add: eval)
  moreover have "digits_value 16 ''1F'' = 31" "digits_value 8 ''017'' = 15" "digits_value 10 ''65536'' = 65536"
    by (simp_all add: digits_value_def digit_value_def)
  ultimately show ?thesis
    unfolding MustParseInt_correct [OF r(1,2)] MustParseInt_correct [OF r(3,4)]
    by (simp add: Let_def) (simp add: INT_MIN_def INT_MAX_def UINT_MAX_def LONG_MIN_def LONG_MAX_def)
qed

text \<open>Every value of the 16-bit types survives being printed and parsed back.\<close>

lemma MustParseInt_reads_back:
  "MustParseInt name (decimal_int (sint x)) INT_MIN INT_MAX = Inr x
    \<and> MustParseInt name (decimal_int (uint x)) 0 UINT_MAX = Inr x"
proof -
  have s: "INT_MIN \<le> sint x" "sint x \<le> INT_MAX"
    using sint_ge [of x] sint_lt [of x] by (simp_all add: INT_MIN_def INT_MAX_def)
  have u: "0 \<le> uint x" "uint x \<le> UINT_MAX"
    using uint_bounded [of x] by (simp_all add: UINT_MAX_def)
  have "strtol (decimal_int i) 0 = (i, [], False)" if "- LONG_MAX \<le> i" "i \<le> LONG_MAX" for i
    using that strtol_decimal [of "nat i"] strtol_decimal [of "nat (- i)"] by (simp add: decimal_int_def)
  moreover have "[] \<noteq> decimal_int i" for i by (metis decimal_int_def decimal_not_Nil list.distinct(1))
  ultimately have "MustParseInt name (decimal_int i) lo hi = Inr (word_of_int i)"
    if "lo \<le> i" "i \<le> hi" "- LONG_MAX \<le> lo" "hi \<le> LONG_MAX" for i lo hi
    using that by (simp add: MustParseInt_def)
  from this [OF s] this [OF u] show ?thesis
    by (simp add: INT_MIN_def INT_MAX_def UINT_MAX_def LONG_MAX_def)
qed

end
