(* ===== verification/Args.thy ===== *)
theory Args
  imports Flag "HOL-Library.Multiset"
begin

text \<open>
  Argument lists of \<^verbatim>\<open>lib/flag.c\<close>: building them, the arguments baked into the program,
  and the sorting of arguments when there are any. An argument list in memory is an array of
  pointers with a null pointer at the end; here it is the list of the arguments before the null
  pointer.
\<close>

lemma ebind_Inr_right [simp]: "ebind x Inr = x"
  by (cases x) auto

section \<open>Arguments\<close>

text \<open>A pointer to an argument: an element of \<^verbatim>\<open>argv\<close> by its index, a part of the
  baked-in text by its offset, or a string read from a response file. Pointers to elements of
  \<^verbatim>\<open>argv\<close> are compared with each other, by the index.\<close>

datatype arg = Argv nat string | Baked nat string | FromFile string

fun arg_text :: "arg \<Rightarrow> string" where
  "arg_text (Argv i s) = s"
| "arg_text (Baked off s) = s"
| "arg_text (FromFile s) = s"

definition argv_list :: "string list \<Rightarrow> arg list" where
  "argv_list argv = map (\<lambda>(i, s). Argv i s) (enumerate 0 argv)"

definition ArgListLength :: "'a list option \<Rightarrow> nat" where
  "ArgListLength args = (case args of None \<Rightarrow> 0 | Some xs \<Rightarrow> length xs)"

definition AppendArgList :: "'a list \<Rightarrow> nat \<Rightarrow> 'a list \<Rightarrow> 'a list" where
  "AppendArgList args argc argv = args @ take argc argv"

definition AppendArgs :: "'a list \<Rightarrow> 'a list \<Rightarrow> 'a list" where
  "AppendArgs args extra = args @ extra"

section \<open>Baked-in arguments\<close>

definition BAKED_IN_MAX_LEN :: nat where "BAKED_IN_MAX_LEN = 1024"

definition BAKED_IN_MAGIC1 :: string where "BAKED_IN_MAGIC1 = ''_-_vUtILS_''"
definition BAKED_IN_MAGIC2 :: string where "BAKED_IN_MAGIC2 = ''-_aRgS_-_''"

text \<open>The structure by whose magic string a tool finds the place in the program's file, with all
  characters of its arrays, and its contents when no tool has changed them.\<close>

record baked_in_struct =
  bi_magic :: string
  bi_config :: string

definition pad_array :: "nat \<Rightarrow> string \<Rightarrow> string" where
  "pad_array n s = take n s @ replicate (n - length s) NUL"

definition baked_in_config :: baked_in_struct where
  "baked_in_config = \<lparr>bi_magic = pad_array 20 (BAKED_IN_MAGIC1 @ BAKED_IN_MAGIC2),
     bi_config = pad_array BAKED_IN_MAX_LEN [NUL, NUL]\<rparr>"

lemma bi_magic_terminated: "bi_magic baked_in_config = BAKED_IN_MAGIC1 @ BAKED_IN_MAGIC2 @ [NUL]"
  by (simp add: baked_in_config_def pad_array_def BAKED_IN_MAGIC1_def BAKED_IN_MAGIC2_def)

text \<open>The array \<^verbatim>\<open>config\<close> of the configuration: strings one after the other, and an
  empty one.\<close>

definition HAVE_BAKED_IN_CONFIG :: "string \<Rightarrow> bool" where
  "HAVE_BAKED_IN_CONFIG config \<longleftrightarrow> char0 config \<noteq> NUL"

text \<open>The loop, from the offset of \<^verbatim>\<open>c\<close> in the array. A string without its null character
  is read behind the end of the array.\<close>

function baked_loop :: "string \<Rightarrow> nat \<Rightarrow> arg list \<Rightarrow> stop + arg list" where
  "baked_loop config c args =
    (if c \<ge> length config then Inl (Crash OutOfBounds)
     else if config ! c = NUL then Inr args
     else if NUL \<notin> set (drop c config) then Inl (Crash OutOfBounds)
     else
       (let s = takeWhile (\<lambda>x. x \<noteq> NUL) (drop c config)
        in baked_loop config (c + length s + 1) (AppendArgList args 1 [Baked c s])))"
  by pat_completeness auto

termination
  by (relation "measure (\<lambda>(config, c, args). length config - c)") auto

declare baked_loop.simps [simp del]

definition AppendBakedInArgs :: "string \<Rightarrow> arg list \<Rightarrow> stop + arg list" where
  "AppendBakedInArgs config args = baked_loop config 0 args"

text \<open>With the contents of the source there are no baked-in arguments.\<close>

lemma unbaked:
  "length (bi_config baked_in_config) = BAKED_IN_MAX_LEN \<and> \<not> HAVE_BAKED_IN_CONFIG (bi_config baked_in_config)
   \<and> AppendBakedInArgs (bi_config baked_in_config) args = Inr args"
  by (simp add: baked_in_config_def pad_array_def BAKED_IN_MAX_LEN_def HAVE_BAKED_IN_CONFIG_def
      AppendBakedInArgs_def baked_loop.simps [of _ 0])

text \<open>The contents of the array for a list of arguments.\<close>

definition bake :: "string list \<Rightarrow> string" where
  "bake ss = concat (map (\<lambda>s. s @ [NUL]) ss) @ [NUL]"

fun baked_at :: "nat \<Rightarrow> string list \<Rightarrow> arg list" where
  "baked_at off [] = []"
| "baked_at off (s # ss) = Baked off s # baked_at (off + length s + 1) ss"

lemma baked_at_text [simp]: "map arg_text (baked_at off ss) = ss"
  by (induction ss arbitrary: off) auto

lemma baked_loop_bake:
  assumes "\<forall>s \<in> set ss. s \<noteq> [] \<and> NUL \<notin> set s"
  shows "baked_loop (pre @ bake ss @ padding) (length pre) args = Inr (args @ baked_at (length pre) ss)"
  using assms
proof (induction ss arbitrary: pre args)
  case Nil
  then show ?case by (subst baked_loop.simps) (simp add: bake_def nth_append)
next
  case (Cons s ss)
  let ?tail = "[NUL] @ bake ss @ padding"
  have split: "pre @ bake (s # ss) @ padding = pre @ s @ ?tail" by (simp add: bake_def)
  have s: "s \<noteq> []" "NUL \<notin> set s" using Cons.prems by auto
  then have "hd s \<noteq> NUL" by (metis hd_in_set)
  with s have first: "(pre @ s @ ?tail) ! length pre \<noteq> NUL" by (simp add: nth_append hd_conv_nth)
  have tw: "takeWhile (\<lambda>x. x \<noteq> NUL) (s @ ?tail) = s"
    using s(2) by (auto simp: takeWhile_append takeWhile_eq_all_conv)
  have "baked_loop (pre @ bake (s # ss) @ padding) (length pre) args
      = baked_loop ((pre @ s @ [NUL]) @ bake ss @ padding) (length (pre @ s @ [NUL])) (args @ [Baked (length pre) s])"
    unfolding split using first tw s
    by (subst baked_loop.simps) (simp add: Let_def AppendArgList_def)
  also have "\<dots> = Inr ((args @ [Baked (length pre) s]) @ baked_at (length (pre @ s @ [NUL])) ss)"
    using Cons.prems by (intro Cons.IH) simp
  finally show ?case by simp
qed

section \<open>Sorting the arguments\<close>

text \<open>The loop of \<^verbatim>\<open>IdentifyCallee\<close>, on the arguments from \<^verbatim>\<open>i\<close> on.\<close>

function identify_loop :: "flag list \<Rightarrow> arg list \<Rightarrow> arg option" where
  "identify_loop fl [] = None"
| "identify_loop fl (a # as) =
    (if char0 (arg_text a) \<noteq> CHR ''-'' then Some a
     else case FindFlagForName fl (arg_text a) of
       None \<Rightarrow> None
     | Some f \<Rightarrow> if f_type f \<noteq> FLAG_BOOL then identify_loop fl (drop 1 as) else identify_loop fl as)"
  by pat_completeness auto

termination
  by (relation "measure (\<lambda>(fl, as). length as)") auto

definition IdentifyCallee :: "flag list \<Rightarrow> arg list \<Rightarrow> arg option" where
  "IdentifyCallee fl argv = identify_loop fl (drop 1 argv)"

text \<open>The search for the callee: pointers are compared. The elements before it move up by one.\<close>

function move_loop :: "arg \<Rightarrow> arg list \<Rightarrow> nat \<Rightarrow> arg list" where
  "move_loop callee args i =
    (if i < length args then
       (if args ! i = callee then (overwrite args 2 (take (i - 1) (drop 1 args)))[1 := callee]
        else move_loop callee args (i + 1))
     else args)"
  by pat_completeness auto

termination
  by (relation "measure (\<lambda>(callee, args, i). length args - i)") auto

declare move_loop.simps [simp del]

text \<open>The sorting loop with its two indices: \<^verbatim>\<open>r\<close> reads and \<^verbatim>\<open>w\<close> writes the same
  array.\<close>

function sort_loop :: "flag list \<Rightarrow> arg list \<Rightarrow> nat \<Rightarrow> nat \<Rightarrow> arg list \<Rightarrow> arg list \<times> nat \<times> arg list" where
  "sort_loop fl args r w callee_args =
    (if r < length args then
       (case FindFlagForName fl (arg_text (args ! r)) of
          Some f \<Rightarrow>
            (let args1 = args[w := args ! r]
             in if f_type f \<noteq> FLAG_BOOL \<and> r + 1 < length args
                then sort_loop fl (args1[w + 1 := args1 ! (r + 1)]) (r + 2) (w + 2) callee_args
                else sort_loop fl args1 (r + 1) (w + 1) callee_args)
        | None \<Rightarrow> sort_loop fl args (r + 1) w (AppendArgList callee_args 1 [args ! r]))
     else (args, w, callee_args))"
  by pat_completeness auto

termination
  by (relation "measure (\<lambda>(fl, args, r, w, callee_args). length args - r)") auto

declare sort_loop.simps [simp del]

definition ReorderArgsForBakedIn :: "flag list \<Rightarrow> arg list \<Rightarrow> arg option \<Rightarrow> arg list" where
  "ReorderArgsForBakedIn fl args callee =
    (let args1 = (case callee of None \<Rightarrow> args | Some c \<Rightarrow> move_loop c args 1);
         (args2, w, callee_args) = sort_loop fl args1 1 1 []
     in overwrite args2 w callee_args)"

section \<open>What the sorting does\<close>

text \<open>The arguments of the program itself (known flags, with a parameter each unless they are
  switches), and the others.\<close>

function split_args :: "flag list \<Rightarrow> arg list \<Rightarrow> arg list \<times> arg list" where
  "split_args fl [] = ([], [])"
| "split_args fl (a # as) =
    (case FindFlagForName fl (arg_text a) of
       Some f \<Rightarrow>
         let n = (if f_type f \<noteq> FLAG_BOOL then 1 else 0);
             (own, others) = split_args fl (drop n as)
         in (a # take n as @ own, others)
     | None \<Rightarrow> let (own, others) = split_args fl as in (own, a # others))"
  by pat_completeness auto

termination
  by (relation "measure (\<lambda>(fl, as). length as)") auto

definition callee_first :: "arg option \<Rightarrow> arg list \<Rightarrow> arg list" where
  "callee_first callee as =
    (case callee of None \<Rightarrow> as | Some c \<Rightarrow> if c \<in> set as then c # remove1 c as else as)"

lemma mset_split_args: "split_args fl as = (own, others) \<Longrightarrow> mset (own @ others) = mset as"
proof (induction fl as arbitrary: own others rule: split_args.induct)
  case (2 fl a as)
  show ?case
  proof (cases "FindFlagForName fl (arg_text a)")
    case None
    with 2 show ?thesis by (auto split: prod.splits)
  next
    case (Some f)
    define n where "n = (if f_type f \<noteq> FLAG_BOOL then 1 else 0 :: nat)"
    obtain own' others' where rec: "split_args fl (drop n as) = (own', others')" by fastforce
    have "mset (own' @ others') = mset (drop n as)"
      using "2.IH"(2) [OF Some n_def] rec by simp
    moreover have "mset (take n as) + mset (drop n as) = mset as"
      by (metis append_take_drop_id mset_append)
    ultimately show ?thesis
      using "2.prems" Some rec by (auto simp: n_def [symmetric] Let_def ac_simps) (metis add.assoc add.commute)
  qed
qed simp

lemma sort_loop_split:
  assumes "w \<le> r" and "r \<le> length args" and "split_args fl (drop r args) = (own, others)"
  shows "\<exists>args'. sort_loop fl args r w cs = (args', w + length own, cs @ others)
    \<and> length args' = length args \<and> take (w + length own) args' = take w args @ own"
  using assms
proof (induction fl args r w cs arbitrary: own others rule: sort_loop.induct)
  case (1 fl args r w cs)
  show ?case
  proof (cases "r < length args")
    case False
    with "1.prems" show ?thesis by (subst sort_loop.simps) simp
  next
    case True
    then have drop_r: "drop r args = args ! r # drop (r + 1) args" by (simp add: Cons_nth_drop_Suc)
    show ?thesis
    proof (cases "FindFlagForName fl (arg_text (args ! r))")
      case None
      then obtain others' where o: "others = args ! r # others'" "split_args fl (drop (r + 1) args) = (own, others')"
        using "1.prems"(3) by (auto simp: drop_r split: prod.splits)
      from "1.IH"(1) [OF True None _ _ o(2)] "1.prems" True None o(1) show ?thesis
        by (subst sort_loop.simps) (simp add: AppendArgList_def)
    next
      case (Some f)
      let ?args1 = "args[w := args ! r]"
      show ?thesis
      proof (cases "f_type f \<noteq> FLAG_BOOL \<and> r + 1 < length args")
        case param: True
        let ?args2 = "?args1[w + 1 := ?args1 ! (r + 1)]"
        have drop_r1: "drop (r + 1) args = args ! (r + 1) # drop (r + 2) args"
          using param by (simp add: Cons_nth_drop_Suc)
        then have "take 1 (drop (r + 1) args) = [args ! (r + 1)]" by simp
        with "1.prems"(3) Some param obtain own' where o: "own = args ! r # args ! (r + 1) # own'"
            "split_args fl (drop (r + 2) args) = (own', others)"
          by (auto simp: drop_r split: prod.splits)
        have tk: "take (w + 2) ?args2 = take w args @ [args ! r, args ! (r + 1)]"
          using "1.prems"(1) param by (simp add: take_Suc_conv_app_nth)
        have "drop (r + 2) ?args2 = drop (r + 2) args" using "1.prems"(1) by simp
        then obtain args' where "sort_loop fl ?args2 (r + 2) (w + 2) cs = (args', w + 2 + length own', cs @ others)"
            "length args' = length args" "take (w + 2 + length own') args' = take (w + 2) ?args2 @ own'"
          using "1.IH"(2) [OF True Some refl param, of own' others] "1.prems"(1) param o(2) by auto
        moreover have "sort_loop fl args r w cs = sort_loop fl ?args2 (r + 2) (w + 2) cs"
          using True Some param by (subst sort_loop.simps) (simp add: Let_def)
        ultimately show ?thesis using tk by (simp add: o(1) add_ac)
      next
        case False
        obtain own' where o: "own = args ! r # own'" "split_args fl (drop (r + 1) args) = (own', others)"
          using "1.prems"(3) Some False by (auto simp: drop_r split: prod.splits if_splits)
        have tk: "take (w + 1) ?args1 = take w args @ [args ! r]"
          using "1.prems"(1) True by (simp add: take_Suc_conv_app_nth)
        have "drop (r + 1) ?args1 = drop (r + 1) args" using "1.prems"(1) by simp
        then obtain args' where "sort_loop fl ?args1 (r + 1) (w + 1) cs = (args', w + 1 + length own', cs @ others)"
            "length args' = length args" "take (w + 1 + length own') args' = take (w + 1) ?args1 @ own'"
          using "1.IH"(3) [OF True Some refl False, of own' others] "1.prems"(1) True o(2) by auto
        moreover have "sort_loop fl args r w cs = sort_loop fl ?args1 (r + 1) (w + 1) cs"
          using True Some False by (subst sort_loop.simps) (auto simp: Let_def)
        ultimately show ?thesis using tk by (simp add: o(1) add_ac)
      qed
    qed
  qed
qed

lemma move_loop_found:
  assumes "c \<notin> set xs" and "1 \<le> i" and "i \<le> length xs + 1"
  shows "move_loop c (p # xs @ c # ys) i = p # c # xs @ ys"
  using assms(2,3)
proof (induction "length xs + 1 - i" arbitrary: i)
  case 0
  then have "i = length xs + 1" by simp
  then show ?case
    by (subst move_loop.simps) (cases xs, simp_all add: overwrite_def nth_append)
next
  case (Suc k)
  then obtain j where j: "i = Suc j" "j < length xs" by (cases i) auto
  then have "(p # xs @ c # ys) ! i \<noteq> c" using assms(1) by (auto simp: nth_append in_set_conv_nth)
  with Suc j show ?case by (subst move_loop.simps) simp
qed

lemma move_loop_absent: "c \<notin> set as \<Longrightarrow> 1 \<le> i \<Longrightarrow> move_loop c (p # as) i = p # as"
proof (induction "length as + 1 - i" arbitrary: i)
  case 0
  then show ?case by (subst move_loop.simps) simp
next
  case (Suc k)
  then obtain j where j: "i = Suc j" "j < length as" by (cases i) auto
  then have "(p # as) ! i \<noteq> c" using Suc.prems(1) by (auto simp: in_set_conv_nth)
  with Suc show ?case by (subst move_loop.simps) simp
qed

lemma move_loop_callee: "(case callee of None \<Rightarrow> p # as | Some c \<Rightarrow> move_loop c (p # as) 1) = p # callee_first callee as"
proof (cases callee)
  case (Some c)
  show ?thesis
  proof (cases "c \<in> set as")
    case True
    then obtain xs ys where "as = xs @ c # ys" "c \<notin> set xs" by (meson split_list_first)
    with Some show ?thesis using move_loop_found [of c xs 1 p ys]
      by (simp add: callee_first_def remove1_append)
  qed (use Some in \<open>simp add: callee_first_def move_loop_absent\<close>)
qed (simp add: callee_first_def)

text \<open>With baked-in arguments the list is sorted: the program's own flags with their
  parameters come first, then everything else, both in the order they had, after the callee the
  user typed has been moved to the front. It is done in place with two indices in one array; no
  argument is lost, doubled or written over before it is read.\<close>

lemma ReorderArgsForBakedIn_split:
  "ReorderArgsForBakedIn fl (p # as) callee =
     p # (case split_args fl (callee_first callee as) of (own, others) \<Rightarrow> own @ others)
   \<and> mset (ReorderArgsForBakedIn fl (p # as) callee) = mset (p # as)"
proof -
  let ?as = "callee_first callee as"
  obtain own others where s: "split_args fl ?as = (own, others)" by fastforce
  from mset_split_args [OF s] have len: "length own + length others = length ?as"
    by (metis mset_append size_mset length_append)
  obtain args' where sl: "sort_loop fl (p # ?as) 1 1 [] = (args', 1 + length own, others)"
      "length args' = length (p # ?as)" "take (1 + length own) args' = p # own"
    using sort_loop_split [of 1 1 "p # ?as" fl own others "[]"] s by auto
  have "ReorderArgsForBakedIn fl (p # as) callee = overwrite args' (1 + length own) others"
    by (simp only: ReorderArgsForBakedIn_def move_loop_callee sl(1) Let_def prod.case)
  also have "\<dots> = p # own @ others" using sl(2,3) len by (simp add: overwrite_def)
  finally have eq: "ReorderArgsForBakedIn fl (p # as) callee = p # own @ others" .
  have "mset ?as = mset as" by (auto simp: callee_first_def split: option.split)
  with eq s mset_split_args [OF s] show ?thesis by simp
qed

end
