(* ===== verification/Response.thy ===== *)
theory Response
  imports Args
begin

text \<open>
  Response files of \<^verbatim>\<open>lib/flag.c\<close>: reading one, replacing arguments by the contents of
  the files they name, and moving the end of a command line that is too long to a file.
\<close>

section \<open>Reading a response file\<close>

text \<open>A stream open for reading: the characters that are left, and whether a read has met the
  end. \<^verbatim>\<open>fgetc\<close> gives nothing (\<^verbatim>\<open>EOF\<close>) at the end.\<close>

record stream =
  rest :: string
  eof :: bool

definition fgetc :: "stream \<Rightarrow> char option \<times> stream" where
  "fgetc fs = (case rest fs of
     [] \<Rightarrow> (None, fs\<lparr>eof := True\<rparr>)
   | c # cs \<Rightarrow> (Some c, fs\<lparr>rest := cs\<rparr>))"

definition is_space :: "char option \<Rightarrow> bool" where
  "is_space c = (case c of None \<Rightarrow> False | Some x \<Rightarrow> isspace x)"

lemma fgetc_shorter: "fgetc fs = (c, fs') \<Longrightarrow> \<not> eof fs' \<or> \<not> is_space c \<Longrightarrow> c = None \<or> length (rest fs') < length (rest fs)"
  by (auto simp: fgetc_def is_space_def split: list.splits)

text \<open>The first inner loop: it returns the first character that is not white space.\<close>

function skip_spaces :: "char option \<Rightarrow> stream \<Rightarrow> char option \<times> stream" where
  "skip_spaces c fs =
    (if eof fs then (c, fs)
     else case fgetc fs of (c', fs') \<Rightarrow> if is_space c' then skip_spaces c' fs' else (c', fs'))"
  by pat_completeness auto

termination
  by (relation "measure (\<lambda>(c, fs). length (rest fs))")
    (auto simp: fgetc_def is_space_def split: list.splits)

declare skip_spaces.simps [simp del]

text \<open>The second: it fills the buffer, which grows by 64 characters when it is full.\<close>

function read_arg :: "char option \<Rightarrow> string \<Rightarrow> nat \<Rightarrow> stream \<Rightarrow> string \<times> nat \<times> stream" where
  "read_arg c buf buf_len fs =
    (if \<not> eof fs \<and> \<not> is_space c then
       (let buf_len' = (if length buf + 1 > buf_len then buf_len + 64 else buf_len);
            buf' = buf @ [the c]
        in case fgetc fs of (c', fs') \<Rightarrow> read_arg c' buf' buf_len' fs')
     else (buf, buf_len, fs))"
  by pat_completeness auto

termination
  by (relation "measure (\<lambda>(c, buf, n, fs). if eof fs then 0 else Suc (length (rest fs)))")
    (auto simp: fgetc_def split: list.splits)

declare read_arg.simps [simp del]

text \<open>The outer loop. Writing the null character at the end of the buffer is the access that can
  go out of bounds; \<^verbatim>\<open>strdup\<close> copies up to the first null character.\<close>

lemma skip_spaces_shorter:
  "skip_spaces c fs = (c', fs') \<Longrightarrow> \<not> eof fs' \<Longrightarrow> eof fs \<or> length (rest fs') < length (rest fs)"
proof (induction c fs rule: skip_spaces.induct)
  case (1 c fs)
  then show ?case
    by (subst (asm) (2) skip_spaces.simps)
      (fastforce simp: fgetc_def is_space_def split: if_splits list.splits)
qed

lemma read_arg_shorter:
  "read_arg c buf n fs = (buf', n', fs') \<Longrightarrow> length (rest fs') \<le> length (rest fs)"
proof (induction c buf n fs rule: read_arg.induct)
  case (1 c buf n fs)
  then show ?case
    by (subst (asm) (2) read_arg.simps)
      (fastforce simp: fgetc_def Let_def split: if_splits list.splits)
qed

function read_args :: "nat \<Rightarrow> stream \<Rightarrow> stop + string list" where
  "read_args buf_len fs =
    (case skip_spaces None fs of (c, fs1) \<Rightarrow>
       if eof fs1 then Inr []
       else case read_arg c [] buf_len fs1 of (buf, buf_len', fs2) \<Rightarrow>
         if \<not> length buf < buf_len' then Inl (Crash OutOfBounds)
         else ebind (read_args buf_len' fs2) (\<lambda>args. Inr (takeWhile (\<lambda>x. x \<noteq> NUL) buf # args)))"
  by pat_completeness auto

termination
proof (relation "measure (\<lambda>(n, fs). if eof fs then 0 else Suc (length (rest fs)))")
  fix n fs c fs1 buf t n' fs2
  assume run: "(c, fs1) = skip_spaces None fs" "\<not> eof fs1" "(buf, t) = read_arg c [] n fs1" "(n', fs2) = t"
  then have "eof fs \<or> length (rest fs1) < length (rest fs)" "length (rest fs2) \<le> length (rest fs1)"
    using skip_spaces_shorter [of None fs c fs1] read_arg_shorter [of c "[]" n fs1 buf n' fs2] by auto
  moreover have "\<not> eof fs" using run(1,2) by (auto simp: skip_spaces.simps split: if_splits)
  ultimately show "((n', fs2), n, fs) \<in> measure (\<lambda>(n, fs). if eof fs then 0 else Suc (length (rest fs)))"
    by auto
qed auto

declare read_args.simps [simp del]

text \<open>The files: the contents by the name, as a text stream delivers them.\<close>

type_synonym files = "string \<rightharpoonup> string"

definition ReadResponseFile :: "files \<Rightarrow> string \<Rightarrow> stop + string list" where
  "ReadResponseFile fs filename =
    (case fs filename of
       None \<Rightarrow> Inl (Error (ResponseFileNotFound filename))
     | Some text \<Rightarrow> read_args 0 \<lparr>rest = text, eof = False\<rparr>)"

section \<open>What a response file means\<close>

function words :: "string \<Rightarrow> string list" where
  "words s =
    (let t = dropWhile isspace s
     in if t = [] then []
        else takeWhile (\<lambda>c. \<not> isspace c) t # words (dropWhile (\<lambda>c. \<not> isspace c) t))"
  by pat_completeness auto

termination
proof (relation "measure length")
  fix s t assume t: "t = dropWhile isspace s" "t \<noteq> []"
  then have "\<not> isspace (hd t)" by (simp add: hd_dropWhile)
  with t(2) have "length (dropWhile (\<lambda>c. \<not> isspace c) t) < length t"
    by (cases t) (auto simp: less_Suc_eq_le length_dropWhile_le)
  moreover have "length t \<le> length s" by (simp add: t(1) length_dropWhile_le)
  ultimately show "(dropWhile (\<lambda>c. \<not> isspace c) t, s) \<in> measure length" by simp
qed auto

declare words.simps [simp del]

text \<open>The buffer has a multiple of 64 characters.\<close>

definition round_up :: "nat \<Rightarrow> nat" where
  "round_up n = 64 * ((n + 63) div 64)"

lemma round_up_mono: "m \<le> n \<Longrightarrow> round_up m \<le> round_up n"
  by (simp add: round_up_def div_le_mono)

lemma round_up_le: "64 dvd k \<Longrightarrow> round_up n \<le> k \<longleftrightarrow> n \<le> k"
proof (elim dvdE)
  fix q assume k: "k = 64 * q"
  have "(n + 63) div 64 \<le> q \<longleftrightarrow> (n + 63) div 64 < Suc q" by auto
  also have "\<dots> \<longleftrightarrow> n + 63 < Suc q * 64" by (rule div_less_iff_less_mult) simp
  finally show ?thesis by (auto simp: round_up_def k)
qed

lemma round_up_dvd: "64 dvd round_up n"
  by (simp add: round_up_def)

lemma round_up_ge: "n \<le> round_up n"
  using round_up_le [OF round_up_dvd, of n n] by simp

lemma buffer_grows:
  assumes "64 dvd cap" and "n \<le> cap"
  shows "(if n + 1 > cap then cap + 64 else cap) = max cap (round_up (n + 1))"
proof (cases "n = cap")
  case True
  from assms(1) obtain k where k: "cap = 64 * k" by blast
  have "round_up (n + 1) = cap + 64" by (simp add: round_up_def True k)
  with True show ?thesis by simp
next
  case False
  then have "round_up (n + 1) \<le> cap" using assms by (simp add: round_up_le)
  with False assms(2) show ?thesis by simp
qed

lemma skip_spaces_run:
  "skip_spaces c \<lparr>rest = s, eof = False\<rparr> = (case dropWhile isspace s of
     [] \<Rightarrow> (None, \<lparr>rest = [], eof = True\<rparr>) | d # t \<Rightarrow> (Some d, \<lparr>rest = t, eof = False\<rparr>))"
proof (induction s arbitrary: c)
  case (Cons d s)
  then show ?case by (subst skip_spaces.simps) (simp add: fgetc_def is_space_def)
qed (subst skip_spaces.simps, simp add: fgetc_def is_space_def)

lemma read_arg_run:
  assumes "64 dvd cap" and "length buf \<le> cap" and "\<not> isspace c"
  shows "read_arg (Some c) buf cap \<lparr>rest = s, eof = False\<rparr> =
    (buf @ c # takeWhile (\<lambda>c. \<not> isspace c) s,
     max cap (round_up (length buf + 1 + length (takeWhile (\<lambda>c. \<not> isspace c) s))),
     case dropWhile (\<lambda>c. \<not> isspace c) s of
       [] \<Rightarrow> \<lparr>rest = [], eof = True\<rparr> | d # t \<Rightarrow> \<lparr>rest = t, eof = False\<rparr>)"
  using assms
proof (induction s arbitrary: c buf cap)
  case Nil
  then show ?case
    by (subst read_arg.simps) (simp add: is_space_def fgetc_def Let_def buffer_grows [unfolded Suc_eq_plus1 [symmetric]]
      read_arg.simps [of None])
next
  case (Cons d s)
  define cap' where "cap' = max cap (round_up (length buf + 1))"
  have step: "read_arg (Some c) buf cap \<lparr>rest = d # s, eof = False\<rparr>
      = read_arg (Some d) (buf @ [c]) cap' \<lparr>rest = s, eof = False\<rparr>"
    using Cons.prems by (subst read_arg.simps)
      (simp only: buffer_grows cap'_def is_space_def fgetc_def Let_def, simp)
  have cap': "64 dvd cap'" "length (buf @ [c]) \<le> cap'"
    using Cons.prems(1) round_up_dvd [of "length buf + 1"] round_up_ge [of "length buf + 1"]
    by (auto simp: cap'_def max_def)
  show ?case
  proof (cases "isspace d")
    case True
    then show ?thesis unfolding step
      by (subst read_arg.simps) (simp add: is_space_def cap'_def)
  next
    case False
    have "max cap' (round_up (length (buf @ [c]) + 1 + k)) = max cap (round_up (length buf + 1 + Suc k))" for k
      using round_up_mono [of "length buf + 1" "length buf + 1 + Suc k"] by (simp add: cap'_def max_def)
    with Cons.IH [OF cap' False] False show ?thesis unfolding step by simp
  qed
qed

fun overflows :: "nat \<Rightarrow> string list \<Rightarrow> bool" where
  "overflows cap [] = False"
| "overflows cap (w # ws) =
    (length w = max cap (round_up (length w)) \<or> overflows (max cap (round_up (length w))) ws)"

lemma overflows_iff:
  assumes "64 dvd cap"
  shows "overflows cap ws \<longleftrightarrow>
    (\<exists>i < length ws. 64 dvd length (ws ! i) \<and> cap \<le> length (ws ! i)
       \<and> (\<forall>j < i. length (ws ! j) \<le> length (ws ! i)))"
  using assms
proof (induction ws arbitrary: cap)
  case (Cons w ws)
  let ?cap = "max cap (round_up (length w))"
  have dvd: "64 dvd ?cap" using Cons.prems round_up_dvd by (auto simp: max_def)
  have here: "length w = ?cap \<longleftrightarrow> 64 dvd length w \<and> cap \<le> length w"
    using round_up_ge [of "length w"] round_up_le [of "length w" "length w"] dvd
    by (auto simp: max_def split: if_splits)
  have later: "64 dvd n \<Longrightarrow> ?cap \<le> n \<longleftrightarrow> cap \<le> n \<and> length w \<le> n" for n
    using round_up_le [of n "length w"] by simp
  have "overflows cap (w # ws) \<longleftrightarrow> (64 dvd length w \<and> cap \<le> length w) \<or>
    (\<exists>i < length ws. 64 dvd length (ws ! i) \<and> cap \<le> length (ws ! i) \<and> length w \<le> length (ws ! i)
       \<and> (\<forall>j < i. length (ws ! j) \<le> length (ws ! i)))"
    unfolding overflows.simps here Cons.IH [OF dvd] using later by blast
  also have "\<dots> \<longleftrightarrow> (\<exists>i < length (w # ws). 64 dvd length ((w # ws) ! i) \<and> cap \<le> length ((w # ws) ! i)
       \<and> (\<forall>j < i. length ((w # ws) ! j) \<le> length ((w # ws) ! i)))"
    by (simp add: Ex_less_Suc2 All_less_Suc2 conj_ac)
  finally show ?case .
qed simp

lemma read_args_skip:
  "skip_spaces None fs = skip_spaces None fs' \<Longrightarrow> read_args n fs = read_args n fs'"
  by (subst (1 2) read_args.simps) simp

text \<open>The character after an argument has been read already; it is white space.\<close>

lemma read_args_delimiter:
  assumes "s \<noteq> [] \<Longrightarrow> isspace (hd s)"
  shows "read_args n (case s of [] \<Rightarrow> \<lparr>rest = [], eof = True\<rparr> | d # t \<Rightarrow> \<lparr>rest = t, eof = False\<rparr>)
    = read_args n \<lparr>rest = s, eof = False\<rparr>"
proof (rule read_args_skip, cases s)
  case Nil
  then show "skip_spaces None (case s of [] \<Rightarrow> \<lparr>rest = [], eof = True\<rparr> | d # t \<Rightarrow> \<lparr>rest = t, eof = False\<rparr>)
      = skip_spaces None \<lparr>rest = s, eof = False\<rparr>"
    by (simp add: skip_spaces_run skip_spaces.simps [of None "\<lparr>rest = [], eof = True\<rparr>"])
qed (use assms in \<open>simp add: skip_spaces_run\<close>)

lemma read_args_words:
  assumes "64 dvd cap"
  shows "read_args cap \<lparr>rest = s, eof = False\<rparr> =
    (if overflows cap (words s) then Inl (Crash OutOfBounds)
     else Inr (map (takeWhile (\<lambda>x. x \<noteq> NUL)) (words s)))"
  using assms
proof (induction s arbitrary: cap rule: words.induct)
  case (1 s)
  show ?case
  proof (cases "dropWhile isspace s")
    case Nil
    then have "words s = []" by (subst words.simps) simp
    with Nil show ?thesis by (subst read_args.simps) (simp only: skip_spaces_run, simp)
  next
    case (Cons c t)
    then have c: "\<not> isspace c" using hd_dropWhile [of isspace s] by simp
    let ?w = "c # takeWhile (\<lambda>c. \<not> isspace c) t" and ?after = "dropWhile (\<lambda>c. \<not> isspace c) t"
    let ?cap = "max cap (round_up (length ?w))"
    have words: "words s = ?w # words ?after"
      using c by (subst words.simps) (simp add: Cons)
    have cap: "64 dvd ?cap" using 1(2) round_up_dvd by (auto simp: max_def)
    have le: "length ?w \<le> ?cap" using round_up_ge [of "length ?w"] by (simp add: max_def)
    define fs where "fs = (case ?after of
       [] \<Rightarrow> \<lparr>rest = [], eof = True\<rparr> | d # t \<Rightarrow> \<lparr>rest = t, eof = False\<rparr>)"
    have run: "read_args cap \<lparr>rest = s, eof = False\<rparr> =
        (if \<not> length ?w < ?cap then Inl (Crash OutOfBounds)
         else ebind (read_args ?cap fs) (\<lambda>args. Inr (takeWhile (\<lambda>x. x \<noteq> NUL) ?w # args)))"
      using read_arg_run [of cap "[]" c t] 1(2) c
      by (subst read_args.simps) (simp add: skip_spaces_run Cons fs_def del: takeWhile.simps)
    have IH: "read_args ?cap \<lparr>rest = ?after, eof = False\<rparr> =
        (if overflows ?cap (words ?after) then Inl (Crash OutOfBounds)
         else Inr (map (takeWhile (\<lambda>x. x \<noteq> NUL)) (words ?after)))"
      using 1(1) [OF refl _ cap] Cons c by simp
    have "read_args ?cap fs = read_args ?cap \<lparr>rest = ?after, eof = False\<rparr>"
      unfolding fs_def using hd_dropWhile [of "\<lambda>c. \<not> isspace c" t] by (intro read_args_delimiter) blast
    then show ?thesis unfolding run words IH using le by auto
  qed
qed

section \<open>Replacing arguments\<close>

function expand_loop :: "files \<Rightarrow> arg list \<Rightarrow> nat \<Rightarrow> stop + arg list" where
  "expand_loop fs args i =
    (if i < length args then
       if char0 (arg_text (args ! i)) \<noteq> CHR ''@'' then expand_loop fs args (i + 1)
       else ebind (ReadResponseFile fs (drop 1 (arg_text (args ! i)))) (\<lambda>response_args.
         (let n = length response_args;
              new_args = AppendArgList [] i args;
              new_args = AppendArgList new_args n (map FromFile response_args);
              new_args = AppendArgList new_args (length args - i - 1) (drop (i + 1) args)
          in expand_loop fs new_args (i + n)))
     else Inr args)"
  by pat_completeness auto

termination
  by (relation "measure (\<lambda>(fs, args, i). length args - i)") (auto simp: AppendArgList_def)

declare expand_loop.simps [simp del]

definition ExpandResponseArgs :: "files \<Rightarrow> arg list \<Rightarrow> stop + arg list" where
  "ExpandResponseArgs fs args = expand_loop fs args 1"

text \<open>Each argument by itself: one that names a file becomes the contents of the file.\<close>

fun expand_args :: "files \<Rightarrow> arg list \<Rightarrow> stop + arg list" where
  "expand_args fs [] = Inr []"
| "expand_args fs (a # as) =
    ebind (if char0 (arg_text a) \<noteq> CHR ''@'' then Inr [a]
           else ebind (ReadResponseFile fs (drop 1 (arg_text a))) (\<lambda>r. Inr (map FromFile r)))
      (\<lambda>xs. ebind (expand_args fs as) (\<lambda>ys. Inr (xs @ ys)))"

lemma expand_loop_args:
  "i \<le> length args \<Longrightarrow> expand_loop fs args i = ebind (expand_args fs (drop i args)) (\<lambda>r. Inr (take i args @ r))"
proof (induction fs args i rule: expand_loop.induct)
  case (1 fs args i)
  show ?case
  proof (cases "i < length args")
    case False
    with "1.prems" show ?thesis by (subst expand_loop.simps) simp
  next
    case True
    then have drop_i: "drop i args = args ! i # drop (i + 1) args"
      and take_i: "take (i + 1) args = take i args @ [args ! i]"
      by (simp_all add: Cons_nth_drop_Suc take_Suc_conv_app_nth)
    show ?thesis
    proof (cases "char0 (arg_text (args ! i)) \<noteq> CHR ''@''")
      case plain: True
      with True "1.IH"(1) show ?thesis
        by (subst expand_loop.simps) (simp add: drop_i take_i [unfolded Suc_eq_plus1 [symmetric]] ebind_assoc)
    next
      case False
      show ?thesis
      proof (cases "ReadResponseFile fs (drop 1 (arg_text (args ! i)))")
        case (Inl e)
        with True False show ?thesis by (subst expand_loop.simps) (simp add: drop_i)
      next
        case (Inr r)
        let ?new = "take i args @ map FromFile r @ drop (i + 1) args"
        have "expand_loop fs args i = expand_loop fs ?new (i + length r)"
          using True False Inr by (subst expand_loop.simps) (simp add: AppendArgList_def Let_def)
        also have "\<dots> = ebind (expand_args fs (drop (i + length r) ?new)) (\<lambda>q. Inr (take (i + length r) ?new @ q))"
          using "1.IH"(2) [OF True False Inr refl] True by (simp add: AppendArgList_def Let_def)
        finally show ?thesis using True False Inr by (simp add: drop_i ebind_assoc)
      qed
    qed
  qed
qed

lemma ExpandResponseArgs_args:
  "ExpandResponseArgs fs (p # as) = ebind (expand_args fs as) (\<lambda>r. Inr (p # r))"
  by (simp add: ExpandResponseArgs_def expand_loop_args)

section \<open>Writing a response file\<close>

definition MAX_COMMAND_LINE_LEN :: int where "MAX_COMMAND_LINE_LEN = 126"

text \<open>The files there are, which names can be opened for writing, the static variable
  \<^verbatim>\<open>response_file_arg\<close> and the number of functions given to \<^verbatim>\<open>atexit\<close>.\<close>

record shell =
  sh_files :: files
  can_write :: "string \<Rightarrow> bool"
  response_file_arg :: "string option"
  exit_handlers :: nat

definition DeleteResponseFile :: "shell \<Rightarrow> shell" where
  "DeleteResponseFile sh =
    sh\<lparr>sh_files := (sh_files sh)(drop 1 (the (response_file_arg sh)) := None), response_file_arg := None\<rparr>"

text \<open>The result of \<^verbatim>\<open>fopen\<close> is not checked: when the file cannot be created,
  \<^verbatim>\<open>fprintf\<close> or \<^verbatim>\<open>fclose\<close> gets a null pointer.\<close>

definition WriteResponseFile :: "string list \<Rightarrow> shell \<Rightarrow> stop + shell" where
  "WriteResponseFile argv sh =
    (let name = drop 1 (the (response_file_arg sh))
     in if \<not> can_write sh name then Inl NullPointer
        else Inr (sh\<lparr>sh_files := (sh_files sh)(name \<mapsto> concat (map (\<lambda>a. a @ [CHR 0x0A]) argv))\<rparr>))"

text \<open>The length a list of arguments has on a command line.\<close>

definition line_length :: "string list \<Rightarrow> int" where
  "line_length args = sum_list (map (\<lambda>a. 1 + int (length a)) args)"

fun cut_loop :: "string list \<Rightarrow> int \<Rightarrow> nat \<Rightarrow> nat" where
  "cut_loop args len i =
    (if i > 1 then
       (let len' = len - (int (length (args ! i)) + 1)
        in if char0 (args ! i) = CHR ''-'' \<and> len' < MAX_COMMAND_LINE_LEN then i
           else cut_loop args len' (i - 1))
     else i)"

declare cut_loop.simps [simp del]

text \<open>The name that \<^verbatim>\<open>tmpnam\<close> gives is a parameter. The result is the argument list and
  the state.\<close>

definition SquashToResponseFile :: "string \<Rightarrow> string list \<Rightarrow> shell \<Rightarrow> stop + string list \<times> shell" where
  "SquashToResponseFile tmpnam args sh =
    (let len = line_length args; argc = length args
     in if len \<le> MAX_COMMAND_LINE_LEN then Inr (args, sh)
        else
          (let sh1 = (if response_file_arg sh = None
                 then sh\<lparr>response_file_arg := Some (CHR ''@'' # tmpnam), exit_handlers := exit_handlers sh + 1\<rparr>
                 else sh);
               file_arg = the (response_file_arg sh1);
               i = cut_loop args (len + int (length file_arg) + 1) (argc - 1)
           in ebind (WriteResponseFile (drop i args) sh1) (\<lambda>sh2.
                Inr (take (i + 1) (args[i := file_arg]), sh2))))"

lemma cut_loop_result:
  assumes "i < length args" and "len = line_length (take (i + 1) args) + k" and "1 \<le> i"
  shows "1 \<le> cut_loop args len i \<and> cut_loop args len i \<le> i
    \<and> (cut_loop args len i = 1 \<or> line_length (take (cut_loop args len i) args) + k < MAX_COMMAND_LINE_LEN)"
  using assms
proof (induction args len i rule: cut_loop.induct)
  case (1 args len i)
  have len': "len - (int (length (args ! i)) + 1) = line_length (take i args) + k"
    using "1.prems"(1,2) by (simp add: take_Suc_conv_app_nth line_length_def)
  show ?case
  proof (cases "i > 1")
    case False
    with "1.prems"(3) show ?thesis by (subst (1 2 3 4) cut_loop.simps) simp
  next
    case True
    show ?thesis
    proof (cases "char0 (args ! i) = CHR ''-'' \<and> len - (int (length (args ! i)) + 1) < MAX_COMMAND_LINE_LEN")
      case stop: True
      then have "cut_loop args len i = i" using True by (subst cut_loop.simps) simp
      with stop True show ?thesis by (simp add: len')
    next
      case False
      then have "cut_loop args len i = cut_loop args (len - (int (length (args ! i)) + 1)) (i - 1)"
        using True by (subst cut_loop.simps) (auto simp: Let_def)
      moreover have "len - (int (length (args ! i)) + 1) = line_length (take (i - 1 + 1) args) + k"
        using True by (simp add: len')
      ultimately show ?thesis using "1.IH" [OF True refl False] "1.prems" True by fastforce
    qed
  qed
qed

section \<open>Properties\<close>

text \<open>C36: a response file is its words, each up to its first null character; a file that is not
  there is an error. The buffer is one character short for the null character when the length of a
  word fills it exactly: the program then writes behind the buffer. That happens exactly when the
  length of some word is a multiple of 64 and no word before it is longer.\<close>

theorem ReadResponseFile_correct:
  "ReadResponseFile fs filename =
    (case fs filename of
       None \<Rightarrow> Inl (Error (ResponseFileNotFound filename))
     | Some text \<Rightarrow>
         if \<exists>i < length (words text). 64 dvd length (words text ! i)
              \<and> (\<forall>j < i. length (words text ! j) \<le> length (words text ! i))
         then Inl (Crash OutOfBounds)
         else Inr (map (takeWhile (\<lambda>x. x \<noteq> NUL)) (words text)))"
  by (simp add: ReadResponseFile_def read_args_words overflows_iff split: option.split)

lemma words_x: "words (replicate n CHR ''x'') = (if n = 0 then [] else [replicate n CHR ''x''])"
proof (cases n)
  case (Suc m)
  have "\<not> isspace CHR ''x''" by (simp add: isspace_def)
  then show ?thesis using Suc
    by (subst words.simps) (simp add: dropWhile_replicate takeWhile_replicate words.simps [of "[]"])
qed (simp add: words.simps [of "[]"])

theorem ReadResponseFile_correct_witness:
  "ReadResponseFile [''f'' \<mapsto> replicate 63 CHR ''x''] ''f'' = Inr [replicate 63 CHR ''x'']
    \<and> ReadResponseFile [''f'' \<mapsto> replicate 64 CHR ''x''] ''f'' = Inl (Crash OutOfBounds)
    \<and> ReadResponseFile [''f'' \<mapsto> ''x''] ''g'' = Inl (Error (ResponseFileNotFound ''g''))"
  by (simp add: ReadResponseFile_correct words_x NUL_def)

text \<open>C37: every argument but the first that begins with \<^verbatim>\<open>@\<close> is replaced by the words of the
  file it names, in place; what a response file contains is not expanded again. The first file
  that is missing stops the program.\<close>

theorem ExpandResponseArgs_correct:
  "ExpandResponseArgs fs (p # as) = ebind (expand_args fs as) (\<lambda>r. Inr (p # r))"
  by (rule ExpandResponseArgs_args)

text \<open>An argument that a response file can carry.\<close>

definition plain_arg :: "string \<Rightarrow> bool" where
  "plain_arg a \<longleftrightarrow> a \<noteq> [] \<and> char0 a \<noteq> CHR ''@'' \<and> (\<forall>c \<in> set a. \<not> isspace c \<and> c \<noteq> NUL) \<and> \<not> 64 dvd length a"

lemma words_lines:
  assumes "\<forall>a \<in> set as. plain_arg a"
  shows "words (concat (map (\<lambda>a. a @ [CHR 0x0A]) as)) = as"
proof -
  have nl: "words (CHR 0x0A # s) = words s" for s
    by (subst (1 2) words.simps) (simp add: isspace_def)
  show ?thesis using assms
  proof (induction as)
    case Nil
    then show ?case by (subst words.simps) simp
  next
    case (Cons a as)
    let ?r = "CHR 0x0A # concat (map (\<lambda>a. a @ [CHR 0x0A]) as)"
    obtain c b where a: "a = c # b" using Cons.prems by (cases a) (auto simp: plain_arg_def)
    have cs: "\<forall>x \<in> set a. \<not> isspace x" using Cons.prems by (auto simp: plain_arg_def)
    then have "dropWhile isspace (a @ ?r) = a @ ?r" by (simp add: a)
    moreover have "takeWhile (\<lambda>c. \<not> isspace c) (a @ ?r) = a" "dropWhile (\<lambda>c. \<not> isspace c) (a @ ?r) = ?r"
      using cs by (simp_all add: takeWhile_append dropWhile_append isspace_def)
    ultimately have "words (a @ ?r) = a # words ?r" by (subst words.simps) (simp add: a)
    with Cons nl show ?case by simp
  qed
qed

lemma expand_plain: "\<forall>a \<in> set as. char0 (arg_text a) \<noteq> CHR ''@'' \<Longrightarrow> expand_args fs as = Inr as"
  by (induction as) auto

lemma expand_args_append:
  "expand_args fs (xs @ ys) = ebind (expand_args fs xs) (\<lambda>a. ebind (expand_args fs ys) (\<lambda>b. Inr (a @ b)))"
  by (induction xs) (auto simp: ebind_assoc)

lemma argv_list_text [simp]: "map arg_text (argv_list args) = args"
proof -
  have "map arg_text (map (\<lambda>(i, s). Argv i s) (enumerate n args)) = args" for n
    by (induction args arbitrary: n) auto
  then show ?thesis by (simp add: argv_list_def)
qed

lemma argv_list_snoc: "argv_list (args @ [a]) = argv_list args @ [Argv (length args) a]"
  by (simp add: argv_list_def enumerate_append_eq)

lemma take_update_last: "i < length xs \<Longrightarrow> take (i + 1) (xs[i := x]) = take i xs @ [x]"
  by (simp add: take_Suc_conv_app_nth)

lemma read_written:
  assumes "\<forall>a \<in> set as. plain_arg a" and "fs name = Some (concat (map (\<lambda>a. a @ [CHR 0x0A]) as))"
  shows "ReadResponseFile fs name = Inr as"
proof -
  have "\<not> overflows 0 as"
    using assms(1) by (auto simp: overflows_iff plain_arg_def)
  moreover have "map (takeWhile (\<lambda>x. x \<noteq> NUL)) as = as"
    using assms(1) by (auto simp: plain_arg_def takeWhile_eq_all_conv intro: map_idI)
  ultimately show ?thesis
    using assms(2) by (simp add: ReadResponseFile_def read_args_words words_lines [OF assms(1)])
qed

text \<open>A command line that is short enough stays as it is; otherwise its end goes to the response
  file, and what is kept and the name of the file make a line that fits, or one of two arguments.\<close>

lemma SquashToResponseFile_short:
  "line_length (p # args) \<le> MAX_COMMAND_LINE_LEN \<Longrightarrow> SquashToResponseFile tmpnam (p # args) sh = Inr (p # args, sh)"
  by (simp add: SquashToResponseFile_def Let_def)

text \<open>The name of the response file: that of an earlier call, if there was one.\<close>

definition response_name :: "string \<Rightarrow> shell \<Rightarrow> string" where
  "response_name tmpnam sh = (case response_file_arg sh of None \<Rightarrow> tmpnam | Some a \<Rightarrow> drop 1 a)"

definition with_response_file :: "string \<Rightarrow> shell \<Rightarrow> shell" where
  "with_response_file tmpnam sh = (if response_file_arg sh = None
     then sh\<lparr>response_file_arg := Some (CHR ''@'' # tmpnam), exit_handlers := exit_handlers sh + 1\<rparr> else sh)"

lemma with_response_file_simps:
  assumes "\<forall>a. response_file_arg sh = Some a \<longrightarrow> char0 a = CHR ''@''"
  shows "response_file_arg (with_response_file tmpnam sh) = Some (CHR ''@'' # response_name tmpnam sh)"
    and "sh_files (with_response_file tmpnam sh) = sh_files sh" and "can_write (with_response_file tmpnam sh) = can_write sh"
    and "exit_handlers (with_response_file tmpnam sh) = (if response_file_arg sh = None then exit_handlers sh + 1 else exit_handlers sh)"
proof -
  have "a = CHR ''@'' # drop 1 a" if "response_file_arg sh = Some a" for a
    using assms that by (cases a) (auto simp: NUL_def)
  then show "response_file_arg (with_response_file tmpnam sh) = Some (CHR ''@'' # response_name tmpnam sh)"
    by (auto simp: with_response_file_def response_name_def split: option.splits)
qed (simp_all add: with_response_file_def)

lemma SquashToResponseFile_long:
  assumes "args \<noteq> []" and "\<not> line_length (p # args) \<le> MAX_COMMAND_LINE_LEN"
    and "\<forall>a. response_file_arg sh = Some a \<longrightarrow> char0 a = CHR ''@''"
  obtains j where "j < length args"
    and "SquashToResponseFile tmpnam (p # args) sh = ebind (WriteResponseFile (drop j args) (with_response_file tmpnam sh))
      (\<lambda>sh2. Inr (p # take j args @ [CHR ''@'' # response_name tmpnam sh], sh2))"
    and "line_length (p # take j args @ [CHR ''@'' # response_name tmpnam sh]) \<le> MAX_COMMAND_LINE_LEN \<or> j = 0"
proof -
  define file_arg where "file_arg = CHR ''@'' # response_name tmpnam sh"
  define len where "len = line_length (p # args) + int (length file_arg) + 1"
  define i where "i = cut_loop (p # args) len (length args)"
  have "1 \<le> length args" using assms(1) by (cases args) auto
  then have i: "1 \<le> i" "i \<le> length args"
      "i = 1 \<or> line_length (take i (p # args)) + (int (length file_arg) + 1) < MAX_COMMAND_LINE_LEN"
    using cut_loop_result [of "length args" "p # args" len "int (length file_arg) + 1"]
    by (simp_all add: i_def len_def)
  define sh1 where "sh1 = with_response_file tmpnam sh"
  have arg: "the (response_file_arg sh1) = file_arg"
    using with_response_file_simps(1) [OF assms(3)] by (simp add: sh1_def file_arg_def)
  have "take (i + 1) ((p # args)[i := file_arg]) = take i (p # args) @ [file_arg]"
    using take_update_last [of i "p # args" file_arg] i(2) by simp
  moreover have "SquashToResponseFile tmpnam (p # args) sh = ebind (WriteResponseFile (drop i (p # args)) sh1)
      (\<lambda>sh2. Inr (take (i + 1) ((p # args)[i := file_arg]), sh2))"
    using assms(2) unfolding SquashToResponseFile_def Let_def with_response_file_def [symmetric] sh1_def [symmetric] arg
    by (simp add: i_def len_def)
  moreover obtain j where j: "i = Suc j" using i(1) by (cases i) auto
  moreover have "line_length (p # take j args @ [file_arg]) \<le> MAX_COMMAND_LINE_LEN \<or> j = 0"
    using i(3) by (auto simp: j line_length_def)
  ultimately show thesis using that [of j] i(2) by (simp add: sh1_def file_arg_def)
qed

lemma plain_not_at:
  assumes "map arg_text xs = ss" and "set ss \<subseteq> set args" and "\<forall>a \<in> set args. plain_arg a"
  shows "\<forall>a \<in> set xs. char0 (arg_text a) \<noteq> CHR ''@''"
proof
  fix a assume "a \<in> set xs"
  then have "arg_text a \<in> set ss" unfolding assms(1) [symmetric] by simp
  with assms(2,3) show "char0 (arg_text a) \<noteq> CHR ''@''" by (auto simp: plain_arg_def)
qed

text \<open>What the program sees that gets the arguments that were kept and the name of the file.\<close>

lemma expand_squashed:
  assumes "ReadResponseFile fs tmpnam = Inr ss" and "\<forall>a \<in> set kept. plain_arg a"
  shows "\<exists>xs. ExpandResponseArgs fs (argv_list (p # kept @ [CHR ''@'' # tmpnam])) = Inr xs
    \<and> map arg_text xs = p # kept @ ss"
proof -
  let ?kept = "tl (argv_list (p # kept))" and ?file = "Argv (Suc (length kept)) (CHR ''@'' # tmpnam)"
  have texts: "map arg_text ?kept = kept" by (simp add: map_tl)
  have "argv_list (p # kept) = Argv 0 p # ?kept" by (simp add: argv_list_def)
  moreover have "argv_list ((p # kept) @ [CHR ''@'' # tmpnam]) = argv_list (p # kept) @ [?file]"
    by (simp only: argv_list_snoc) simp
  ultimately have split: "argv_list (p # kept @ [CHR ''@'' # tmpnam]) = Argv 0 p # ?kept @ [?file]"
    by (metis append_Cons)
  have "\<forall>a \<in> set ?kept. char0 (arg_text a) \<noteq> CHR ''@''" by (rule plain_not_at [OF texts _ assms(2)]) simp
  then have "ExpandResponseArgs fs (argv_list (p # kept @ [CHR ''@'' # tmpnam])) = Inr (Argv 0 p # ?kept @ map FromFile ss)"
    using assms(1) by (simp add: split ExpandResponseArgs_args expand_args_append expand_plain)
  then show ?thesis by (simp add: texts comp_def)
qed

text \<open>C35: a command line that is too long is shortened without losing anything. It is one of a program and at
  least one argument; the arguments are plain (not empty, without white space or null characters, not
  beginning with \<^verbatim>\<open>@\<close>, and of a length that is no multiple of 64, which the reader gets wrong). When the
  line fits nothing happens. When it is too long and the response file cannot be created, the program uses a
  null pointer. Otherwise the shortened line is the beginning of the long one and the name of the
  response file; it fits, or it is nothing but the program and the response file (whose length nobody
  checks); and the program that gets it and expands the response file sees the arguments of the long
  line. The name is that of an earlier response file, if there is one, and otherwise the one of
  \<^verbatim>\<open>tmpnam\<close>, which will be deleted at the end; the deletion leaves the other files as they were.\<close>

theorem SquashToResponseFile_roundtrip:
  assumes "args \<noteq> []" and "\<forall>a \<in> set args. plain_arg a"
    and "\<forall>a. response_file_arg sh = Some a \<longrightarrow> char0 a = CHR ''@''"
    and "name = (case response_file_arg sh of None \<Rightarrow> tmpnam | Some a \<Rightarrow> drop 1 a)"
  shows "if line_length (p # args) \<le> MAX_COMMAND_LINE_LEN
         then SquashToResponseFile tmpnam (p # args) sh = Inr (p # args, sh)
         else if \<not> can_write sh name then SquashToResponseFile tmpnam (p # args) sh = Inl NullPointer
         else \<exists>kept sh' xs. SquashToResponseFile tmpnam (p # args) sh = Inr (p # kept @ [CHR ''@'' # name], sh')
             \<and> (\<exists>j < length args. kept = take j args)
             \<and> (line_length (p # kept @ [CHR ''@'' # name]) \<le> MAX_COMMAND_LINE_LEN \<or> kept = [])
             \<and> ExpandResponseArgs (sh_files sh') (argv_list (p # kept @ [CHR ''@'' # name])) = Inr xs
             \<and> map arg_text xs = p # args
             \<and> exit_handlers sh' = (if response_file_arg sh = None then exit_handlers sh + 1 else exit_handlers sh)
             \<and> sh_files (DeleteResponseFile sh') = (sh_files sh)(name := None)"
proof (cases "line_length (p # args) \<le> MAX_COMMAND_LINE_LEN")
  case True
  then show ?thesis by (simp add: SquashToResponseFile_short)
next
  case False
  have name: "response_name tmpnam sh = name" by (simp add: assms(4) response_name_def)
  note sh1 = with_response_file_simps [OF assms(3), of tmpnam, unfolded name]
  show ?thesis
  proof (rule SquashToResponseFile_long [OF assms(1) False assms(3), of tmpnam, unfolded name])
    fix j
    assume j: "j < length args"
      and run: "SquashToResponseFile tmpnam (p # args) sh = ebind (WriteResponseFile (drop j args) (with_response_file tmpnam sh))
        (\<lambda>sh2. Inr (p # take j args @ [CHR ''@'' # name], sh2))"
      and fits: "line_length (p # take j args @ [CHR ''@'' # name]) \<le> MAX_COMMAND_LINE_LEN \<or> j = 0"
    show ?thesis
    proof (cases "can_write sh name")
      case no: False
      then show ?thesis using False by (simp add: run WriteResponseFile_def sh1)
    next
      case True
      then obtain sh' where sh': "WriteResponseFile (drop j args) (with_response_file tmpnam sh) = Inr sh'"
        "sh_files sh' = (sh_files sh)(name \<mapsto> concat (map (\<lambda>a. a @ [CHR 0x0A]) (drop j args)))"
        "response_file_arg sh' = Some (CHR ''@'' # name)"
        "exit_handlers sh' = (if response_file_arg sh = None then exit_handlers sh + 1 else exit_handlers sh)"
        by (auto simp: WriteResponseFile_def sh1)
      have "\<forall>a \<in> set (drop j args). plain_arg a" "\<forall>a \<in> set (take j args). plain_arg a"
        using assms(2) by (auto dest: in_set_dropD in_set_takeD)
      moreover from this(1) have "ReadResponseFile (sh_files sh') name = Inr (drop j args)"
        by (intro read_written) (simp_all add: sh')
      ultimately obtain xs where
        "ExpandResponseArgs (sh_files sh') (argv_list (p # take j args @ [CHR ''@'' # name])) = Inr xs"
        "map arg_text xs = p # args"
        using expand_squashed [of "sh_files sh'" name "drop j args" "take j args" p] by auto
      moreover have "sh_files (DeleteResponseFile sh') = (sh_files sh)(name := None)"
        by (simp add: sh' DeleteResponseFile_def)
      moreover have "SquashToResponseFile tmpnam (p # args) sh = Inr (p # take j args @ [CHR ''@'' # name], sh')"
        by (simp add: run sh')
      moreover have "line_length (p # take j args @ [CHR ''@'' # name]) \<le> MAX_COMMAND_LINE_LEN \<or> take j args = []"
        using fits by auto
      ultimately have "\<exists>kept sh' xs. SquashToResponseFile tmpnam (p # args) sh = Inr (p # kept @ [CHR ''@'' # name], sh')
             \<and> (\<exists>j < length args. kept = take j args)
             \<and> (line_length (p # kept @ [CHR ''@'' # name]) \<le> MAX_COMMAND_LINE_LEN \<or> kept = [])
             \<and> ExpandResponseArgs (sh_files sh') (argv_list (p # kept @ [CHR ''@'' # name])) = Inr xs
             \<and> map arg_text xs = p # args
             \<and> exit_handlers sh' = (if response_file_arg sh = None then exit_handlers sh + 1 else exit_handlers sh)
             \<and> sh_files (DeleteResponseFile sh') = (sh_files sh)(name := None)"
        using j sh'(4) by (intro exI [of _ "take j args"] exI [of _ sh'] exI [of _ xs]) blast
      with False True show ?thesis by simp
    qed
  qed
qed

definition sample_shell :: "bool \<Rightarrow> shell" where
  "sample_shell b = \<lparr>sh_files = Map.empty, can_write = (\<lambda>_. b), response_file_arg = None, exit_handlers = 0\<rparr>"

theorem SquashToResponseFile_roundtrip_witness:
  "SquashToResponseFile ''R'' [''doom2'', replicate 130 CHR ''x''] (sample_shell False) = Inl NullPointer
    \<and> (\<exists>args' sh' xs. SquashToResponseFile ''R'' [''doom2'', replicate 130 CHR ''x''] (sample_shell True) = Inr (args', sh')
        \<and> ExpandResponseArgs (sh_files sh') (argv_list args') = Inr xs
        \<and> map arg_text xs = [''doom2'', replicate 130 CHR ''x''] \<and> exit_handlers sh' = 1)"
proof -
  let ?args = "[replicate 130 CHR ''x'']"
  have "char0 (replicate n c) = c" if "0 < n" for n c using that by (cases n) auto
  then have plain: "\<forall>a \<in> set ?args. plain_arg a"
    by (simp add: plain_arg_def isspace_def NUL_def)
  have long: "\<not> line_length (''doom2'' # ?args) \<le> MAX_COMMAND_LINE_LEN"
    by (simp add: line_length_def MAX_COMMAND_LINE_LEN_def)
  have sh: "response_file_arg (sample_shell b) = None" "can_write (sample_shell b) name = b"
    "exit_handlers (sample_shell b) = 0" for b name
    by (simp_all add: sample_shell_def)
  have hyps: "?args \<noteq> []" "\<forall>a. response_file_arg (sample_shell b) = Some a \<longrightarrow> char0 a = CHR ''@''"
    "''R'' = (case response_file_arg (sample_shell b) of None \<Rightarrow> ''R'' | Some a \<Rightarrow> drop 1 a)" for b
    by (simp_all add: sh)
  note squash = SquashToResponseFile_roundtrip [where p = "''doom2''", OF hyps(1) plain]
  from squash [OF hyps(2,3) [of False], unfolded sh] long have "SquashToResponseFile ''R'' (''doom2'' # ?args) (sample_shell False) = Inl NullPointer"
    by simp
  moreover from squash [OF hyps(2,3) [of True], unfolded sh] long
  have "\<exists>args' sh' xs. SquashToResponseFile ''R'' (''doom2'' # ?args) (sample_shell True) = Inr (args', sh')
        \<and> ExpandResponseArgs (sh_files sh') (argv_list args') = Inr xs
        \<and> map arg_text xs = ''doom2'' # ?args \<and> exit_handlers sh' = 1"
    by (simp only: if_False if_True not_True_eq_False) auto
  ultimately show ?thesis by blast
qed

end
