(* ===== verification/Parse.thy ===== *)
theory Parse
  imports Response "HOL-Library.Sublist"
begin

text \<open>
  The parser of \<^verbatim>\<open>lib/flag.c\<close>: stripping the flags that other programs add, the loop
  over the flags, and \<^verbatim>\<open>ParseCommandLine\<close> that puts all parts together.
\<close>

section \<open>What flags set\<close>

text \<open>The variables flags point to, by the number of the pointer, and the calls of callbacks made so
  far, with the number of the callback and its argument.\<close>

record vars =
  v_int :: "nat \<Rightarrow> u16"
  v_str :: "nat \<Rightarrow> arg option"
  v_calls :: "(nat \<times> int) list"

section \<open>Flags of other programs\<close>

definition api_flag :: "flag list \<Rightarrow> arg \<Rightarrow> flag option" where
  "api_flag fl a =
    (if char0 (arg_text a) = CHR ''-'' then
       case FindFlagForName fl (arg_text a) of
         Some f \<Rightarrow> if f_type f = FLAG_API_POINTER then Some f else None
       | None \<Rightarrow> None
     else None)"

text \<open>The loop with its two indices in the one array. Behind the last argument is the null
  pointer.\<close>

function strip_loop :: "flag list \<Rightarrow> arg list \<Rightarrow> nat \<Rightarrow> nat \<Rightarrow> vars \<Rightarrow> stop + (arg list \<times> nat \<times> vars)" where
  "strip_loop fl argv i j v =
    (if i < length argv then
       (case api_flag fl (argv ! i) of
          Some f \<Rightarrow>
            if \<not> i + 1 < length argv then Inl NullPointer
            else
              (let l = fst (strtol (arg_text (argv ! (i + 1))) 10)
               in if l = 0 then Inl (Crash AssertFailed)
                  else strip_loop fl argv (i + 2) j (v\<lparr>v_calls := v_calls v @ [(f_value f, l)]\<rparr>))
        | None \<Rightarrow> strip_loop fl (argv[j := argv ! i]) (i + 1) (j + 1) v)
     else Inr (argv, j, v))"
  by pat_completeness auto

termination
  by (relation "measure (\<lambda>(fl, argv, i, j, v). length argv - i)") auto

declare strip_loop.simps [simp del]

text \<open>The result is the arguments up to the new \<^verbatim>\<open>argc\<close>.\<close>

definition StripAPIPointers :: "flag list \<Rightarrow> arg list \<Rightarrow> vars \<Rightarrow> stop + (arg list \<times> vars)" where
  "StripAPIPointers fl argv v =
    ebind (strip_loop fl argv 1 1 v) (\<lambda>(argv', j, v'). Inr (take j argv', v'))"

section \<open>The loop over the flags\<close>

function parse_loop :: "flag list \<Rightarrow> arg list \<Rightarrow> nat \<Rightarrow> vars \<Rightarrow> stop + (arg list option \<times> vars)" where
  "parse_loop fl argv i v =
    (if i < length argv then
       if char0 (arg_text (argv ! i)) \<noteq> CHR ''-'' then
         Inr (Some (AppendArgList [] (length argv - i) (drop i argv)), v)
       else ebind (MustFindFlagForName fl (arg_text (argv ! i))) (\<lambda>f.
         if f_type f \<noteq> FLAG_BOOL \<and>
            (i + 1 \<ge> length argv \<or> char0 (arg_text (argv ! (i + 1))) = CHR ''-'')
         then Inl (ErrorPrintUsage (NoValueGiven (f_name f)))
         else
           (case f_type f of
              FLAG_BOOL \<Rightarrow> parse_loop fl argv (i + 1) (v\<lparr>v_int := (v_int v)(f_value f := 1)\<rparr>)
            | FLAG_INT \<Rightarrow>
                ebind (MustParseInt (f_name f) (arg_text (argv ! (i + 1))) INT_MIN INT_MAX) (\<lambda>n.
                  parse_loop fl argv (i + 2) (v\<lparr>v_int := (v_int v)(f_value f := n)\<rparr>))
            | FLAG_UNSIGNED_INT \<Rightarrow>
                ebind (MustParseInt (f_name f) (arg_text (argv ! (i + 1))) 0 UINT_MAX) (\<lambda>n.
                  parse_loop fl argv (i + 2) (v\<lparr>v_int := (v_int v)(f_value f := n)\<rparr>))
            | FLAG_STRING \<Rightarrow>
                parse_loop fl argv (i + 2) (v\<lparr>v_str := (v_str v)(f_value f := Some (argv ! (i + 1)))\<rparr>)
            | FLAG_API_POINTER \<Rightarrow> parse_loop fl argv (i + 2) v))
     else Inr (None, v))"
  by pat_completeness auto

termination
  by (relation "measure (\<lambda>(fl, argv, i, v). length argv - i)") auto

declare parse_loop.simps [simp del]

definition DoParseArgs :: "flag list \<Rightarrow> arg list \<Rightarrow> vars \<Rightarrow> stop + (arg list option \<times> vars)" where
  "DoParseArgs fl argv v =
    (if length argv = 1 then Inl ShowUsage
     else ebind (StripAPIPointers fl argv v) (\<lambda>(argv', v'). parse_loop fl argv' 1 v'))"

section \<open>\<^verbatim>\<open>ParseCommandLine\<close>\<close>

definition asks_for_help :: "string \<Rightarrow> bool" where
  "asks_for_help s \<longleftrightarrow> same_nocase s ''-h'' \<or> same_nocase s ''-help'' \<or> same_nocase s ''--help'' \<or> s = ''/?''"

definition ParseCommandLine ::
  "flag list \<Rightarrow> string \<Rightarrow> files \<Rightarrow> string list \<Rightarrow> vars \<Rightarrow> stop + (arg list option \<times> vars)" where
  "ParseCommandLine fl config fs argv v =
    (if list_ex asks_for_help (drop 1 argv) then Inl ShowUsage
     else ebind (AppendBakedInArgs config (AppendArgList [] 1 (argv_list argv))) (\<lambda>args.
       ebind (ExpandResponseArgs fs (AppendArgList args (length argv - 1) (drop 1 (argv_list argv)))) (\<lambda>args.
         DoParseArgs fl
           (if HAVE_BAKED_IN_CONFIG config
            then ReorderArgsForBakedIn fl args (IdentifyCallee fl (argv_list argv)) else args) v)))"

section \<open>What stripping does\<close>

fun strip_args :: "flag list \<Rightarrow> arg list \<Rightarrow> vars \<Rightarrow> stop + (arg list \<times> vars)" where
  "strip_args fl [] v = Inr ([], v)"
| "strip_args fl [a] v = (if api_flag fl a = None then Inr ([a], v) else Inl NullPointer)"
| "strip_args fl (a # b # as) v =
    (case api_flag fl a of
       None \<Rightarrow> ebind (strip_args fl (b # as) v) (\<lambda>(r, v'). Inr (a # r, v'))
     | Some f \<Rightarrow>
         let l = fst (strtol (arg_text b) 10)
         in if l = 0 then Inl (Crash AssertFailed)
            else strip_args fl as (v\<lparr>v_calls := v_calls v @ [(f_value f, l)]\<rparr>))"

lemma strip_loop_args:
  assumes "j \<le> i" and "i \<le> length argv"
  shows "ebind (strip_loop fl argv i j v) (\<lambda>(argv', j, v'). Inr (take j argv', v'))
    = ebind (strip_args fl (drop i argv) v) (\<lambda>(r, v'). Inr (take j argv @ r, v'))"
  using assms
proof (induction fl argv i j v rule: strip_loop.induct)
  case (1 fl argv i j v)
  show ?case
  proof (cases "i < length argv")
    case False
    with "1.prems" show ?thesis by (subst strip_loop.simps) simp
  next
    case True
    then have drop_i: "drop i argv = argv ! i # drop (i + 1) argv" by (simp add: Cons_nth_drop_Suc)
    show ?thesis
    proof (cases "api_flag fl (argv ! i)")
      case None
      have tk: "take (j + 1) (argv[j := argv ! i]) = take j argv @ [argv ! i]"
        using "1.prems"(1) True by (simp add: take_Suc_conv_app_nth)
      have "ebind (strip_loop fl argv i j v) (\<lambda>(argv', j, v'). Inr (take j argv', v'))
          = ebind (strip_args fl (drop (i + 1) argv) v) (\<lambda>(r, v'). Inr (take j argv @ argv ! i # r, v'))"
        using "1.IH"(1) [OF True None] "1.prems" True None tk
        by (subst strip_loop.simps) simp
      also have "\<dots> = ebind (strip_args fl (drop i argv) v) (\<lambda>(r, v'). Inr (take j argv @ r, v'))"
        unfolding drop_i using None
        by (cases "drop (i + 1) argv") (auto simp: ebind_assoc split: prod.splits intro!: ebind_cong)
      finally show ?thesis .
    next
      case (Some f)
      show ?thesis
      proof (cases "i + 1 < length argv")
        case False
        then have "drop (i + 1) argv = []" by simp
        with True Some False show ?thesis by (subst strip_loop.simps) (simp add: drop_i)
      next
        case more: True
        then have "drop (i + 1) argv = argv ! (i + 1) # drop (i + 2) argv" by (simp add: Cons_nth_drop_Suc)
        with "1.IH"(2) [OF True Some _ refl] "1.prems" True Some more show ?thesis
          by (subst strip_loop.simps) (simp add: drop_i Let_def)
      qed
    qed
  qed
qed

lemma StripAPIPointers_args:
  "StripAPIPointers fl (p # as) v = ebind (strip_args fl as v) (\<lambda>(r, v'). Inr (p # r, v'))"
  using strip_loop_args [of 1 1 "p # as" fl v] by (simp add: StripAPIPointers_def)

lemma strip_args_result:
  "case strip_args fl as v of
     Inr (r, v') \<Rightarrow> list_all (\<lambda>a. api_flag fl a = None) r \<and> subseq r as
       \<and> v_int v' = v_int v \<and> v_str v' = v_str v
       \<and> (list_all (\<lambda>a. api_flag fl a = None) as \<longrightarrow> r = as \<and> v' = v)
   | Inl e \<Rightarrow> (e = NullPointer \<or> e = Crash AssertFailed) \<and> \<not> list_all (\<lambda>a. api_flag fl a = None) as"
proof (induction fl as v rule: strip_args.induct)
  case (3 fl a b as v)
  show ?case
  proof (cases "api_flag fl a")
    case None
    with 3(1) show ?thesis
      by (cases "strip_args fl (b # as) v") auto
  next
    case (Some f)
    define l where "l = fst (strtol (arg_text b) 10)"
    show ?thesis
    proof (cases "l = 0")
      case False
      with 3(2) [OF Some l_def] show ?thesis
        unfolding l_def using Some
        by (cases "strip_args fl as (v\<lparr>v_calls := v_calls v @ [(f_value f, fst (strtol (arg_text b) 10))]\<rparr>)")
          (auto simp: Let_def)
    qed (use Some in \<open>simp add: l_def\<close>)
  qed
qed auto

section \<open>What the flags mean\<close>

text \<open>A list of flags with their parameters, one after the other, and what it does to the
  variables.\<close>

inductive settings :: "flag list \<Rightarrow> arg list \<Rightarrow> vars \<Rightarrow> vars \<Rightarrow> bool" for fl where
  settings_none: "settings fl [] v v"
| settings_bool: "FindFlagForName fl (arg_text a) = Some f \<Longrightarrow> f_type f = FLAG_BOOL \<Longrightarrow>
    char0 (arg_text a) = CHR ''-'' \<Longrightarrow>
    settings fl as (v\<lparr>v_int := (v_int v)(f_value f := 1)\<rparr>) v' \<Longrightarrow> settings fl (a # as) v v'"
| settings_int: "FindFlagForName fl (arg_text a) = Some f \<Longrightarrow> f_type f = FLAG_INT \<Longrightarrow>
    char0 (arg_text a) = CHR ''-'' \<Longrightarrow> char0 (arg_text b) \<noteq> CHR ''-'' \<Longrightarrow>
    MustParseInt (f_name f) (arg_text b) INT_MIN INT_MAX = Inr n \<Longrightarrow>
    settings fl as (v\<lparr>v_int := (v_int v)(f_value f := n)\<rparr>) v' \<Longrightarrow> settings fl (a # b # as) v v'"
| settings_unsigned: "FindFlagForName fl (arg_text a) = Some f \<Longrightarrow> f_type f = FLAG_UNSIGNED_INT \<Longrightarrow>
    char0 (arg_text a) = CHR ''-'' \<Longrightarrow> char0 (arg_text b) \<noteq> CHR ''-'' \<Longrightarrow>
    MustParseInt (f_name f) (arg_text b) 0 UINT_MAX = Inr n \<Longrightarrow>
    settings fl as (v\<lparr>v_int := (v_int v)(f_value f := n)\<rparr>) v' \<Longrightarrow> settings fl (a # b # as) v v'"
| settings_string: "FindFlagForName fl (arg_text a) = Some f \<Longrightarrow> f_type f = FLAG_STRING \<Longrightarrow>
    char0 (arg_text a) = CHR ''-'' \<Longrightarrow> char0 (arg_text b) \<noteq> CHR ''-'' \<Longrightarrow>
    settings fl as (v\<lparr>v_str := (v_str v)(f_value f := Some b)\<rparr>) v' \<Longrightarrow> settings fl (a # b # as) v v'"

text \<open>The command after the flags, if there is one.\<close>

definition command :: "arg list option \<Rightarrow> arg list" where
  "command res = (case res of None \<Rightarrow> [] | Some cmd \<Rightarrow> cmd)"

definition good_command :: "arg list option \<Rightarrow> bool" where
  "good_command res = (case res of None \<Rightarrow> True | Some cmd \<Rightarrow> cmd \<noteq> [] \<and> char0 (arg_text (hd cmd)) \<noteq> CHR ''-'')"

lemma drop_two: "drop i xs = a # b # ys \<Longrightarrow> drop (i + 2) xs = ys"
  by (metis drop_drop add.commute drop_Suc_Cons drop0 numeral_2_eq_2)

lemma drop_one: "drop i xs = a # ys \<Longrightarrow> drop (i + 1) xs = ys"
  by (metis drop_drop add.commute drop_Suc_Cons drop0 One_nat_def)

lemma drop_nth: "drop i xs = a # ys \<Longrightarrow> i < length xs \<and> xs ! i = a"
  by (metis nth_via_drop drop_eq_Nil2 list.discI not_le)

lemma parse_loop_complete:
  assumes "settings fl own v v'" and "drop i argv = own @ command res" and "good_command res"
  shows "parse_loop fl argv i v = Inr (res, v')"
  using assms
proof (induction own v v' arbitrary: i rule: settings.induct)
  case (settings_none v)
  show ?case
  proof (cases res)
    case None
    with settings_none have "\<not> i < length argv" by (simp add: command_def)
    with None show ?thesis by (subst parse_loop.simps) simp
  next
    case (Some cmd)
    then obtain c cs where c: "cmd = c # cs" "char0 (arg_text c) \<noteq> CHR ''-''"
      using settings_none(2) by (cases cmd) (auto simp: good_command_def)
    with settings_none(1) Some have "drop i argv = c # cs" by (simp add: command_def)
    moreover from this have "length argv - i = Suc (length cs)" by (metis length_drop length_Cons)
    ultimately show ?thesis using drop_nth [of i argv c cs] c Some
      by (subst parse_loop.simps) (simp add: AppendArgList_def)
  qed
next
  case (settings_bool a f as v v')
  then have d: "drop i argv = a # as @ command res" by simp
  from drop_nth [OF d] settings_bool.hyps settings_bool.IH [OF drop_one [OF d]] settings_bool.prems(2) show ?case
    by (subst parse_loop.simps) (simp add: MustFindFlagForName_def)
next
  case (settings_int a f b n as v v')
  then have d: "drop i argv = a # b # as @ command res" by simp
  from drop_nth [OF d] drop_nth [OF drop_one [OF d]] settings_int.hyps
    settings_int.IH [OF drop_two [OF d]] settings_int.prems(2)
  show ?case by (subst parse_loop.simps) (simp add: MustFindFlagForName_def)
next
  case (settings_unsigned a f b n as v v')
  then have d: "drop i argv = a # b # as @ command res" by simp
  from drop_nth [OF d] drop_nth [OF drop_one [OF d]] settings_unsigned.hyps
    settings_unsigned.IH [OF drop_two [OF d]] settings_unsigned.prems(2)
  show ?case by (subst parse_loop.simps) (simp add: MustFindFlagForName_def)
next
  case (settings_string a f b as v v')
  then have d: "drop i argv = a # b # as @ command res" by simp
  from drop_nth [OF d] drop_nth [OF drop_one [OF d]] settings_string.hyps
    settings_string.IH [OF drop_two [OF d]] settings_string.prems(2)
  show ?case by (subst parse_loop.simps) (simp add: MustFindFlagForName_def)
qed

lemma not_api:
  "api_flag fl a = None \<Longrightarrow> char0 (arg_text a) = CHR ''-'' \<Longrightarrow> FindFlagForName fl (arg_text a) = Some f \<Longrightarrow>
    f_type f \<noteq> FLAG_API_POINTER"
  by (auto simp: api_flag_def split: if_splits)

text \<open>One flag with a value: it is followed by a parameter, and the loop goes on behind it.\<close>

lemma parse_param:
  assumes i: "i < length argv" "argv ! i = a" and dash: "char0 (arg_text a) = CHR ''-''"
    and f: "FindFlagForName fl (arg_text a) = Some f" "f_type f \<noteq> FLAG_BOOL" "f_type f \<noteq> FLAG_API_POINTER"
    and run: "parse_loop fl argv i v = Inr r"
  obtains w where "i + 1 < length argv" and "parse_loop fl argv (i + 2) w = Inr r"
    and "\<And>own v'. settings fl own w v' \<Longrightarrow> settings fl (a # argv ! (i + 1) # own) v v'"
proof -
  note result = that
  have must: "MustFindFlagForName fl (arg_text a) = Inr f" using f(1) by (simp add: MustFindFlagForName_def)
  have val: "i + 1 < length argv \<and> char0 (arg_text (argv ! (i + 1))) \<noteq> CHR ''-''"
  proof (rule ccontr)
    assume "\<not> ?thesis"
    then have "parse_loop fl argv i v = Inl (ErrorPrintUsage (NoValueGiven (f_name f)))"
      using i dash must f(2) by (subst parse_loop.simps) (simp add: not_less)
    with run show False by simp
  qed
  let ?b = "argv ! (i + 1)"
  let ?int = "\<lambda>n. v\<lparr>v_int := (v_int v)(f_value f := n)\<rparr>"
  have number: thesis
    if eq: "parse_loop fl argv i v = ebind (MustParseInt (f_name f) (arg_text ?b) lo hi) (\<lambda>n. parse_loop fl argv (i + 2) (?int n))"
      and st: "\<And>n own v'. MustParseInt (f_name f) (arg_text ?b) lo hi = Inr n \<Longrightarrow> settings fl own (?int n) v'
        \<Longrightarrow> settings fl (a # ?b # own) v v'" for lo hi
  proof -
    from run [unfolded eq] obtain n where n: "MustParseInt (f_name f) (arg_text ?b) lo hi = Inr n"
      "parse_loop fl argv (i + 2) (?int n) = Inr r" by (auto simp: ebind_eq_Inr)
    show thesis by (rule result [OF conjunct1 [OF val] n(2)]) (rule st [OF n(1)])
  qed
  show thesis
  proof (cases "f_type f")
    case FLAG_STRING
    have "parse_loop fl argv (i + 2) (v\<lparr>v_str := (v_str v)(f_value f := Some ?b)\<rparr>) = Inr r"
      using run i dash must val FLAG_STRING by (subst (asm) parse_loop.simps) simp
    with val settings_string [OF f(1) FLAG_STRING dash] that show thesis by blast
  next
    case FLAG_INT
    have "parse_loop fl argv i v = ebind (MustParseInt (f_name f) (arg_text ?b) INT_MIN INT_MAX)
        (\<lambda>n. parse_loop fl argv (i + 2) (?int n))"
      using i dash must val FLAG_INT by (subst parse_loop.simps) simp
    then show thesis by (rule number) (rule settings_int [OF f(1) FLAG_INT dash conjunct2 [OF val]])
  next
    case FLAG_UNSIGNED_INT
    have "parse_loop fl argv i v = ebind (MustParseInt (f_name f) (arg_text ?b) 0 UINT_MAX)
        (\<lambda>n. parse_loop fl argv (i + 2) (?int n))"
      using i dash must val FLAG_UNSIGNED_INT by (subst parse_loop.simps) simp
    then show thesis by (rule number) (rule settings_unsigned [OF f(1) FLAG_UNSIGNED_INT dash conjunct2 [OF val]])
  qed (use f in simp_all)
qed

lemma parse_loop_sound:
  assumes "parse_loop fl argv i v = Inr (res, v')" and "list_all (\<lambda>a. api_flag fl a = None) (drop i argv)"
  shows "\<exists>own. drop i argv = own @ command res \<and> settings fl own v v' \<and> good_command res"
  using assms
proof (induction "length argv - i" arbitrary: i v rule: less_induct)
  case less
  show ?case
  proof (cases "drop i argv")
    case Nil
    then have "\<not> i < length argv" by simp
    then have "parse_loop fl argv i v = Inr (None, v)" by (subst parse_loop.simps) simp
    with less.prems(1) Nil show ?thesis by (auto simp: command_def good_command_def settings_none)
  next
    case (Cons a as)
    have a: "i < length argv" "argv ! i = a" and as: "drop (i + 1) argv = as"
      using drop_nth [OF Cons] drop_one [OF Cons] by simp_all
    have api: "list_all (\<lambda>a. api_flag fl a = None) as" using less.prems(2) Cons by simp
    have later: "\<exists>own. drop j argv = own @ command res \<and> settings fl own w v' \<and> good_command res"
      if "i < j" "parse_loop fl argv j w = Inr (res, v')" "list_all (\<lambda>a. api_flag fl a = None) (drop j argv)" for j w
      using less.hyps [OF diff_less_mono2 [OF that(1) a(1)] that(2,3)] .
    consider (cmd) "char0 (arg_text a) \<noteq> CHR ''-''"
      | (bool) f where "char0 (arg_text a) = CHR ''-''" "FindFlagForName fl (arg_text a) = Some f" "f_type f = FLAG_BOOL"
      | (param) f where "char0 (arg_text a) = CHR ''-''" "FindFlagForName fl (arg_text a) = Some f" "f_type f \<noteq> FLAG_BOOL"
      using less.prems(1) a
      by (subst (asm) parse_loop.simps) (fastforce simp: MustFindFlagForName_def split: option.splits if_splits)
    then show ?thesis
    proof cases
      case cmd
      then have "parse_loop fl argv i v = Inr (Some (drop i argv), v)"
        using a by (subst parse_loop.simps) (simp add: AppendArgList_def)
      with less.prems(1) Cons cmd show ?thesis
        by (intro exI [of _ "[]"]) (auto simp: command_def good_command_def settings_none)
    next
      case (bool f)
      then have "parse_loop fl argv (i + 1) (v\<lparr>v_int := (v_int v)(f_value f := 1)\<rparr>) = Inr (res, v')"
        using less.prems(1) a by (subst (asm) parse_loop.simps) (simp add: MustFindFlagForName_def)
      from later [OF _ this] api as obtain own where "as = own @ command res"
        "settings fl own (v\<lparr>v_int := (v_int v)(f_value f := 1)\<rparr>) v'" "good_command res" by auto
      with bool Cons show ?thesis by (auto intro!: exI [of _ "a # own"] settings_bool)
    next
      case (param f)
      have "f_type f \<noteq> FLAG_API_POINTER" using less.prems(2) Cons not_api [OF _ param(1,2)] by simp
      from parse_param [OF a param this less.prems(1)] obtain w where
        w: "i + 1 < length argv" "parse_loop fl argv (i + 2) w = Inr (res, v')"
          "\<And>own v'. settings fl own w v' \<Longrightarrow> settings fl (a # argv ! (i + 1) # own) v v'" by blast
      have as2: "as = argv ! (i + 1) # drop (i + 2) argv" using as w(1) by (simp add: Cons_nth_drop_Suc [symmetric])
      from later [OF _ w(2)] api as2 obtain own where "drop (i + 2) argv = own @ command res" "settings fl own w v'"
        "good_command res" by auto
      with w(3) as2 Cons show ?thesis by (intro exI [of _ "a # argv ! (i + 1) # own"]) simp
    qed
  qed
qed

lemma DoParseArgs_iff:
  "DoParseArgs fl (p # as) v = Inr (res, v') \<longleftrightarrow>
    as \<noteq> [] \<and> (\<exists>own w. strip_args fl as v = Inr (own @ command res, w) \<and> settings fl own w v' \<and> good_command res)"
proof (cases "strip_args fl as v")
  case (Inl e)
  then show ?thesis by (auto simp: DoParseArgs_def StripAPIPointers_args)
next
  case (Inr rw)
  then obtain r w where rw: "strip_args fl as v = Inr (r, w)" by (cases rw) auto
  have none: "list_all (\<lambda>a. api_flag fl a = None) r" using strip_args_result [of fl as v] rw by simp
  have "parse_loop fl (p # r) 1 w = Inr (res, v') \<longleftrightarrow> (\<exists>own. r = own @ command res \<and> settings fl own w v' \<and> good_command res)"
    using parse_loop_sound [of fl "p # r" 1 w res v'] parse_loop_complete [of fl _ w v' 1 "p # r" res] none by auto
  then show ?thesis using rw by (auto simp: DoParseArgs_def StripAPIPointers_args)
qed

section \<open>The command line as a whole\<close>

text \<open>The arguments in the order in which they are parsed: those of the program itself, then the command
  with its arguments; the command that the user has typed comes before the arguments baked in.\<close>

definition arranged :: "flag list \<Rightarrow> arg option \<Rightarrow> arg list \<Rightarrow> arg list" where
  "arranged fl callee as = (case split_args fl (callee_first callee as) of (own, others) \<Rightarrow> own @ others)"

lemma ParseCommandLine_iff:
  fixes prog :: string and us :: "string list"
  assumes "\<forall>s \<in> set bs. s \<noteq> [] \<and> NUL \<notin> set s"
  defines "users \<equiv> argv_list (prog # us)"
  shows "ParseCommandLine fl (bake bs @ padding) fs (prog # us) v = Inr (res, v') \<longleftrightarrow>
    \<not> list_ex asks_for_help us
    \<and> (\<exists>as own w. expand_args fs (baked_at 0 bs @ drop 1 users) = Inr as \<and> as \<noteq> []
        \<and> strip_args fl (if bs = [] then as else arranged fl (IdentifyCallee fl users) as) v = Inr (own @ command res, w)
        \<and> settings fl own w v' \<and> good_command res)"
proof -
  have users: "users = Argv 0 prog # drop 1 users" "length (drop 1 users) = length us"
    by (simp_all add: users_def argv_list_def enumerate_eq_zip del: upt_Suc) (simp add: upt_rec)
  have baked: "AppendBakedInArgs (bake bs @ padding) [Argv 0 prog] = Inr (Argv 0 prog # baked_at 0 bs)"
    using baked_loop_bake [OF assms(1), of "[]" padding "[Argv 0 prog]"] by (simp add: AppendBakedInArgs_def)
  have have_baked: "HAVE_BAKED_IN_CONFIG (bake bs @ padding) \<longleftrightarrow> bs \<noteq> []"
  proof (cases bs)
    case (Cons s ss)
    with assms(1) obtain c t where "s = c # t" "c \<noteq> NUL" by (cases s) auto
    with Cons show ?thesis by (simp add: HAVE_BAKED_IN_CONFIG_def bake_def)
  qed (simp add: HAVE_BAKED_IN_CONFIG_def bake_def)
  have len: "mset (arranged fl callee as) = mset as" for callee as
  proof -
    obtain own others where s: "split_args fl (callee_first callee as) = (own, others)" by fastforce
    have "mset (callee_first callee as) = mset as" by (auto simp: callee_first_def split: option.split)
    with mset_split_args [OF s] s show ?thesis by (simp add: arranged_def)
  qed
  have ne: "arranged fl callee as \<noteq> [] \<longleftrightarrow> as \<noteq> []" for callee as
    using len [of callee as] by (metis mset_zero_iff_right)
  have "ParseCommandLine fl (bake bs @ padding) fs (prog # us) v =
    (if list_ex asks_for_help us then Inl ShowUsage
     else ebind (expand_args fs (baked_at 0 bs @ drop 1 users)) (\<lambda>as.
       DoParseArgs fl (Argv 0 prog # (if bs = [] then as else arranged fl (IdentifyCallee fl users) as)) v))"
  proof -
    have "AppendArgList [] 1 users = [Argv 0 prog]" by (subst users(1)) (simp add: AppendArgList_def)
    moreover have "AppendArgList (Argv 0 prog # baked_at 0 bs) (length us) (drop 1 users)
        = Argv 0 prog # baked_at 0 bs @ drop 1 users"
      using users(2) by (simp add: AppendArgList_def)
    ultimately have "ParseCommandLine fl (bake bs @ padding) fs (prog # us) v =
      (if list_ex asks_for_help us then Inl ShowUsage
       else ebind (expand_args fs (baked_at 0 bs @ drop 1 users)) (\<lambda>as.
         DoParseArgs fl (if bs \<noteq> [] then ReorderArgsForBakedIn fl (Argv 0 prog # as) (IdentifyCallee fl users)
           else Argv 0 prog # as) v))"
      unfolding ParseCommandLine_def users_def [symmetric] Let_def
      by (simp add: baked have_baked ExpandResponseArgs_args ebind_assoc)
    moreover have "(if bs \<noteq> [] then ReorderArgsForBakedIn fl (Argv 0 prog # as) (IdentifyCallee fl users)
        else Argv 0 prog # as) = Argv 0 prog # (if bs = [] then as else arranged fl (IdentifyCallee fl users) as)" for as
      using ReorderArgsForBakedIn_split by (simp add: arranged_def)
    ultimately show ?thesis by simp
  qed
  then show ?thesis using ne by (auto simp: ebind_eq_Inr DoParseArgs_iff split: if_splits)
qed

section \<open>Properties\<close>

text \<open>C34: stripping, done in place with two indices, removes exactly the flags that are API
  pointers, each with the argument after it, wherever they are, and calls their callbacks in order
  with the numbers; it changes no variable and keeps the order of everything else, so that the
  loop over the flags never sees such a flag. It stops when a number is zero or no number, and it
  gives \<^verbatim>\<open>strtol\<close> a null pointer when the flag is the last argument.\<close>

theorem StripAPIPointers_correct:
  "StripAPIPointers fl (p # as) v = ebind (strip_args fl as v) (\<lambda>(r, v'). Inr (p # r, v'))
   \<and> (case strip_args fl as v of
        Inr (r, v') \<Rightarrow> list_all (\<lambda>a. api_flag fl a = None) r \<and> subseq r as
          \<and> v_int v' = v_int v \<and> v_str v' = v_str v
      | Inl e \<Rightarrow> (e = NullPointer \<or> e = Crash AssertFailed) \<and> \<not> list_all (\<lambda>a. api_flag fl a = None) as)"
  using strip_args_result [of fl as v] by (auto simp: StripAPIPointers_args split: sum.split)

text \<open>C33: the whole command line, with a configuration \<open>bs\<close> baked in. The parser succeeds exactly when no
  argument asks for help; the response files can be read, and there is an argument; the arguments, in the
  order described above, are flags with their parameters and then nothing or a command that does not
  begin with a dash. Flags of other programs have been taken out. The variables are those the flags
  set, and the result is the command with its arguments: the command comes from the user's
  arguments if there is one, with the arguments baked in for it first.\<close>

theorem ParseCommandLine_correct:
  assumes "\<forall>s \<in> set bs. s \<noteq> [] \<and> NUL \<notin> set s"
  shows "ParseCommandLine fl (bake bs @ padding) fs (prog # us) v = Inr (res, v') \<longleftrightarrow>
    \<not> list_ex asks_for_help us
    \<and> (\<exists>as own w. expand_args fs (baked_at 0 bs @ drop 1 (argv_list (prog # us))) = Inr as \<and> as \<noteq> []
        \<and> strip_args fl (if bs = [] then as else arranged fl (IdentifyCallee fl (argv_list (prog # us))) as) v
            = Inr (own @ command res, w)
        \<and> settings fl own w v' \<and> good_command res)"
  using assms by (rule ParseCommandLine_iff)

text \<open>The example of the comment in \<^verbatim>\<open>ReorderArgsForBakedIn\<close>: \<^verbatim>\<open>-nodes 3 -skill 2\<close> is
  baked in, and the user types \<^verbatim>\<open>doom2.exe -warp 10\<close>.\<close>

definition nodes_flag :: flag where
  "nodes_flag = \<lparr>f_type = FLAG_UNSIGNED_INT, f_name = ''-nodes'', f_param = Some ''n'', f_help = Some ''players'', f_value = 7\<rparr>"

definition no_vars :: vars where
  "no_vars = \<lparr>v_int = \<lambda>_. 0, v_str = \<lambda>_. None, v_calls = []\<rparr>"

theorem ParseCommandLine_correct_witness:
  "ParseCommandLine [nodes_flag] (bake [''-nodes'', ''3'', ''-skill'', ''2''] @ []) Map.empty
      [''ipxsetup'', ''doom2.exe'', ''-warp'', ''10''] no_vars
    = Inr (Some [Argv 1 ''doom2.exe'', Baked 9 ''-skill'', Baked 16 ''2'', Argv 2 ''-warp'', Argv 3 ''10''],
        no_vars\<lparr>v_int := (\<lambda>_. 0)(7 := 3)\<rparr>)"
proof -
  let ?bs = "[''-nodes'', ''3'', ''-skill'', ''2'']" and ?us = "[''doom2.exe'', ''-warp'', ''10'']"
  let ?own = "[Baked 0 ''-nodes'', Baked 7 ''3'']"
  let ?cmd = "[Argv 1 ''doom2.exe'', Baked 9 ''-skill'', Baked 16 ''2'', Argv 2 ''-warp'', Argv 3 ''10'']"
  have bs: "\<forall>s \<in> set ?bs. s \<noteq> [] \<and> NUL \<notin> set s" by (simp add: NUL_def)
  have argv: "argv_list (''ipxsetup'' # ?us) = [Argv 0 ''ipxsetup'', Argv 1 ''doom2.exe'', Argv 2 ''-warp'', Argv 3 ''10'']"
    by (simp add: argv_list_def numeral_eq_Suc)
  have flags: "FindFlagForName [nodes_flag] ''-nodes'' = Some nodes_flag" "FindFlagForName [nodes_flag] ''doom2.exe'' = None"
    "FindFlagForName [nodes_flag] ''-skill'' = None" "FindFlagForName [nodes_flag] ''2'' = None"
    "FindFlagForName [nodes_flag] ''-warp'' = None" "FindFlagForName [nodes_flag] ''10'' = None"
    "FindFlagForName [nodes_flag] ''3'' = None"
    by (simp_all add: FindFlagForName_def nodes_flag_def same_nocase_def tolower_def)
  have ty: "f_type nodes_flag = FLAG_UNSIGNED_INT" "f_value nodes_flag = 7" by (simp_all add: nodes_flag_def)
  have "expand_args Map.empty (baked_at 0 ?bs @ drop 1 (argv_list (''ipxsetup'' # ?us)))
      = Inr (baked_at 0 ?bs @ drop 1 (argv_list (''ipxsetup'' # ?us)))"
    unfolding argv by (rule expand_plain) simp
  moreover have "arranged [nodes_flag] (IdentifyCallee [nodes_flag] (argv_list (''ipxsetup'' # ?us)))
      (baked_at 0 ?bs @ drop 1 (argv_list (''ipxsetup'' # ?us))) = ?own @ ?cmd"
    unfolding argv by (simp add: arranged_def IdentifyCallee_def callee_first_def flags ty Let_def)
  moreover have "strip_args [nodes_flag] (?own @ ?cmd) no_vars = Inr (?own @ command (Some ?cmd), no_vars)"
    by (simp add: api_flag_def flags ty command_def)
  moreover have "settings [nodes_flag] ?own no_vars (no_vars\<lparr>v_int := (\<lambda>_. 0)(7 := 3)\<rparr>)"
  proof (rule settings_unsigned)
    show "MustParseInt (f_name nodes_flag) (arg_text (Baked 7 ''3'')) 0 UINT_MAX = Inr 3"
      by (simp add: MustParseInt_def strtol_def isspace_def take_base_def is_digit_def digit_value_def digits_value_def
          LONG_MIN_def LONG_MAX_def UINT_MAX_def)
  qed (simp_all add: flags ty no_vars_def settings_none)
  moreover have "\<not> list_ex asks_for_help ?us" by (simp add: asks_for_help_def same_nocase_def tolower_def)
  moreover have "good_command (Some ?cmd)" by (simp add: good_command_def)
  ultimately show ?thesis
    unfolding ParseCommandLine_correct [OF bs] by auto
qed

end
