(* ===== verification/Imaginot.thy ===== *)
theory Imaginot
  imports Interrupts Parse
begin

text \<open>
  The program itself: \<^verbatim>\<open>NetGetHandle\<close> of \<^verbatim>\<open>doomnet.c\<close>, which finds the
  structure of the network driver in memory, and \<^verbatim>\<open>main\<close> of \<^verbatim>\<open>imaginot.c\<close>, which
  puts the command line, the protocol and the interrupts together.
\<close>

section \<open>The structure of the driver\<close>

definition load32 :: "memory \<Rightarrow> farptr \<Rightarrow> u32" where
  "load32 mem p = of_le32 (region mem p 4)"

definition load_short :: "memory \<Rightarrow> farptr \<Rightarrow> int" where
  "load_short mem p = sint (of_le16 (region mem p 2))"

text \<open>The fields at their offsets; \<^verbatim>\<open>long\<close> has four bytes and \<^verbatim>\<open>short\<close> two.\<close>

definition load_doomcom :: "memory \<Rightarrow> farptr \<Rightarrow> doomcom_t" where
  "load_doomcom mem p =
    (let s = (\<lambda>off. load_short mem (far_add p off))
     in \<lparr>dc_id = load32 mem p, dc_intnum = s 4, dc_command = s 6, dc_remotenode = s 8,
         dc_datalength = s 10, dc_numnodes = s 12, dc_ticdup = s 14, dc_extratics = s 16,
         dc_deathmatch = s 18, dc_savegame = s 20, dc_episode = s 22, dc_map = s 24,
         dc_skill = s 26, dc_consoleplayer = s 28, dc_numplayers = s 30, dc_angleoffset = s 32,
         dc_drone = s 34, dc_data = region mem (far_add p 36) DATA_SIZE\<rparr>)"

definition NetGetHandle :: "int \<Rightarrow> memory \<Rightarrow> stop + farptr" where
  "NetGetHandle l mem =
    (if l = 0 then Inl (Crash AssertFailed)
     else
       (let seg = word_of_int (drop_bit 4 l AND 0xf000);
            result = MK_FP seg (word_of_int (l AND 0xffff))
        in if load32 mem result = DOOMCOM_ID then Inr result else Inl (Crash AssertFailed)))"

lemma unat_word_of_int_u16: "0 \<le> x \<Longrightarrow> x < 65536 \<Longrightarrow> unat (word_of_int x :: u16) = nat x"
  by (simp add: unsigned_of_int take_bit_int_eq_self)

lemma handle_parts:
  assumes "0 \<le> l" and "l < 2 ^ 20"
  shows "unat (word_of_int (drop_bit 4 l AND 0xf000) :: u16) = nat l div 65536 * 4096"
    and "unat (word_of_int (l AND 0xffff) :: u16) = nat l mod 65536"
proof -
  have l: "take_bit 20 l = l" using assms by (simp add: take_bit_int_eq_self)
  have m: "(0xf000 :: int) = push_bit 12 (mask 4)" "(0xffff :: int) = mask 16"
    by (simp_all add: push_bit_eq_mult mask_eq_exp_minus_1)
  have "drop_bit 4 (take_bit 20 l) AND push_bit 12 (mask 4) = push_bit 12 (drop_bit 16 (take_bit 20 l))"
    by (rule bit_eqI) (auto simp: bit_simps add.commute)
  then have hi: "drop_bit 4 l AND 0xf000 = l div 65536 * 4096"
    unfolding l m(1) by (simp add: push_bit_eq_mult drop_bit_eq_div)
  have lo: "l AND 0xffff = l mod 65536" unfolding m(2) by (simp add: take_bit_eq_mask [symmetric] take_bit_eq_mod)
  have "l div 65536 < 16"
  proof -
    have "0 \<le> l mod 65536" "l < 1048576" using assms(2) by simp_all
    then show ?thesis using div_mult_mod_eq [of l 65536] by linarith
  qed
  then have less: "l div 65536 * 4096 < 65536" by simp
  then show "unat (word_of_int (drop_bit 4 l AND 0xf000) :: u16) = nat l div 65536 * 4096"
    unfolding hi using assms(1) less
    by (subst unat_word_of_int_u16) (simp_all add: nat_mult_distrib nat_div_distrib pos_imp_zdiv_nonneg_iff)
  show "unat (word_of_int (l AND 0xffff) :: u16) = nat l mod 65536"
    unfolding lo using assms(1) by (subst unat_word_of_int_u16) (simp_all add: nat_mod_distrib)
qed
section \<open>\<^verbatim>\<open>main\<close>\<close>

text \<open>The variables the flags set are number 0 (\<^verbatim>\<open>fake_players\<close>) and number 1
  (\<^verbatim>\<open>no_mem_patch\<close>); the callback \<^verbatim>\<open>SetDoomcomAddr\<close> has number 0.\<close>

definition register_flags :: "flag list outcome" where
  "register_flags =
    obind (APIPointerFlag ''-net'' 0 []) (\<lambda>fl.
    obind (BoolFlag ''-fakeplayers'' 0 ''Simulate four player game'' fl) (\<lambda>fl.
      BoolFlag ''-nomempatch'' 1 (''Don'' @ [CHR 0x27] @ ''t patch Sopwith memory to fix bugs'') fl))"

definition static_vars :: vars where
  "static_vars = \<lparr>v_int = (\<lambda>_. 0), v_str = (\<lambda>_. None), v_calls = []\<rparr>"

text \<open>The address after all calls of \<^verbatim>\<open>SetDoomcomAddr\<close>.\<close>

definition doomcom_addr :: "vars \<Rightarrow> int" where
  "doomcom_addr v = fold (\<lambda>(callback, l) addr. if callback = 0 then l else addr) (v_calls v) 0"

fun lift :: "'a outcome \<Rightarrow> stop + 'a" where
  "lift (Done x) = Inr x"
| "lift (Fault e) = Inl (Crash e)"
| "lift Blocked = Inl (Crash AssertFailed)"

text \<open>The state of the program with the variables that were set.\<close>

definition with_flags :: "vars \<Rightarrow> world \<Rightarrow> world" where
  "with_flags v w = w\<lparr>w_proto := (w_proto w)\<lparr>fake_players := sint (v_int v 0)\<rparr>, no_mem_patch := sint (v_int v 1)\<rparr>"

text \<open>\<^verbatim>\<open>main\<close> up to the call of \<^verbatim>\<open>spawnv\<close>: the command it starts and the state then,
  or how it stops. No call it makes waits (\<open>Blocked\<close>). After the command has ended
  \<^verbatim>\<open>RestoreDiskInterrupts\<close> runs.\<close>

definition main :: "string \<Rightarrow> files \<Rightarrow> string list \<Rightarrow> world \<Rightarrow> (stop + arg list) \<times> world" where
  "main config fs argv w =
    (case ebind (lift register_flags) (\<lambda>fl. ParseCommandLine fl config fs argv static_vars) of
       Inl e \<Rightarrow> (Inl e, w)
     | Inr (args, v) \<Rightarrow>
         (let w1 = with_flags v w
          in case args of
               None \<Rightarrow> (Inl (ErrorPrintUsage NoCommand), w1)
             | Some cmd \<Rightarrow>
                 if doomcom_addr v = 0 then (Inl (ErrorPrintUsage NoDriver), w1)
                 else
                   (case ebind (NetGetHandle (doomcom_addr v) (w_mem w1)) (\<lambda>doomcom.
                        lift (InitProtocol (load_doomcom (w_mem w1) doomcom) (w_proto w1))) of
                      Inl e \<Rightarrow> (Inl e, w1)
                    | Inr p \<Rightarrow> (Inr cmd, HookDiskInterrupts (w1\<lparr>w_proto := p\<rparr>)))))"

section \<open>Lemmas\<close>

lemma handle_phys:
  assumes "0 \<le> l" and "l < 2 ^ 20" and "k < 65536"
  shows "phys (far_add (word_of_int (drop_bit 4 l AND 0xf000), word_of_int (l AND 0xffff)) k)
    = (if nat l mod 65536 + k < 65536 then nat l + k else nat l + k - 65536)"
proof -
  define lo hi where "lo = nat l mod 65536" and "hi = nat l div 65536"
  then have l: "nat l = hi * 65536 + lo" and lo: "lo < 65536" by simp_all
  have "nat l < 1048576" using assms(2) by (simp add: nat_less_iff)
  with l have hi: "hi < 16" by linarith
  have parts: "unat (word_of_int (drop_bit 4 l AND 0xf000) :: u16) = hi * 4096"
    "unat (word_of_int (l AND 0xffff) :: u16) = lo"
    using handle_parts [OF assms(1,2)] by (simp_all add: lo_def hi_def)
  have off: "unat (word_of_int (l AND 0xffff) + word_of_nat k :: u16) = (if lo + k < 65536 then lo + k else lo + k - 65536)"
    using parts(2) assms(3) lo by (simp add: unat_word_ariths mod_if)
  have "phys (far_add (word_of_int (drop_bit 4 l AND 0xf000), word_of_int (l AND 0xffff)) k)
      = (hi * 65536 + (if lo + k < 65536 then lo + k else lo + k - 65536)) mod 2 ^ 20"
    unfolding phys_def far_add_def fst_conv snd_conv off parts(1) by (simp add: mult.commute)
  also have "\<dots> = hi * 65536 + (if lo + k < 65536 then lo + k else lo + k - 65536)"
    using hi lo assms(3) by (intro mod_less) auto
  finally show ?thesis unfolding l using lo by (auto simp: mod_less split: if_splits)
qed

lemma DoParseArgs_good:
  assumes "DoParseArgs fl args v = Inr (res, v')"
  shows "good_command res"
proof (cases args)
  case Nil
  with assms have "res = None"
    by (simp add: DoParseArgs_def StripAPIPointers_def strip_loop.simps parse_loop.simps)
  then show ?thesis by (simp add: good_command_def)
qed (use assms DoParseArgs_iff in blast)

lemma ParseCommandLine_good:
  "ParseCommandLine fl config fs argv v = Inr (res, v') \<Longrightarrow> good_command res"
  by (auto simp: ParseCommandLine_def ebind_eq_Inr dest: DoParseArgs_good split: if_splits)

text \<open>The flags of the program.\<close>

definition the_flags :: "flag list" where
  "the_flags =
    [\<lparr>f_type = FLAG_API_POINTER, f_name = ''-net'', f_param = Some ''flataddr'', f_help = None, f_value = 0\<rparr>,
     \<lparr>f_type = FLAG_BOOL, f_name = ''-fakeplayers'', f_param = None,
       f_help = Some ''Simulate four player game'', f_value = 0\<rparr>,
     \<lparr>f_type = FLAG_BOOL, f_name = ''-nomempatch'', f_param = None,
       f_help = Some (''Don'' @ [CHR 0x27] @ ''t patch Sopwith memory to fix bugs''), f_value = 1\<rparr>]"

lemma register_flags_eq: "register_flags = Done the_flags"
  by (simp add: register_flags_def the_flags_def APIPointerFlag_def BoolFlag_def NewFlag_def set_new_def MAX_FLAGS_def)

lemma find_flag:
  "FindFlagForName the_flags ''-net'' = Some (the_flags ! 0)"
  "FindFlagForName the_flags ''sopwith2'' = None"
  "FindFlagForName the_flags ''-db'' = None"
  by (simp_all add: FindFlagForName_def the_flags_def same_nocase_def tolower_def)

lemma flag_net: "f_type (the_flags ! 0) = FLAG_API_POINTER" "f_value (the_flags ! 0) = 0"
  by (simp_all add: the_flags_def)

lemma digit_not: "is_digit 10 c \<Longrightarrow> c \<noteq> CHR ''@'' \<and> c \<noteq> CHR ''/'' \<and> tolower c \<noteq> CHR ''-''"
  by (auto simp: is_digit_value digit_value_def dest: tolower_nonletter)

lemma no_help_number: "\<not> asks_for_help (decimal n)"
proof -
  obtain c cs where c: "decimal n = c # cs" by (cases "decimal n") auto
  then have "is_digit 10 c" using char0_decimal [of n] by simp
  with digit_not [OF this] show ?thesis by (simp add: asks_for_help_def same_nocase_def c tolower_def [of "CHR ''-''"])
qed

lemma lift_eq_Inr: "lift x = Inr y \<longleftrightarrow> x = Done y"
  by (cases x) auto

lemma with_flags_simps [simp]:
  "w_mem (with_flags v w) = w_mem w" "w_pc (with_flags v w) = w_pc w" "hooked (with_flags v w) = hooked w"
  "w_out (with_flags v w) = w_out w"
  by (simp_all add: with_flags_def)

lemma main_success:
  assumes "main config fs argv w = (Inr cmd, w')"
  obtains v q p where "ParseCommandLine the_flags config fs argv static_vars = Inr (Some cmd, v)"
    and "NetGetHandle (doomcom_addr v) (w_mem w) = Inr p"
    and "InitProtocol (load_doomcom (w_mem w) p) (w_proto (with_flags v w)) = Done q"
    and "w' = HookDiskInterrupts ((with_flags v w)\<lparr>w_proto := q\<rparr>)"
  using assms
  by (auto simp: main_def register_flags_eq Let_def ebind_eq_Inr lift_eq_Inr
      split: sum.splits option.splits if_splits)

section \<open>The program as it is shipped\<close>

text \<open>The build bakes the command \<^verbatim>\<open>sopwith2 -db\<close> into the program; the driver starts it
  with the flag \<^verbatim>\<open>-net\<close> and the address.\<close>

definition shipped_config :: "string \<Rightarrow> string" where
  "shipped_config padding = bake [''sopwith2'', ''-db''] @ padding"

lemma shipped_parse:
  assumes "0 < n" and "int n \<le> LONG_MAX"
  shows "ParseCommandLine the_flags (shipped_config padding) fs [prog, ''-net'', decimal n] static_vars
    = Inr (Some [Baked 0 ''sopwith2'', Baked 9 ''-db''], static_vars\<lparr>v_calls := [(0, int n)]\<rparr>)"
proof -
  let ?d = "decimal n" and ?argv = "argv_list [prog, ''-net'', decimal n]"
  let ?sop = "Baked 0 ''sopwith2''" and ?db = "Baked 9 ''-db''" and ?net = "Argv 1 ''-net''" and ?num = "Argv 2 (decimal n)"
  have argv: "?argv = [Argv 0 prog, ?net, ?num]" by (simp add: argv_list_def)
  have at: "char0 ?d \<noteq> CHR ''@''"
    using digit_not [OF char0_decimal [of n]] by simp
  have no_help: "\<not> list_ex asks_for_help (drop 1 [prog, ''-net'', ?d])"
    using no_help_number by (simp add: asks_for_help_def same_nocase_def tolower_def)
  have baked: "AppendBakedInArgs (shipped_config padding) [Argv 0 prog] = Inr [Argv 0 prog, ?sop, ?db]"
    using baked_loop_bake [of "[''sopwith2'', ''-db'']" "[]" padding "[Argv 0 prog]"]
    by (simp add: AppendBakedInArgs_def shipped_config_def NUL_def)
  have expand: "ExpandResponseArgs fs [Argv 0 prog, ?sop, ?db, ?net, ?num] = Inr [Argv 0 prog, ?sop, ?db, ?net, ?num]"
    using at by (simp add: ExpandResponseArgs_args expand_plain)
  have have_baked: "HAVE_BAKED_IN_CONFIG (shipped_config padding)"
    by (simp add: HAVE_BAKED_IN_CONFIG_def shipped_config_def bake_def NUL_def)
  have callee: "IdentifyCallee the_flags ?argv = None"
    unfolding argv by (simp add: IdentifyCallee_def find_flag flag_net)
  have sorted: "ReorderArgsForBakedIn the_flags [Argv 0 prog, ?sop, ?db, ?net, ?num] None
      = [Argv 0 prog, ?net, ?num, ?sop, ?db]"
    using ReorderArgsForBakedIn_split [of the_flags "Argv 0 prog" "[?sop, ?db, ?net, ?num]" None]
    by (simp add: callee_first_def find_flag flag_net Let_def)
  have api: "api_flag the_flags ?net = Some (the_flags ! 0)" "api_flag the_flags ?sop = None"
    "api_flag the_flags ?db = None"
    by (simp_all add: api_flag_def find_flag flag_net)
  have strip: "strip_args the_flags [?net, ?num, ?sop, ?db] static_vars
      = Inr ([] @ command (Some [?sop, ?db]), static_vars\<lparr>v_calls := [(0, int n)]\<rparr>)"
    using api assms by (simp add: strtol_decimal_10 flag_net command_def) (simp add: static_vars_def)
  have "DoParseArgs the_flags [Argv 0 prog, ?net, ?num, ?sop, ?db] static_vars
      = Inr (Some [?sop, ?db], static_vars\<lparr>v_calls := [(0, int n)]\<rparr>)"
    unfolding DoParseArgs_iff using strip by (auto intro: settings_none simp: good_command_def)
  then show ?thesis
    using no_help baked expand have_baked callee sorted
    by (simp add: ParseCommandLine_def argv AppendArgList_def)
qed

lemma shipped_main:
  assumes "0 < n" and "int n \<le> LONG_MAX" and "NetGetHandle (int n) (w_mem w) = Inr p"
    and "InitProtocol (load_doomcom (w_mem w) p) ((w_proto w)\<lparr>fake_players := 0\<rparr>) = Done q"
  shows "main (shipped_config padding) fs [prog, ''-net'', decimal n] w =
    (Inr [Baked 0 ''sopwith2'', Baked 9 ''-db''], HookDiskInterrupts (w\<lparr>no_mem_patch := 0, w_proto := q\<rparr>))"
proof -
  define v where "v = static_vars\<lparr>v_calls := [(0, int n)]\<rparr>"
  have v: "doomcom_addr v = int n" "with_flags v w = w\<lparr>w_proto := (w_proto w)\<lparr>fake_players := 0\<rparr>, no_mem_patch := 0\<rparr>"
    by (simp_all add: v_def doomcom_addr_def with_flags_def static_vars_def)
  show ?thesis
    using assms shipped_parse [OF assms(1,2), of padding fs prog]
    by (simp add: main_def register_flags_eq v_def [symmetric] v)
qed

text \<open>A machine with the structure of a driver for two players at the linear address 10000h.\<close>

definition driver_memory :: memory where
  "driver_memory a =
    (if a = 0x10000 then 0x78 else if a = 0x10001 then 0x56 else if a = 0x10002 then 0x34
     else if a = 0x10003 then 0x12 else if a = 0x1000c \<or> a = 0x1001e then 2 else 0)"

definition driver_world :: world where
  "driver_world = sample_world\<lparr>w_mem := driver_memory\<rparr>"

lemma mread_driver: "k < 65536 \<Longrightarrow> mread driver_memory (far_add (0x1000, 0) k) = driver_memory (65536 + k)"
  by (simp add: mread_def phys_def far_add_def)

lemma driver_handle: "NetGetHandle 65536 (w_mem driver_world) = Inr (0x1000, 0)"
proof -
  have "[0..<4] = [0, 1, 2, 3 :: nat]" by code_simp
  then have "region driver_memory (0x1000, 0) 4 = [0x78, 0x56, 0x34, 0x12]"
    using mread_driver [of 0] mread_driver [of 1] mread_driver [of 2] mread_driver [of 3]
    by (simp add: region_def driver_memory_def)
  then have "load32 driver_memory (0x1000, 0) = DOOMCOM_ID"
    unfolding load32_def by (simp only:) (simp add: of_le32_def DOOMCOM_ID_def)
  then show ?thesis by (simp add: NetGetHandle_def driver_world_def MK_FP_def Let_def)
qed

lemma driver_init: "\<exists>q. InitProtocol (load_doomcom (w_mem driver_world) (0x1000, 0))
    ((w_proto driver_world)\<lparr>fake_players := 0\<rparr>) = Done q"
proof -
  have short: "load_short driver_memory (far_add (0x1000, 0) off)
      = sint (of_le16 [driver_memory (65536 + off), driver_memory (65537 + off)])" if "off < 65535" for off
    using mread_driver [of off] mread_driver [of "off + 1"] that
    by (simp add: load_short_def region_def upt_rec)
  have "load_short driver_memory (far_add (0x1000, 0) 12) = 2"
    "load_short driver_memory (far_add (0x1000, 0) 28) = 0"
    "load_short driver_memory (far_add (0x1000, 0) 30) = 2"
    by (simp_all add: short driver_memory_def of_le16_def)
  then show ?thesis
    by (simp add: InitProtocol_def load_doomcom_def driver_world_def Let_def MAX_PLAYERS_def)
qed

section \<open>Properties\<close>

text \<open>C40: \<^verbatim>\<open>NetGetHandle\<close> makes a far pointer to the linear address it is given, and it stops
  unless the structure there begins with the identification of a driver. The pointer reaches from
  its address to the end of a 64 KB page: what lies behind that is read 64 KB below instead, so
  that a structure across the end of a page is not seen as it is.\<close>

theorem NetGetHandle_correct:
  assumes "0 \<le> l" and "l < 2 ^ 20" and "k < 65536"
  shows "case NetGetHandle l mem of
      Inr p \<Rightarrow> l \<noteq> 0 \<and> load32 mem p = DOOMCOM_ID
        \<and> phys (far_add p k) = (if nat l mod 65536 + k < 65536 then nat l + k else nat l + k - 65536)
    | Inl e \<Rightarrow> e = Crash AssertFailed"
  using handle_phys [OF assms] by (simp add: NetGetHandle_def MK_FP_def Let_def split: sum.split)

theorem NetGetHandle_correct_witness:
  "NetGetHandle 65536 (w_mem driver_world) = Inr (0x1000, 0) \<and> phys (far_add (0x1000, 0) 30) = 65566
    \<and> load32 (w_mem driver_world) (0x1000, 0) = DOOMCOM_ID"
  using NetGetHandle_correct [of 65536 30 "w_mem driver_world"] by (simp add: driver_handle)

text \<open>C31: how the program ends before the command runs, or starts it. It stops without having
  touched an interrupt vector or the memory of any program; or it starts a command, which is not
  a flag, with the three handlers installed and the protocol set up for a driver with a valid
  number of players, and after the command, whatever it did with the vectors, the three vectors
  are what they were before the program, and what has been printed are the two messages, the second
  with the counters of the state at the end. (No other vector is changed; the \<^verbatim>\<open>README\<close> says
  that interrupt 21h is hooked too.)\<close>

theorem main_outcome:
  assumes "main config fs argv w = (r, w')" and "\<not> hooked w"
  shows "case r of
      Inl e \<Rightarrow> w_pc w' = w_pc w \<and> w_mem w' = w_mem w \<and> \<not> hooked w' \<and> w_out w' = w_out w
    | Inr cmd \<Rightarrow> cmd \<noteq> [] \<and> char0 (arg_text (hd cmd)) \<noteq> CHR ''-''
        \<and> dc_id (doomcom (w_proto w')) = DOOMCOM_ID
        \<and> 1 < dc_numplayers (doomcom (w_proto w')) \<and> dc_numplayers (doomcom (w_proto w')) \<le> int MAX_PLAYERS
        \<and> int (consoleplayer (w_proto w')) < dc_numplayers (doomcom (w_proto w'))
        \<and> ivt (w_pc w') = (ivt (w_pc w))(0x13 := Int13, 0x25 := Int25, 0x26 := Int26)
        \<and> (\<forall>w2. int_step\<^sup>*\<^sup>* w' w2 \<longrightarrow> ivt (w_pc (RestoreDiskInterrupts w2)) = (ivt (w_pc w2))
             (0x13 := ivt (w_pc w) 0x13, 0x25 := ivt (w_pc w) 0x25, 0x26 := ivt (w_pc w) 0x26)
           \<and> w_out (RestoreDiskInterrupts w2) = w_out w @ hooked_text @ restored_text w2)"
proof (cases "\<exists>cmd. r = Inr cmd")
  case False
  with assms show ?thesis
    by (auto simp: main_def Let_def with_flags_def split: sum.splits option.splits if_splits)
next
  case True
  then obtain cmd where r: "r = Inr cmd" by blast
  from assms(1) [unfolded r] show ?thesis
  proof (rule main_success)
    fix v q p
    assume parse: "ParseCommandLine the_flags config fs argv static_vars = Inr (Some cmd, v)"
      and handle: "NetGetHandle (doomcom_addr v) (w_mem w) = Inr p"
      and init: "InitProtocol (load_doomcom (w_mem w) p) (w_proto (with_flags v w)) = Done q"
      and w': "w' = HookDiskInterrupts ((with_flags v w)\<lparr>w_proto := q\<rparr>)"
    let ?w = "(with_flags v w)\<lparr>w_proto := q\<rparr>"
    have h: "\<not> hooked ?w" "w_pc ?w = w_pc w" using assms(2) by simp_all
    have id: "dc_id (load_doomcom (w_mem w) p) = DOOMCOM_ID"
      using handle by (auto simp: load_doomcom_def NetGetHandle_def Let_def split: if_splits)
    have q: "doomcom q = load_doomcom (w_mem w) p" "1 < dc_numplayers (doomcom q)"
      "dc_numplayers (doomcom q) \<le> int MAX_PLAYERS" "int (consoleplayer q) < dc_numplayers (doomcom q)"
      using init by (auto simp: InitProtocol_def Let_def split: if_splits)
    have proto: "w_proto w' = q" using h by (simp add: w' HookDiskInterrupts_def Let_def)
    have cmd: "cmd \<noteq> []" "char0 (arg_text (hd cmd)) \<noteq> CHR ''-''"
      using ParseCommandLine_good [OF parse] by (simp_all add: good_command_def)
    have ivt': "ivt (w_pc w') = (ivt (w_pc w))(0x13 := Int13, 0x25 := Int25, 0x26 := Int26)"
      using h by (simp add: w' HookDiskInterrupts_def Let_def dos_setvect_def)
    have "ivt (w_pc (RestoreDiskInterrupts w2)) = (ivt (w_pc w2))
             (0x13 := ivt (w_pc w) 0x13, 0x25 := ivt (w_pc w) 0x25, 0x26 := ivt (w_pc w) 0x26)
        \<and> w_out (RestoreDiskInterrupts w2) = w_out w @ hooked_text @ restored_text w2"
      if "int_step\<^sup>*\<^sup>* w' w2" for w2
    proof -
      have "w_out w' = w_out w @ hooked_text" using h(1) by (simp add: w' HookDiskInterrupts_def Let_def)
      with vectors_kept [OF h(1) that [unfolded w']] int_steps_out [OF that] h(2) show ?thesis
        by (simp add: old_vectors_def RestoreDiskInterrupts_def dos_setvect_def)
    qed
    then show ?thesis using r id q proto cmd ivt' by simp
  qed
qed

lemma driver_run:
  "\<exists>w'. main (shipped_config []) fs [''imaginot'', ''-net'', decimal 65536] driver_world
    = (Inr [Baked 0 ''sopwith2'', Baked 9 ''-db''], w')"
  using driver_init driver_handle shipped_main [of 65536 driver_world "(0x1000, 0)"]
  by (auto simp: LONG_MAX_def)

theorem main_outcome_witness:
  "\<exists>w'. main (shipped_config []) Map.empty [''imaginot'', ''-net'', decimal 65536] driver_world
      = (Inr [Baked 0 ''sopwith2'', Baked 9 ''-db''], w')
    \<and> ivt (w_pc w') 0x13 = Int13 \<and> ivt (w_pc (RestoreDiskInterrupts w')) 0x13 = ivt (w_pc driver_world) 0x13"
proof -
  obtain w' where run: "main (shipped_config []) Map.empty [''imaginot'', ''-net'', decimal 65536] driver_world
      = (Inr [Baked 0 ''sopwith2'', Baked 9 ''-db''], w')" using driver_run by blast
  have "\<not> hooked driver_world" by (simp add: driver_world_def sample_world_def)
  from main_outcome [OF run this] run show ?thesis
    by (intro exI [of _ w']) (simp add: rtranclp.rtrancl_refl)
qed

text \<open>C32: the program as it is shipped, with \<^verbatim>\<open>sopwith2 -db\<close> baked in and started by a
  driver with the address of its structure, starts the game with that command and no other
  argument, with the handlers installed.\<close>

theorem shipped_program:
  assumes "0 < n" and "int n \<le> LONG_MAX" and "NetGetHandle (int n) (w_mem w) = Inr p"
    and "InitProtocol (load_doomcom (w_mem w) p) ((w_proto w)\<lparr>fake_players := 0\<rparr>) = Done q"
  shows "main (bake [''sopwith2'', ''-db''] @ padding) fs [prog, ''-net'', decimal n] w =
    (Inr [Baked 0 ''sopwith2'', Baked 9 ''-db''], HookDiskInterrupts (w\<lparr>no_mem_patch := 0, w_proto := q\<rparr>))"
  using shipped_main [OF assms] by (simp add: shipped_config_def)

theorem shipped_program_witness:
  "fst (main (bake [''sopwith2'', ''-db''] @ [NUL, NUL]) Map.empty [''imaginot'', ''-net'', decimal 65536] driver_world)
    = Inr [Baked 0 ''sopwith2'', Baked 9 ''-db'']"
proof -
  obtain q where q: "InitProtocol (load_doomcom (w_mem driver_world) (0x1000, 0))
      ((w_proto driver_world)\<lparr>fake_players := 0\<rparr>) = Done q" using driver_init by blast
  have n: "0 < (65536 :: nat)" "int 65536 \<le> LONG_MAX" "NetGetHandle (int 65536) (w_mem driver_world) = Inr (0x1000, 0)"
    using driver_handle by (simp_all add: LONG_MAX_def)
  from shipped_program [OF n q] show ?thesis by simp
qed

end
