(* ===== verification/Session.thy ===== *)
theory Session
  imports Gameplay Imaginot
begin

text \<open>
  The whole program on several machines at once: every machine has been started by
  \<^verbatim>\<open>main\<close>, its game calls the disk interrupts in any order, and a call that waits inside
  \<^verbatim>\<open>SwapCommand\<close> is interleaved with what the other machines and the network do.
\<close>

section \<open>Calls that write a sector\<close>

text \<open>The two calls that write to the emulated drive, with their registers: interrupt 13h with
  function 3 for drive B, and interrupt 26h for drive B.\<close>

datatype call = BiosWrite regs | DosWrite regs

fun is_call :: "call \<Rightarrow> bool" where
  "is_call (BiosWrite r) = (r_ah r = 3 \<and> r_dl r = 1)"
| "is_call (DosWrite r) = (r_al r = 1)"

text \<open>What happens before \<^verbatim>\<open>WriteSector\<close> is called, its arguments, and the registers
  afterwards.\<close>

fun enter_call :: "call \<Rightarrow> world \<Rightarrow> world outcome" where
  "enter_call (BiosWrite r) w = obind (ReceivePackets (w_proto w)) (\<lambda>p.
     Done (w\<lparr>w_proto := p, int13_count := int13_count w + 1\<rparr>))"
| "enter_call (DosWrite r) w =
     Done (w\<lparr>int26_count := int26_count w + 1, w_pc := dos_setvect 0x13 Int13 (w_pc w)\<rparr>)"

fun call_buffer :: "call \<Rightarrow> farptr" where
  "call_buffer (BiosWrite r) = MK_FP (r_es r) (r_bx r)"
| "call_buffer (DosWrite r) = MK_FP (r_ds r) (r_bx r)"

fun call_sector :: "call \<Rightarrow> u32" where
  "call_sector (BiosWrite r) = bios_sector r"
| "call_sector (DosWrite r) = ucast (dx r)"

fun call_count :: "call \<Rightarrow> u16" where
  "call_count (BiosWrite r) = ucast (r_al r)"
| "call_count (DosWrite r) = r_cx r"

fun call_result :: "call \<Rightarrow> bool \<Rightarrow> regs" where
  "call_result (BiosWrite r) ok = bios_result ok r"
| "call_result (DosWrite r) ok = dos_result ok r"

text \<open>The write itself, over the operation that exchanges the commands.\<close>

definition write_at_with ::
  "(u16 \<Rightarrow> u16 list \<Rightarrow> protocol \<Rightarrow> (bool \<times> u16 list \<times> protocol) outcome) \<Rightarrow>
    farptr \<Rightarrow> u32 \<Rightarrow> u16 \<Rightarrow> world \<Rightarrow> (bool \<times> world) outcome" where
  "write_at_with swap buf sector cnt w =
    obind (WriteSector_with swap (w_proto w) (region (w_mem w) buf 512) sector cnt (w_disk w)) (\<lambda>(b, data, d, p).
      Done (b, w\<lparr>w_mem := mstore buf data (w_mem w), w_disk := d, w_proto := p\<rparr>))"

definition finish_call ::
  "(u16 \<Rightarrow> u16 list \<Rightarrow> protocol \<Rightarrow> (bool \<times> u16 list \<times> protocol) outcome) \<Rightarrow>
    call \<Rightarrow> world \<Rightarrow> (regs \<times> world) outcome" where
  "finish_call swap c w = obind (write_at_with swap (call_buffer c) (call_sector c) (call_count c) w)
     (\<lambda>(ok, w'). Done (call_result c ok, w'))"

lemma write_at_swap: "write_at = write_at_with SwapCommand"
  by (simp add: fun_eq_iff write_at_def write_at_with_def WriteSector_def)

text \<open>The handlers are these parts, one after the other.\<close>

definition run_call :: "call \<Rightarrow> world \<Rightarrow> (isr_end \<times> regs \<times> world) outcome" where
  "run_call c w = (case c of BiosWrite r \<Rightarrow> run_int13 r w | DosWrite r \<Rightarrow> run_int26 r w)"

lemma run_call_parts:
  assumes "is_call c"
  shows "run_call c w = obind (enter_call c w) (\<lambda>w1.
    obind (finish_call SwapCommand c w1) (\<lambda>(r', w'). Done (Returns, r', w')))"
proof (cases c)
  case (BiosWrite r)
  with assms have "r_ah r = 3" "r_dl r = 1" by auto
  then show ?thesis
    by (cases "ReceivePackets (w_proto w)")
      (auto simp: BiosWrite run_call_def run_int13_def RealInt13_def Let_def write_at_swap finish_call_def obind_assoc
        split_def)
next
  case (DosWrite r)
  with assms have "r_al r = 1" by simp
  then show ?thesis
    by (auto simp: DosWrite run_call_def run_int26_def Let_def write_at_swap finish_call_def obind_assoc split_def)
qed


section \<open>Sessions\<close>

text \<open>The machines; the call of \<^verbatim>\<open>SwapCommand\<close> each is waiting in, if any; and what the
  games have seen of it: the commands they have written to the data sector, and the contents of the
  key array in their buffers when the write had returned.\<close>

record session =
  worlds :: "nat \<Rightarrow> world"
  pending :: "nat \<Rightarrow> call option"
  given :: "nat \<Rightarrow> u16 list"
  seen :: "nat \<Rightarrow> u16 list list"

definition buffer_keys :: "call \<Rightarrow> world \<Rightarrow> u16 list" where
  "buffer_keys c w = mu_key (dec_multio (region (w_mem w) (call_buffer c) 512))"

text \<open>The write that exchanges commands: one sector, the data sector, after the player has joined.\<close>

definition exchanges :: "call \<Rightarrow> world \<Rightarrow> bool" where
  "exchanges c w \<longleftrightarrow> call_count c = 1 \<and> call_sector c = SECTOR_SOPWITH1 \<and> STATE_INIT < dstate (w_disk w)
     \<and> \<not> maketic (w_proto w) - gametic (w_proto w) \<ge> of_nat MAX_DELAY"

text \<open>The machines as a game of theory \<^verbatim>\<open>Game\<close>, for what the network can deliver.\<close>

definition network :: "session \<Rightarrow> game" where
  "network S = \<lparr>machines = \<lambda>m. w_proto (worlds S m), swapping = \<lambda>m. pending S m \<noteq> None,
     typed = given S, played = seen S\<rparr>"

definition set_world :: "nat \<Rightarrow> world \<Rightarrow> session \<Rightarrow> session" where
  "set_world m w S = S\<lparr>worlds := (worlds S)(m := w)\<rparr>"

text \<open>
  One step of one machine: its driver gets new answers and the clock moves on; its game, and other
  programs, change memory and vectors; a disk interrupt that exchanges no commands runs; a write
  that does starts, and registers the command; the waiting loop polls the driver once; and the
  write returns with the commands of all players. Of a machine that waits only the network and the
  loop go on.
\<close>

inductive session_step :: "nat \<Rightarrow> (nat \<Rightarrow> nat \<Rightarrow> nat) \<Rightarrow> session \<Rightarrow> session \<Rightarrow> bool"
  for N :: nat and idx :: "nat \<Rightarrow> nat \<Rightarrow> nat" where
  input: "m < N \<Longrightarrow> \<forall>a \<in> set as. deliverable N idx (network S) m a \<Longrightarrow> w = worlds S m \<Longrightarrow>
    session_step N idx S (set_world m (w\<lparr>w_proto := (w_proto w)
      \<lparr>driver := (driver (w_proto w))\<lparr>answers := as\<rparr>, clock := c\<rparr>\<rparr>) S)"
| program: "m < N \<Longrightarrow> pending S m = None \<Longrightarrow>
    session_step N idx S (set_world m ((worlds S m)\<lparr>w_pc := pc', w_mem := mem'\<rparr>) S)"
| int13: "m < N \<Longrightarrow> pending S m = None \<Longrightarrow> \<not> is_call (BiosWrite r) \<Longrightarrow>
    run_int13 r (worlds S m) = Done (e, r', w') \<Longrightarrow> session_step N idx S (set_world m w' S)"
| int25: "m < N \<Longrightarrow> pending S m = None \<Longrightarrow>
    run_int25 r (worlds S m) = Done (e, r', w') \<Longrightarrow> session_step N idx S (set_world m w' S)"
| int26: "m < N \<Longrightarrow> pending S m = None \<Longrightarrow> \<not> is_call (DosWrite r) \<Longrightarrow>
    run_int26 r (worlds S m) = Done (e, r', w') \<Longrightarrow> session_step N idx S (set_world m w' S)"
| write_other: "m < N \<Longrightarrow> pending S m = None \<Longrightarrow> is_call c \<Longrightarrow> enter_call c (worlds S m) = Done w \<Longrightarrow>
    \<not> exchanges c w \<Longrightarrow> finish_call SwapCommand c w = Done (r', w') \<Longrightarrow>
    session_step N idx S (set_world m w' S)"
| write_begin: "m < N \<Longrightarrow> pending S m = None \<Longrightarrow> is_call c \<Longrightarrow> enter_call c (worlds S m) = Done w \<Longrightarrow>
    exchanges c w \<Longrightarrow> cmd = buffer_keys c w ! consoleplayer (w_proto w) \<Longrightarrow>
    swap_register cmd (w_proto w) = Done p \<Longrightarrow>
    session_step N idx S ((set_world m (w\<lparr>w_proto := p\<rparr>) S)
      \<lparr>pending := (pending S)(m := Some c), given := (given S)(m := given S m @ [cmd])\<rparr>)"
| write_poll: "m < N \<Longrightarrow> pending S m = Some c \<Longrightarrow> \<not> NewTicReady (w_proto (worlds S m)) \<Longrightarrow>
    ReceivePackets (w_proto (worlds S m)) = Done p \<Longrightarrow>
    session_step N idx S (set_world m ((worlds S m)\<lparr>w_proto := p\<rparr>) S)"
| write_end: "m < N \<Longrightarrow> pending S m = Some c \<Longrightarrow> NewTicReady (w_proto (worlds S m)) \<Longrightarrow>
    swap_collect (w_proto (worlds S m)) = Done (cs, p) \<Longrightarrow>
    finish_call (\<lambda>_ _ _. Done (True, cs, p)) c (worlds S m) = Done (r', w') \<Longrightarrow>
    session_step N idx S ((set_world m w' S)
      \<lparr>pending := (pending S)(m := None), seen := (seen S)(m := seen S m @ [buffer_keys c w'])\<rparr>)"

text \<open>How a program starts, and the start of a session: \<^verbatim>\<open>main\<close> has started the game on
  every machine.\<close>

definition program_start :: "world \<Rightarrow> bool" where
  "program_start w \<longleftrightarrow> (\<exists>dc c. w_proto w = static_protocol 0 dc idle_driver c) \<and> w_disk w = static_disk
     \<and> \<not> hooked w \<and> \<not> applied_patches w"

definition session_start :: "nat \<Rightarrow> (nat \<Rightarrow> nat \<Rightarrow> nat) \<Rightarrow> (nat \<Rightarrow> nat) \<Rightarrow> session \<Rightarrow> bool" where
  "session_start N idx pl S \<longleftrightarrow> topology N idx pl
     \<and> pending S = (\<lambda>_. None) \<and> given S = (\<lambda>_. []) \<and> seen S = (\<lambda>_. [])
     \<and> (\<forall>m < N. (\<exists>config fs argv cmd w. program_start w \<and> main config fs argv w = (Inr cmd, worlds S m))
          \<and> dc_numnodes (doomcom (w_proto (worlds S m))) = int N
          \<and> consoleplayer (w_proto (worlds S m)) = pl m)"

abbreviation reachable_session :: "nat \<Rightarrow> (nat \<Rightarrow> nat \<Rightarrow> nat) \<Rightarrow> (nat \<Rightarrow> nat) \<Rightarrow> session \<Rightarrow> bool" where
  "reachable_session N idx pl \<equiv> reach (session_start N idx pl) (session_step N idx)"

lemma set_world_twice [simp]: "set_world m w (set_world m v S) = set_world m w S"
  by (simp add: set_world_def)

lemma set_world_simps [simp]:
  "worlds (set_world m w S) = (worlds S)(m := w)" "pending (set_world m w S) = pending S"
  "given (set_world m w S) = given S" "seen (set_world m w S) = seen S"
  by (simp_all add: set_world_def)

section \<open>The game behind a session\<close>

text \<open>The game that a session plays: its machines are those of the session, and the commands played
  are those that the players have seen.\<close>

definition plays :: "nat \<Rightarrow> session \<Rightarrow> game \<Rightarrow> nat \<Rightarrow> bool" where
  "plays N S g m \<longleftrightarrow> machines g m = w_proto (worlds S m) \<and> swapping g m = (pending S m \<noteq> None)
     \<and> typed g m = given S m \<and> tics g m = length (seen S m)
     \<and> num_nodes (machines g m) = N \<and> consoleplayer (machines g m) < num_players (machines g m)
     \<and> num_players (machines g m) \<le> MAX_PLAYERS
     \<and> (\<forall>t < tics g m. \<forall>p < num_players (machines g m). seen S m ! t ! p = played g m ! t ! p)
     \<and> (\<forall>c. pending S m = Some c \<longrightarrow> is_call c \<and> call_count c = 1 \<and> call_sector c = SECTOR_SOPWITH1
          \<and> STATE_INIT < dstate (w_disk (worlds S m)))"

definition session_inv :: "nat \<Rightarrow> (nat \<Rightarrow> nat \<Rightarrow> nat) \<Rightarrow> (nat \<Rightarrow> nat) \<Rightarrow> session \<Rightarrow> bool" where
  "session_inv N idx pl S \<longleftrightarrow> (\<exists>g. reachable_game N idx pl g \<and> (\<forall>m < N. plays N S g m))"

text \<open>A step of machine \<open>m\<close> that leaves the histories alone: the game goes on to a state with the
  new machine.\<close>

lemma plays_world:
  assumes "plays N S g m" and "counters p = counters (machines g m)" and "w_proto w = p"
    and "pending S m = None \<or> w_disk w = w_disk (worlds S m)"
  shows "plays N (set_world m w S) (set_machine m p g) m"
  using assms by (auto simp: plays_def set_machine_def counters_def tics_def)

lemma plays_other:
  "plays N S g k \<Longrightarrow> worlds S' k = worlds S k \<Longrightarrow> pending S' k = pending S k \<Longrightarrow> given S' k = given S k
    \<Longrightarrow> seen S' k = seen S k \<Longrightarrow> machines g' k = machines g k \<Longrightarrow> swapping g' k = swapping g k
    \<Longrightarrow> typed g' k = typed g k \<Longrightarrow> played g' k = played g k \<Longrightarrow> plays N S' g' k"
  unfolding plays_def tics_def by metis

lemma inv_world:
  assumes "session_inv N idx pl S" and "m < N" and "w_proto w = p"
    and "\<And>g. machines g m = w_proto (worlds S m) \<Longrightarrow> num_nodes (machines g m) = N \<Longrightarrow>
      (\<forall>k < N. machines g k = w_proto (worlds S k)) \<Longrightarrow> run N idx g (set_machine m p g)"
    and "counters p = counters (w_proto (worlds S m))"
    and "pending S m = None \<or> w_disk w = w_disk (worlds S m)"
  shows "session_inv N idx pl (set_world m w S)"
proof -
  from assms(1) obtain g where g: "reachable_game N idx pl g" "\<forall>k < N. plays N S g k"
    by (auto simp: session_inv_def)
  then have m: "machines g m = w_proto (worlds S m)" "num_nodes (machines g m) = N"
    using assms(2) by (auto simp: plays_def)
  have "\<forall>k < N. machines g k = w_proto (worlds S k)" using g(2) by (auto simp: plays_def)
  from assms(4) [OF m this] g(1) have "reachable_game N idx pl (set_machine m p g)"
    by (auto intro: reach_rtranclp)
  moreover have "plays N (set_world m w S) (set_machine m p g) k" if "k < N" for k
  proof (cases "k = m")
    case True
    have "plays N S g m" using g(2) assms(2) by blast
    moreover have "counters p = counters (machines g m)" using assms(5) m(1) by simp
    ultimately show ?thesis unfolding True using assms(3,6) by (rule plays_world)
  next
    case False
    have "plays N S g k" using g(2) that by blast
    then show ?thesis by (rule plays_other) (simp_all add: False set_machine_def)
  qed
  ultimately show ?thesis unfolding session_inv_def by blast
qed


section \<open>Every step is a run of the game\<close>

lemma deliverable_machines:
  "\<forall>k < N. machines g k = machines h k \<Longrightarrow> deliverable N idx g m a = deliverable N idx h m a"
  unfolding deliverable_def by metis

lemma enter_call_proto:
  "enter_call c w = Done w1 \<Longrightarrow>
     ReceivePackets (w_proto w) = Done (w_proto w1) \<or> w_proto w1 = w_proto w"
  by (cases c) (auto simp: obind_eq_Done)

lemma enter_call_keeps:
  "enter_call c w = Done w1 \<Longrightarrow> w_mem w1 = w_mem w \<and> w_disk w1 = w_disk w"
  by (cases c) (auto simp: obind_eq_Done)

lemma int13_proto:
  assumes "\<not> is_call (BiosWrite r)" and "run_int13 r w = Done (e, r', w')"
  shows "ReceivePackets (w_proto w) = Done (w_proto w')"
  using assms by (auto simp: run_int13_def RealInt13_def Let_def obind_eq_Done elim!: read_at_cases split: if_splits)

lemma int25_proto: "run_int25 r w = Done (e, r', w') \<Longrightarrow> w_proto w' = w_proto w"
  by (auto simp: run_int25_def Let_def obind_eq_Done elim!: read_at_cases split: if_splits)

lemma int26_proto: "\<not> is_call (DosWrite r) \<Longrightarrow> run_int26 r w = Done (e, r', w') \<Longrightarrow> w_proto w' = w_proto w"
  by (auto simp: run_int26_def Let_def)

lemma finish_other:
  assumes "\<not> exchanges c w" and "finish_call SwapCommand c w = Done (r', w')"
  shows "w_proto w' = w_proto w"
proof -
  let ?p = "w_proto w" and ?data = "region (w_mem w) (call_buffer c) 512"
  from assms(2) obtain b data d p where
    wr: "WriteSector_with SwapCommand ?p ?data (call_sector c) (call_count c) (w_disk w) = Done (b, data, d, p)"
    and w': "w_proto w' = p"
    by (auto simp: finish_call_def write_at_with_def obind_eq_Done)
  have "p = ?p"
  proof (cases "call_count c = 1 \<and> call_sector c = SECTOR_SOPWITH1")
    case False
    with wr show ?thesis by (auto simp: WriteSector_with_def Let_def split: if_splits prod.splits)
  next
    case True
    with wr have d: "WriteData_with SwapCommand ?p ?data ((w_disk w)\<lparr>writes := writes (w_disk w) + 1\<rparr>)
        = Done (b, data, d, p)"
      by (simp add: WriteSector_with_def sector_defs)
    show ?thesis
    proof (cases "dstate (w_disk w)")
      case STATE_INIT
      with d show ?thesis by (auto simp: WriteData_with_def Let_def split: if_splits)
    next
      case STATE_WAITING_READ
      with assms(1) True have "maketic ?p - gametic ?p \<ge> of_nat MAX_DELAY"
        by (simp add: exchanges_def less_disk_state_def)
      with d STATE_WAITING_READ show ?thesis
        by (auto simp: WriteData_with_def Let_def SwapCommand_def split: if_splits)
    next
      case STATE_WAITING_WRITE
      with assms(1) True have "maketic ?p - gametic ?p \<ge> of_nat MAX_DELAY"
        by (simp add: exchanges_def less_disk_state_def)
      with d STATE_WAITING_WRITE show ?thesis
        by (auto simp: WriteData_with_def Let_def SwapCommand_def split: if_splits)
    qed
  qed
  with w' show ?thesis by simp
qed


text \<open>A store of at most 64K bytes at a far pointer, even one that runs over the end of the segment
  and goes on at its start, is what a read of the same bytes gives.\<close>

lemma far_add_inj:
  assumes "i < 65536" and "j < 65536"
  shows "phys (far_add p i) = phys (far_add p j) \<longleftrightarrow> i = j"
proof -
  have "phys (far_add p i) = phys (far_add p j) \<longleftrightarrow> (of_nat i :: u16) = of_nat j"
    by (simp add: phys_inj) (simp add: far_add_def prod_eq_iff)
  also have "\<dots> \<longleftrightarrow> i = j" using assms by (metis unat_of_nat_u16)
  finally show ?thesis .
qed

lemma region_mstore_wrap:
  assumes "length bs \<le> 65536"
  shows "region (mstore p bs mem) p (length bs) = bs"
  using assms
proof (induction bs rule: rev_induct)
  case (snoc b bs)
  have app: "mstore p (xs @ [b]) mem = mwrite (far_add p (length xs)) b (mstore p xs mem)" for xs p mem
    by (induction xs arbitrary: p mem) (simp_all add: add.commute)
  have "mread (mstore p (bs @ [b]) mem) (far_add p i) = (bs @ [b]) ! i" if i: "i < length (bs @ [b])" for i
  proof (cases "i = length bs")
    case True
    then show ?thesis by (simp add: app mread_mwrite)
  next
    case False
    then have "mread (mstore p bs mem) (far_add p i) = bs ! i"
      using snoc i nth_region [of i "length bs" "mstore p bs mem" p] by auto
    with False i snoc.prems show ?thesis by (simp add: app mread_mwrite far_add_inj nth_append)
  qed
  then show ?case by (intro nth_equalityI) auto
qed (simp add: region_def)

lemma finish_exchange:
  fixes c w cs q
  defines "data \<equiv> region (w_mem w) (call_buffer c) 512"
  defines "mu \<equiv> exchanged (w_proto w) cs (dec_multio data)"
  assumes "call_count c = 1" and "call_sector c = SECTOR_SOPWITH1" and "STATE_INIT < dstate (w_disk w)"
    and "num_players (w_proto w) \<le> MAX_PLAYERS" and "consoleplayer (w_proto w) < num_players (w_proto w)"
  shows "finish_call (\<lambda>_ _ _. Done (True, cs, q)) c w = Done (call_result c True,
      w\<lparr>w_mem := mstore (call_buffer c) (overwrite data 0 (enc_multio mu)) (w_mem w),
        w_disk := (w_disk w)\<lparr>writes := writes (w_disk w) + 1, multio := mu, dstate := STATE_WAITING_READ, cmd_buf := cs\<rparr>,
        w_proto := q\<rparr>)"
    and "buffer_keys c (w\<lparr>w_mem := mstore (call_buffer c) (overwrite data 0 (enc_multio mu)) (w_mem w),
        w_disk := d', w_proto := q'\<rparr>) = mu_key mu"
    and "k < num_players (w_proto w) \<Longrightarrow> mu_key mu ! k = cs ! k"
proof -
  have len: "length data = 512" by (simp add: data_def)
  have wf: "wf_multio (dec_multio data)" using dec_multio_wf len by simp
  note ex = exchanged_simps [OF wf assms(6)]
  have "dstate (w_disk w) = STATE_WAITING_READ \<or> dstate (w_disk w) = STATE_WAITING_WRITE"
    using assms(5) by (cases "dstate (w_disk w)") (simp_all add: less_disk_state_def)
  moreover have "word_of_int (int (num_players (w_proto w)) - 1) = (of_nat (num_players (w_proto w) - 1) :: u8)"
    using assms(7) by (intro last_player_word(2)) auto
  moreover have "consoleplayer (w_proto w) < 4" using assms(6,7) by (simp add: MAX_PLAYERS_def)
  ultimately show "finish_call (\<lambda>_ _ _. Done (True, cs, q)) c w = Done (call_result c True,
      w\<lparr>w_mem := mstore (call_buffer c) (overwrite data 0 (enc_multio mu)) (w_mem w),
        w_disk := (w_disk w)\<lparr>writes := writes (w_disk w) + 1, multio := mu, dstate := STATE_WAITING_READ, cmd_buf := cs\<rparr>,
        w_proto := q\<rparr>)"
    using assms(3,4,6)
    by (auto simp: finish_call_def write_at_with_def WriteSector_with_def WriteData_with_def sector_defs Let_def
        mu_def exchanged_def data_def [symmetric])
  have "length (overwrite data 0 (enc_multio mu)) = 512"
    using mu.store_length [OF ex(1)] len by (simp add: mu_def)
  then have "region (mstore (call_buffer c) (overwrite data 0 (enc_multio mu)) (w_mem w)) (call_buffer c) 512
      = overwrite data 0 (enc_multio mu)"
    using region_mstore_wrap [of "overwrite data 0 (enc_multio mu)"] by simp
  then show "buffer_keys c (w\<lparr>w_mem := mstore (call_buffer c) (overwrite data 0 (enc_multio mu)) (w_mem w),
        w_disk := d', w_proto := q'\<rparr>) = mu_key mu"
    using mu.dec_store [OF ex(1)] by (simp add: buffer_keys_def mu_def)
  show "k < num_players (w_proto w) \<Longrightarrow> mu_key mu ! k = cs ! k"
    using ex(4) [of k cs] assms(6) by (simp add: mu_def MAX_PLAYERS_def)
qed


lemma inv_poll:
  assumes "session_inv N idx pl S" and "m < N"
    and "ReceivePackets (w_proto (worlds S m)) = Done (w_proto w) \<or> w_proto w = w_proto (worlds S m)"
    and "pending S m = None \<or> w_disk w = w_disk (worlds S m)"
  shows "session_inv N idx pl (set_world m w S)"
proof (rule inv_world [OF assms(1,2) refl _ _ assms(4)])
  fix g :: game assume g: "machines g m = w_proto (worlds S m)" "num_nodes (machines g m) = N"
  show "run N idx g (set_machine m (w_proto w) g)"
  proof (cases "w_proto w = w_proto (worlds S m)")
    case True
    then show ?thesis using g(1) set_machine_self [of m g] by simp
  next
    case False
    with assms(3) g(1) have "ReceivePackets (machines g m) = Done (w_proto w)" by simp
    from run_ReceivePackets [OF assms(2) g(2) this, of idx g] show ?thesis by simp
  qed
next
  show "counters (w_proto w) = counters (w_proto (worlds S m))"
    using assms(3) counters_ReceivePackets by auto
qed

lemma plays_after_register:
  assumes "plays N S g m" and "pending S m = None" and "is_call c" and "exchanges c w"
    and "counters p = counters (w_proto (worlds S m))"
  shows "plays N ((set_world m (w\<lparr>w_proto := p\<rparr>) S)
      \<lparr>pending := (pending S)(m := Some c), given := (given S)(m := given S m @ [cmd])\<rparr>)
    (after_register m cmd p g) m"
  using assms by (auto simp: plays_def after_register_def set_machine_def tics_def counters_def exchanges_def)

lemma inv_write_begin:
  assumes inv: "session_inv N idx pl S" and m: "m < N" and idle: "pending S m = None" and c: "is_call c"
    and enter: "enter_call c (worlds S m) = Done w" and ex: "exchanges c w"
    and reg: "swap_register cmd (w_proto w) = Done p"
  shows "session_inv N idx pl ((set_world m (w\<lparr>w_proto := p\<rparr>) S)
      \<lparr>pending := (pending S)(m := Some c), given := (given S)(m := given S m @ [cmd])\<rparr>)" (is "session_inv N idx pl ?S")
proof -
  have "session_inv N idx pl (set_world m w S)"
    using enter_call_proto [OF enter] idle by (intro inv_poll [OF inv m]) simp_all
  then obtain g where g: "reachable_game N idx pl g" "\<And>k. k < N \<Longrightarrow> plays N (set_world m w S) g k"
    by (auto simp: session_inv_def)
  have gm: "machines g m = w_proto w" "\<not> swapping g m"
    using g(2) [OF m] idle by (auto simp: plays_def)
  have "game_step N idx g (after_register m cmd p g)"
    unfolding after_register_def using m gm(2) reg gm(1) by (intro game_step.swap_begin) simp_all
  with g(1) have "reachable_game N idx pl (after_register m cmd p g)" by (rule reach_step)
  moreover have "plays N ?S (after_register m cmd p g) k" if k: "k < N" for k
  proof (cases "k = m")
    case True
    have "counters p = counters (w_proto (worlds (set_world m w S) m))"
      using counters_swap_register [OF reg] by simp
    from plays_after_register [OF g(2) [OF m] _ c ex this, of cmd] idle
    show ?thesis by (simp add: True set_world_def)
  next
    case False
    from g(2) [OF k] show ?thesis
      by (rule plays_other) (simp_all add: False after_register_def set_machine_def)
  qed
  ultimately show ?thesis unfolding session_inv_def by blast
qed

lemma inv_write_end:
  assumes inv: "session_inv N idx pl S" and m: "m < N" and waits: "pending S m = Some c"
    and ready: "NewTicReady (w_proto (worlds S m))" and col: "swap_collect (w_proto (worlds S m)) = Done (cs, p)"
    and fin: "finish_call (\<lambda>_ _ _. Done (True, cs, p)) c (worlds S m) = Done (r', w')"
  shows "session_inv N idx pl ((set_world m w' S)
      \<lparr>pending := (pending S)(m := None), seen := (seen S)(m := seen S m @ [buffer_keys c w'])\<rparr>)"
    (is "session_inv N idx pl ?S")
proof -
  from inv obtain g where g: "reachable_game N idx pl g" "\<And>k. k < N \<Longrightarrow> plays N S g k"
    by (auto simp: session_inv_def)
  let ?w = "worlds S m"
  have gm: "machines g m = w_proto ?w" "swapping g m" using g(2) [OF m] waits by (auto simp: plays_def)
  have step: "game_step N idx g (after_tic m cs p g)"
    unfolding after_tic_def using m gm(2) ready col gm(1) by (intro game_step.swap_end) simp_all
  have call: "call_count c = 1" "call_sector c = SECTOR_SOPWITH1" "STATE_INIT < dstate (w_disk ?w)"
    "num_players (w_proto ?w) \<le> MAX_PLAYERS" "consoleplayer (w_proto ?w) < num_players (w_proto ?w)"
    using g(2) [OF m] waits gm(1) by (auto simp: plays_def)
  note fx = finish_exchange [where cs = cs, OF call]
  from fin [unfolded fx(1)] have w': "w_proto w' = p" by auto
  have keys: "buffer_keys c w' ! k = cs ! k" if "k < num_players (w_proto ?w)" for k
  proof -
    from fin [unfolded fx(1)] have "buffer_keys c w' = mu_key (exchanged (w_proto ?w) cs
        (dec_multio (region (w_mem ?w) (call_buffer c) 512)))"
      using fx(2) [where q' = p] by auto
    with fx(3) [OF that] show ?thesis by simp
  qed
  have cnt: "num_nodes p = num_nodes (w_proto ?w)" "consoleplayer p = consoleplayer (w_proto ?w)"
    "num_players p = num_players (w_proto ?w)"
    using counters_swap_collect [OF col] by (simp_all add: counters_def)
  have "plays N ?S (after_tic m cs p g) k" if k: "k < N" for k
  proof (cases "k = m")
    case True
    have old: "plays N S g m" using g(2) m .
    then have len: "length (played g m) = length (seen S m)" by (simp add: plays_def tics_def)
    have "((seen S m) @ [buffer_keys c w']) ! t ! j = (played g m @ [cs]) ! t ! j"
      if "t < Suc (tics g m)" "j < num_players (w_proto ?w)" for t j
    proof (cases "t = tics g m")
      case True
      then show ?thesis using keys that(2) len by (simp add: tics_def nth_append)
    next
      case False
      then have "t < tics g m" using that(1) by simp
      then show ?thesis using old that(2) len gm(1) by (simp add: plays_def tics_def nth_append)
    qed
    then show ?thesis
      using old w' cnt gm(1) by (simp add: plays_def True after_tic_def set_machine_def tics_def less_Suc_eq_le)
  next
    case False
    from g(2) [OF k] show ?thesis
      by (rule plays_other) (simp_all add: False after_tic_def set_machine_def)
  qed
  moreover have "reachable_game N idx pl (after_tic m cs p g)" using g(1) step by (rule reach_step)
  ultimately show ?thesis unfolding session_inv_def by blast
qed


text \<open>After \<^verbatim>\<open>main\<close> the protocol has been initialised with the structure of the
  driver.\<close>

lemma main_protocol:
  assumes "program_start w" and "main config fs argv w = (Inr cmd, w')"
  obtains fake dc dc0 c where "InitProtocol dc (static_protocol fake dc0 idle_driver c) = Done (w_proto w')"
    and "length (dc_data dc) = DATA_SIZE" and "w_disk w' = static_disk"
proof -
  from assms(1) obtain dc0 c where w: "w_proto w = static_protocol 0 dc0 idle_driver c" "w_disk w = static_disk"
    by (auto simp: program_start_def)
  from assms(2) obtain v dp p where run:
      "InitProtocol (load_doomcom (w_mem w) dp) (w_proto (with_flags v w)) = Done p"
      "w' = HookDiskInterrupts ((with_flags v w)\<lparr>w_proto := p\<rparr>)"
    by (auto simp: main_def Let_def ebind_eq_Inr lift_eq_Inr with_flags_def split: sum.splits option.splits if_splits)
  have "w_proto (with_flags v w) = static_protocol (sint (v_int v 0)) dc0 idle_driver c"
    by (simp add: with_flags_def w(1) static_protocol_def)
  moreover have "w_proto w' = p" "w_disk w' = static_disk"
    by (simp_all add: run(2) HookDiskInterrupts_def Let_def with_flags_def w(2))
  moreover have "length (dc_data (load_doomcom (w_mem w) dp)) = DATA_SIZE" by (simp add: load_doomcom_def Let_def)
  ultimately show thesis using run(1) that by metis
qed

lemma InitProtocol_doomcom:
  assumes "InitProtocol dc s = Done p"
  shows "doomcom p = dc" and "num_nodes p = nat (dc_numnodes dc)" and "dc_consoleplayer dc = int (consoleplayer p)"
    and "consoleplayer p < num_players p" and "num_players p \<le> MAX_PLAYERS"
  using assms by (auto simp: InitProtocol_def Let_def MAX_PLAYERS_def split: if_splits)

lemma session_start_inv:
  assumes "session_start N idx pl S"
  shows "session_inv N idx pl S"
proof -
  have init: "\<exists>fake dc dc0 c. InitProtocol dc (static_protocol fake dc0 idle_driver c) = Done (w_proto (worlds S m))
      \<and> length (dc_data dc) = DATA_SIZE \<and> dc_numnodes dc = int N \<and> dc_consoleplayer dc = int (pl m)"
    if m: "m < N" for m
  proof -
    from assms m obtain config fs argv cmd w where w: "program_start w" "main config fs argv w = (Inr cmd, worlds S m)"
      "dc_numnodes (doomcom (w_proto (worlds S m))) = int N" "consoleplayer (w_proto (worlds S m)) = pl m"
      unfolding session_start_def by blast
    from w(1,2) obtain fake dc dc0 c where
      p: "InitProtocol dc (static_protocol fake dc0 idle_driver c) = Done (w_proto (worlds S m))"
      and len: "length (dc_data dc) = DATA_SIZE"
      by (rule main_protocol)
    from InitProtocol_doomcom [OF p] w(3,4) p len show ?thesis by auto
  qed
  have hist: "pending S = (\<lambda>_. None)" "given S = (\<lambda>_. [])" "seen S = (\<lambda>_. [])"
    using assms by (auto simp: session_start_def)
  have "plays N S (network S) m" if m: "m < N" for m
  proof -
    from init [OF m] obtain fake dc dc0 c where
      p: "InitProtocol dc (static_protocol fake dc0 idle_driver c) = Done (w_proto (worlds S m))"
      and n: "dc_numnodes dc = int N" by blast
    from InitProtocol_doomcom [OF p] n show ?thesis by (simp add: plays_def network_def hist tics_def)
  qed
  moreover have "game_start N idx pl (network S)"
    unfolding game_start_def game_init_def using assms init
    by (fastforce simp: session_start_def network_def hist)
  ultimately show ?thesis unfolding session_inv_def by (blast intro: reach_init)
qed

lemma session_step_inv:
  assumes "session_step N idx S S'" and inv: "session_inv N idx pl S"
  shows "session_inv N idx pl S'"
  using assms(1)
proof cases
  case (input m as w c)
  show ?thesis
    unfolding input(1)
  proof (rule inv_world [OF inv input(2) refl])
    fix g :: game assume g: "machines g m = w_proto (worlds S m)" "\<forall>k < N. machines g k = w_proto (worlds S k)"
    then have "\<forall>k < N. machines (network S) k = machines g k" by (simp add: network_def)
    from deliverable_machines [OF this] input(3) have "\<forall>a \<in> set as. deliverable N idx g m a" by blast
    from game_step.input [OF input(2) this, of c] show "run N idx g (set_machine m (w_proto
        (w\<lparr>w_proto := (w_proto w)\<lparr>driver := (driver (w_proto w))\<lparr>answers := as\<rparr>, clock := c\<rparr>\<rparr>)) g)"
      by (simp add: g(1) input(4))
  qed (simp_all add: input(4) counters_def)
next
  case program
  then show ?thesis using inv_poll [OF inv] by simp
next
  case int13
  then show ?thesis using inv_poll [OF inv] int13_proto by simp
next
  case int25
  then show ?thesis using inv_poll [OF inv] int25_proto by simp
next
  case int26
  then show ?thesis using inv_poll [OF inv] int26_proto by simp
next
  case (write_other m c w r' w')
  have "w_proto w' = w_proto w" using write_other(6,7) by (rule finish_other)
  then show ?thesis using inv_poll [OF inv write_other(2), of w'] enter_call_proto [OF write_other(5)] write_other(1,3)
    by simp
next
  case write_begin
  then show ?thesis using inv_write_begin [OF inv] by simp
next
  case write_poll
  then show ?thesis using inv_poll [OF inv] by simp
next
  case write_end
  then show ?thesis using inv_write_end [OF inv] by simp
qed

interpretation session_game: invariant "session_start N idx pl" "session_step N idx" "session_inv N idx pl"
  for N idx pl
  by unfold_locales (rule session_start_inv, assumption, rule session_step_inv, assumption+)


section \<open>A call that returns is a run of the session\<close>

text \<open>The write needs the exchange at one argument only.\<close>

lemma finish_SwapCommand_eq:
  assumes "call_count c = 1" and "call_sector c = SECTOR_SOPWITH1" and "STATE_INIT < dstate (w_disk w)"
    and "consoleplayer (w_proto w) < 4"
    and "SwapCommand (buffer_keys c w ! consoleplayer (w_proto w)) (cmd_buf (w_disk w)) (w_proto w) = Done (True, cs, q)"
  shows "finish_call (\<lambda>_ _ _. Done (True, cs, q)) c w = finish_call SwapCommand c w"
proof -
  have "dstate (w_disk w) = STATE_WAITING_READ \<or> dstate (w_disk w) = STATE_WAITING_WRITE"
    using assms(3) by (cases "dstate (w_disk w)") (simp_all add: less_disk_state_def)
  with assms show ?thesis
    by (auto simp: finish_call_def write_at_with_def WriteSector_with_def WriteData_with_def sector_defs Let_def
        buffer_keys_def)
qed

lemma finish_SwapCommand:
  assumes "call_count c = 1" and "call_sector c = SECTOR_SOPWITH1" and "STATE_INIT < dstate (w_disk w)"
    and "consoleplayer (w_proto w) < 4" and "\<not> maketic (w_proto w) - gametic (w_proto w) \<ge> of_nat MAX_DELAY"
    and "finish_call SwapCommand c w = Done (r', w')"
  obtains cs q where "SwapCommand (buffer_keys c w ! consoleplayer (w_proto w)) (cmd_buf (w_disk w)) (w_proto w) = Done (True, cs, q)"
    and "finish_call (\<lambda>_ _ _. Done (True, cs, q)) c w = Done (r', w')"
proof -
  have st: "dstate (w_disk w) = STATE_WAITING_READ \<or> dstate (w_disk w) = STATE_WAITING_WRITE"
    using assms(3) by (cases "dstate (w_disk w)") (simp_all add: less_disk_state_def)
  note defs = finish_call_def write_at_with_def WriteSector_with_def WriteData_with_def sector_defs Let_def buffer_keys_def
  let ?call = "SwapCommand (buffer_keys c w ! consoleplayer (w_proto w)) (cmd_buf (w_disk w)) (w_proto w)"
  obtain b cs q where call: "?call = Done (b, cs, q)"
    using assms(1-4,6) st by (cases ?call) (auto simp: defs)
  moreover have b: "b = True" using call assms(5) by (auto simp: SwapCommand_def obind_eq_Done)
  moreover have "finish_call (\<lambda>_ _ _. Done (True, cs, q)) c w = finish_call SwapCommand c w"
    using assms(1-4) call b by (intro finish_SwapCommand_eq) simp_all
  ultimately show thesis using assms(6) that by metis
qed

lemma run_polls:
  assumes "m < N" and "pending S m = Some c" and "swap_wait p = Done q"
  shows "(session_step N idx)\<^sup>*\<^sup>* (set_world m (w\<lparr>w_proto := p\<rparr>) S) (set_world m (w\<lparr>w_proto := q\<rparr>) S)"
  using assms(3)
proof (induction p rule: swap_wait.induct)
  case (1 p)
  show ?case
  proof (cases "NewTicReady p \<or> answers (driver p) = []")
    case True
    with "1.prems" show ?thesis by (simp add: swap_wait.simps [of p] split: if_splits)
  next
    case False
    with "1.prems" obtain t where t: "ReceivePackets p = Done t" "swap_wait t = Done q"
      by (auto simp: swap_wait.simps [of p] obind_eq_Done)
    have "session_step N idx (set_world m (w\<lparr>w_proto := p\<rparr>) S)
        (set_world m ((worlds (set_world m (w\<lparr>w_proto := p\<rparr>) S) m)\<lparr>w_proto := t\<rparr>) (set_world m (w\<lparr>w_proto := p\<rparr>) S))"
      using assms(1,2) False t(1) by (intro session_step.write_poll) auto
    then have "session_step N idx (set_world m (w\<lparr>w_proto := p\<rparr>) S) (set_world m (w\<lparr>w_proto := t\<rparr>) S)"
      by (simp add: set_world_def)
    moreover have "(session_step N idx)\<^sup>*\<^sup>* (set_world m (w\<lparr>w_proto := t\<rparr>) S) (set_world m (w\<lparr>w_proto := q\<rparr>) S)"
      using "1.IH" False t by auto
    ultimately show ?thesis by (rule converse_rtranclp_into_rtranclp)
  qed
qed

definition after_exchange :: "nat \<Rightarrow> call \<Rightarrow> u16 \<Rightarrow> world \<Rightarrow> session \<Rightarrow> session" where
  "after_exchange m c cmd w' S = (set_world m w' S)
     \<lparr>given := (given S)(m := given S m @ [cmd]), seen := (seen S)(m := seen S m @ [buffer_keys c w'])\<rparr>"

lemma exchange_run:
  assumes m: "m < N" and idle: "pending S m = None" and c: "is_call c" and enter: "enter_call c (worlds S m) = Done w"
    and ex: "exchanges c w" and np: "num_players (w_proto w) \<le> MAX_PLAYERS" "consoleplayer (w_proto w) < num_players (w_proto w)"
    and fin: "finish_call SwapCommand c w = Done (r', w')"
  shows "(session_step N idx)\<^sup>*\<^sup>* S (after_exchange m c (buffer_keys c w ! consoleplayer (w_proto w)) w' S)"
proof -
  have call: "call_count c = 1" "call_sector c = SECTOR_SOPWITH1" "STATE_INIT < dstate (w_disk w)"
    "\<not> maketic (w_proto w) - gametic (w_proto w) \<ge> of_nat MAX_DELAY"
    using ex by (auto simp: exchanges_def)
  have "consoleplayer (w_proto w) < 4" using np by (simp add: MAX_PLAYERS_def)
  let ?cmd = "buffer_keys c w ! consoleplayer (w_proto w)"
  from call(1-3) \<open>consoleplayer (w_proto w) < 4\<close> call(4) fin obtain cs q where
    swap: "SwapCommand ?cmd (cmd_buf (w_disk w)) (w_proto w) = Done (True, cs, q)"
    and fin': "finish_call (\<lambda>_ _ _. Done (True, cs, q)) c w = Done (r', w')"
    by (rule finish_SwapCommand)
  from swap call(4) obtain s1 s2 where s: "swap_register ?cmd (w_proto w) = Done s1" "swap_wait s1 = Done s2"
      "swap_collect s2 = Done (cs, q)"
    by (auto simp: SwapCommand_def obind_eq_Done)
  let ?S1 = "S\<lparr>pending := (pending S)(m := Some c), given := (given S)(m := given S m @ [?cmd])\<rparr>"
  have "session_step N idx S (set_world m (w\<lparr>w_proto := s1\<rparr>) ?S1)"
    using session_step.write_begin [OF m idle c enter ex refl s(1), of idx]
    by (cases S) (simp add: set_world_def)
  moreover have "(session_step N idx)\<^sup>*\<^sup>* (set_world m (w\<lparr>w_proto := s1\<rparr>) ?S1) (set_world m (w\<lparr>w_proto := s2\<rparr>) ?S1)"
    using m s(2) by (intro run_polls [where c = c]) simp_all
  moreover have "session_step N idx (set_world m (w\<lparr>w_proto := s2\<rparr>) ?S1) (after_exchange m c ?cmd w' S)"
  proof -
    let ?w2 = "w\<lparr>w_proto := s2\<rparr>"
    have cnt: "counters s2 = counters (w_proto w)"
      using counters_swap_register [OF s(1)] counters_swap_wait [OF s(2)] by simp
    then have np2: "num_players s2 = num_players (w_proto w)" "consoleplayer s2 = consoleplayer (w_proto w)"
      by (simp_all add: counters_def)
    note old = finish_exchange(1) [OF call(1-3) np, of cs q]
    have "finish_call (\<lambda>_ _ _. Done (True, cs, q)) c ?w2 = Done (r', w')"
      using fin' old np finish_exchange(1) [of c ?w2 cs q] call(1-3) np2 by (simp add: exchanged_def)
    then have "session_step N idx (set_world m ?w2 ?S1) ((set_world m w' (set_world m ?w2 ?S1))
        \<lparr>pending := (pending (set_world m ?w2 ?S1))(m := None),
         seen := (seen (set_world m ?w2 ?S1))(m := seen (set_world m ?w2 ?S1) m @ [buffer_keys c w'])\<rparr>)"
      using m swap_wait_ready [OF s(2)] s(3)
      by (intro session_step.write_end [where c = c and cs = cs and p = q and r' = r']) simp_all
    then show ?thesis using idle by (cases S) (simp add: after_exchange_def set_world_def fun_upd_idem)
  qed
  ultimately show ?thesis by (meson converse_rtranclp_into_rtranclp rtranclp.rtrancl_into_rtrancl)
qed

section \<open>Reachable sessions\<close>

lemma reachable_game_of:
  assumes "reachable_session N idx pl S"
  obtains g where "reachable_game N idx pl g" and "\<And>m. m < N \<Longrightarrow> plays N S g m"
  using session_game.reach_inv [OF assms] by (auto simp: session_inv_def)

lemma session_players:
  assumes "reachable_session N idx pl S" and "m < N"
  shows "num_players (w_proto (worlds S m)) \<le> MAX_PLAYERS"
    and "consoleplayer (w_proto (worlds S m)) < num_players (w_proto (worlds S m))"
proof -
  from assms(1) obtain g where "\<And>m. m < N \<Longrightarrow> plays N S g m" by (rule reachable_game_of) blast
  from this [OF assms(2)] show "num_players (w_proto (worlds S m)) \<le> MAX_PLAYERS"
      "consoleplayer (w_proto (worlds S m)) < num_players (w_proto (worlds S m))"
    by (auto simp: plays_def)
qed

lemma enter_call_players:
  assumes "enter_call c w = Done w1"
  shows "num_players (w_proto w1) = num_players (w_proto w)" "consoleplayer (w_proto w1) = consoleplayer (w_proto w)"
  using enter_call_proto [OF assms] counters_ReceivePackets [of "w_proto w" "w_proto w1"] by (auto simp: counters_def)

section \<open>A machine stays in the game\<close>

definition joined :: "nat \<Rightarrow> session \<Rightarrow> bool" where
  "joined m S \<longleftrightarrow> STATE_INIT < dstate (w_disk (worlds S m))"

lemma init_less: "STATE_INIT < s \<longleftrightarrow> s \<noteq> STATE_INIT"
  by (cases s) (simp_all add: less_disk_state_def)

lemma ReadSector_joined:
  "ReadSector p data sector cnt d = Done (b, data', d') \<Longrightarrow> dstate d \<noteq> STATE_INIT \<Longrightarrow> dstate d' \<noteq> STATE_INIT"
  by (cases "dstate d")
    (auto simp: ReadSector_def ReadData_def Let_def obind_eq_Done split: if_splits prod.splits)

lemma WriteSector_joined:
  "WriteSector_with swap p data sector cnt d = Done (b, data', d', p') \<Longrightarrow> dstate d \<noteq> STATE_INIT \<Longrightarrow> dstate d' \<noteq> STATE_INIT"
  by (cases "dstate d")
    (auto simp: WriteSector_with_def WriteData_with_def WriteSemaphore_def Let_def obind_eq_Done split: if_splits prod.splits)

lemma read_at_joined:
  "read_at buf sector cnt w = Done (ok, w') \<Longrightarrow> dstate (w_disk w) \<noteq> STATE_INIT \<Longrightarrow> dstate (w_disk w') \<noteq> STATE_INIT"
  by (auto elim!: read_at_cases dest: ReadSector_joined)

lemma finish_call_joined:
  "finish_call swap c w = Done (r', w') \<Longrightarrow> dstate (w_disk w) \<noteq> STATE_INIT \<Longrightarrow> dstate (w_disk w') \<noteq> STATE_INIT"
  by (auto simp: finish_call_def write_at_with_def obind_eq_Done dest: WriteSector_joined)

lemma interrupt_joined:
  "\<not> is_call (BiosWrite r) \<Longrightarrow> run_int13 r w = Done (e, r', w') \<Longrightarrow> dstate (w_disk w) \<noteq> STATE_INIT \<Longrightarrow> dstate (w_disk w') \<noteq> STATE_INIT"
  "run_int25 r w = Done (e, r', w') \<Longrightarrow> dstate (w_disk w) \<noteq> STATE_INIT \<Longrightarrow> dstate (w_disk w') \<noteq> STATE_INIT"
  "\<not> is_call (DosWrite r) \<Longrightarrow> run_int26 r w = Done (e, r', w') \<Longrightarrow> dstate (w_disk w) \<noteq> STATE_INIT \<Longrightarrow> dstate (w_disk w') \<noteq> STATE_INIT"
  by (auto simp: run_int13_def RealInt13_def run_int25_def run_int26_def Let_def obind_eq_Done dest!: read_at_joined split: if_splits)

lemma step_joined: "session_step N idx S S' \<Longrightarrow> joined k S \<Longrightarrow> joined k S'"
proof (induction rule: session_step.induct)
  case (int13 m S r e r' w')
  then show ?case using interrupt_joined(1) [OF int13(3,4)] by (auto simp: joined_def init_less)
next
  case (int25 m S r e r' w')
  then show ?case using interrupt_joined(2) [OF int25(3)] by (auto simp: joined_def init_less)
next
  case (int26 m S r e r' w')
  then show ?case using interrupt_joined(3) [OF int26(3,4)] by (auto simp: joined_def init_less)
next
  case (write_other m S c w r' w')
  then show ?case using finish_call_joined enter_call_keeps [of c "worlds S m" w] by (auto simp: joined_def init_less)
next
  case (write_begin m S c w cmd p)
  then show ?case using enter_call_keeps [of c "worlds S m" w] by (auto simp: joined_def init_less)
next
  case (write_end m S c cs p r' w')
  then show ?case using finish_call_joined by (auto simp: joined_def init_less)
qed (auto simp: joined_def init_less)

lemma run_joined: "(session_step N idx)\<^sup>*\<^sup>* S S' \<Longrightarrow> joined k S \<Longrightarrow> joined k S'"
  by (induction rule: rtranclp_induct) (auto intro: step_joined)

text \<open>The number of players does not change.\<close>

lemma finish_call_proto: "finish_call swap c w = Done (r', w') \<Longrightarrow>
    w_proto w' = w_proto w \<or> (\<exists>cmd cs b cs'. swap cmd cs (w_proto w) = Done (b, cs', w_proto w'))"
  by (auto simp: finish_call_def write_at_with_def WriteSector_with_def WriteData_with_def Let_def obind_eq_Done
      split: if_splits disk_state.splits prod.splits)

lemma step_num_players:
  assumes "session_step N idx S S'"
  shows "num_players (w_proto (worlds S' k)) = num_players (w_proto (worlds S k))"
proof -
  have poll: "ReceivePackets p = Done q \<Longrightarrow> num_players q = num_players p" for p q
    using counters_ReceivePackets [of p q] by (simp add: counters_def)
  show ?thesis
    using assms
  proof (cases rule: session_step.cases)
    case (int13 m r e r' w')
    then show ?thesis using poll [OF int13_proto [OF int13(4,5)]] by simp
  next
    case (int25 m r e r' w')
    then show ?thesis using int25_proto [OF int25(4)] by simp
  next
    case (int26 m r e r' w')
    then show ?thesis using int26_proto [OF int26(4,5)] by simp
  next
    case (write_other m c w r' w')
    then show ?thesis using finish_other [OF write_other(6,7)] enter_call_players [OF write_other(5)] by simp
  next
    case (write_begin m c w cmd p)
    then show ?thesis using enter_call_players [OF write_begin(5)] counters_swap_register [OF write_begin(8)]
      by (simp add: counters_def)
  next
    case (write_end m c cs p r' w')
    then show ?thesis using finish_call_proto [OF write_end(6)] counters_swap_collect [OF write_end(5)]
      by (auto simp: counters_def)
  qed (use poll in auto)
qed

lemma run_num_players:
  "(session_step N idx)\<^sup>*\<^sup>* S S' \<Longrightarrow> num_players (w_proto (worlds S' k)) = num_players (w_proto (worlds S k))"
  by (induction rule: rtranclp_induct) (simp_all add: step_num_players)

end
