(* ===== verification/Session_Pair.thy ===== *)
theory Session_Pair
  imports Session
begin

text \<open>
  A concrete session: two machines whose drivers give them the player numbers 0 and 1. Each has
  joined; machine 1 writes the command 5, and machine 0 the command 9, with the packet of machine 1
  waiting at its driver.
\<close>

section \<open>The structure of the driver in memory\<close>

lemma mread_mstore_wrap:
  assumes "length bs \<le> 65536" and "i < length bs"
  shows "mread (mstore p bs mem) (far_add p i) = bs ! i"
  using region_mstore_wrap [OF assms(1), of p mem] nth_region [OF assms(2), of "mstore p bs mem" p] by simp

lemma region_slice:
  assumes "length bs \<le> 65536" and "k + n \<le> length bs"
  shows "region (mstore p bs mem) (far_add p k) n = slice k n bs"
proof (rule nth_equalityI)
  fix i assume "i < length (region (mstore p bs mem) (far_add p k) n)"
  then have "i < n" by simp
  moreover from this have "mread (mstore p bs mem) (far_add p (k + i)) = bs ! (k + i)"
    using assms by (intro mread_mstore_wrap) auto
  ultimately show "region (mstore p bs mem) (far_add p k) n ! i = slice k n bs ! i"
    using assms(2) by (simp add: nth_slice)
qed (simp add: assms(2))

definition doomcom_bytes :: "doomcom_t \<Rightarrow> u8 list" where
  "doomcom_bytes dc = le32 (dc_id dc) @ concat (map (\<lambda>f. le16 (word_of_int (f dc)))
     [dc_intnum, dc_command, dc_remotenode, dc_datalength, dc_numnodes, dc_ticdup, dc_extratics,
      dc_deathmatch, dc_savegame, dc_episode, dc_map, dc_skill, dc_consoleplayer, dc_numplayers,
      dc_angleoffset, dc_drone]) @ dc_data dc"

definition driver_mem :: "int \<Rightarrow> memory" where
  "driver_mem p = mstore (0x1000, 0) (doomcom_bytes (sample_doomcom 2 p)) (\<lambda>_. 0)"

lemma load_driver_mem:
  assumes "p = 0 \<or> p = 1"
  shows "load_doomcom (driver_mem p) (0x1000, 0) = sample_doomcom 2 p"
    and "load32 (driver_mem p) (0x1000, 0) = DOOMCOM_ID"
proof -
  let ?bs = "doomcom_bytes (sample_doomcom 2 p)"
  have len: "length ?bs = 548" by (simp add: doomcom_bytes_def sample_doomcom_def DATA_SIZE_def)
  have r: "region (driver_mem p) (far_add (0x1000, 0) k) n = slice k n ?bs" if "k + n \<le> 548" for k n
    unfolding driver_mem_def using len that by (intro region_slice) simp_all
  have r0: "region (driver_mem p) (0x1000, 0) n = slice 0 n ?bs" if "n \<le> 548" for n
    using r [of 0 n] that by simp
  note bytes = doomcom_bytes_def sample_doomcom_def slice_def le32_def le16_def of_le32_def of_le16_def
  show id: "load32 (driver_mem p) (0x1000, 0) = DOOMCOM_ID"
    unfolding load32_def by (subst r0) (simp_all add: bytes DOOMCOM_ID_def)
  have data: "region (driver_mem p) (far_add (0x1000, 0) 36) DATA_SIZE = replicate DATA_SIZE 0"
    by (subst r) (simp_all add: bytes DATA_SIZE_def)
  have minus: "ucast (ucast (- 1 :: u16) :: u8) OR push_bit 8 (ucast (ucast (mask 8 :: u16) :: u8)) = (- 1 :: u16)"
    using of_le16_le16 [of "- 1"] by (simp add: of_le16_def le16_def)
  show "load_doomcom (driver_mem p) (0x1000, 0) = sample_doomcom 2 p"
    unfolding load_doomcom_def Let_def id data load_short_def
    using assms minus by (auto simp: r) (auto simp: bytes)
qed


section \<open>Two machines\<close>

definition start_world :: "nat \<Rightarrow> world" where
  "start_world m = sample_world\<lparr>w_mem := driver_mem (int m),
     w_proto := static_protocol 0 (sample_doomcom 2 0) idle_driver (\<lambda>_. 0)\<rparr>"

definition pair_world :: "nat \<Rightarrow> world" where
  "pair_world m = HookDiskInterrupts ((start_world m)\<lparr>no_mem_patch := 0, w_proto := machines pair_start m\<rparr>)"

definition pair_session :: session where
  "pair_session = \<lparr>worlds = pair_world, pending = \<lambda>_. None, given = \<lambda>_. [], seen = \<lambda>_. []\<rparr>"

lemma pair_main:
  assumes "m < 2"
  shows "main (shipped_config []) Map.empty [''imaginot'', ''-net'', decimal 65536] (start_world m)
    = (Inr [Baked 0 ''sopwith2'', Baked 9 ''-db''], pair_world m)"
proof -
  have m: "int m = 0 \<or> int m = 1" using assms by auto
  note mem = load_driver_mem [OF m]
  have handle: "NetGetHandle (int 65536) (w_mem (start_world m)) = Inr (0x1000, 0)"
    using mem(2) by (simp add: NetGetHandle_def start_world_def MK_FP_def Let_def)
  have "proper_doomcom (sample_doomcom 2 (int m))" using m by (auto simp: proper_doomcom_def sample_doomcom_def)
  from InitProtocol_ok [OF this, of 0 "sample_doomcom 2 0" idle_driver "\<lambda>_. 0"]
  have "InitProtocol (load_doomcom (w_mem (start_world m)) (0x1000, 0)) ((w_proto (start_world m))\<lparr>fake_players := 0\<rparr>)
      = Done (machines pair_start m)"
    by (simp add: start_world_def mem(1) pair_start_def static_protocol_def)
  with handle show ?thesis
    unfolding pair_world_def by (intro shipped_main [of 65536]) (simp_all add: LONG_MAX_def)
qed

lemma pair_world_simps:
  "w_proto (pair_world m) = fresh_protocol 0 (sample_doomcom 2 (int m)) idle_driver (\<lambda>_. 0)"
  "w_disk (pair_world m) = static_disk"
  by (simp_all add: pair_world_def HookDiskInterrupts_def Let_def start_world_def sample_world_def pair_start_def)

lemma pair_session_start: "session_start 2 pair_idx (\<lambda>m. m) pair_session"
proof -
  have "topology 2 pair_idx (\<lambda>m. m)"
  proof -
    have set2: "{..<2} = {0, 1 :: nat}" by auto
    show ?thesis unfolding topology_def set2 by (auto simp: pair_idx_def MAX_PLAYERS_def two_machines)
  qed
  moreover have "program_start (start_world m)" for m
    by (auto simp: program_start_def start_world_def sample_world_def)
  moreover have "dc_numnodes (doomcom (w_proto (pair_world m))) = int 2 \<and> consoleplayer (w_proto (pair_world m)) = m" for m
    by (simp add: pair_world_simps) (simp add: fresh_protocol_def sample_doomcom_def)
  ultimately show ?thesis
    using pair_main unfolding session_start_def by (simp add: pair_session_def) blast
qed

text \<open>A write of the data sector by DOS, and the buffer with the commands 9 and 5.\<close>

definition data_write :: call where
  "data_write = DosWrite (dos_regs\<lparr>r_dl := 3\<rparr>)"

lemma data_write_simps:
  "is_call data_write" "call_count data_write = 1" "call_sector data_write = SECTOR_SOPWITH1"
  "enter_call data_write w = Done (w\<lparr>int26_count := int26_count w + 1, w_pc := dos_setvect 0x13 Int13 (w_pc w)\<rparr>)"
  by (simp_all add: data_write_def dos_regs_def sample_regs_def dx_def SECTOR_SOPWITH1_def)

definition typed_mem :: memory where
  "typed_mem = mstore (call_buffer data_write) (overwrite (replicate 512 0) 0 (enc_multio
     \<lparr>mu_max_players = 2, mu_num_players = 2, mu_last_player = 1, mu_key = [9, 5, 0, 0],
      mu_state = [1, 1, 0, 0], mu_explseed = 0\<rparr>)) (\<lambda>_. 0)"

lemma typed_mem_keys: "w_mem w = typed_mem \<Longrightarrow> buffer_keys data_write w = [9, 5, 0, 0]"
proof -
  let ?mu = "\<lparr>mu_max_players = 2, mu_num_players = 2, mu_last_player = 1, mu_key = [9, 5, 0, 0],
      mu_state = [1, 1, 0, 0], mu_explseed = 0\<rparr>"
  have wf: "wf_multio ?mu" by (simp add: wf_multio_def)
  have "length (overwrite (replicate 512 0) 0 (enc_multio ?mu)) = 512" using mu.store_length [OF wf] by simp
  then have "region typed_mem (call_buffer data_write) 512 = overwrite (replicate 512 0) 0 (enc_multio ?mu)"
    using region_mstore_wrap [of "overwrite (replicate 512 0) 0 (enc_multio ?mu)"] by (simp add: typed_mem_def)
  moreover assume "w_mem w = typed_mem"
  ultimately show "buffer_keys data_write w = [9, 5, 0, 0]"
    using mu.dec_store [OF wf] by (simp add: buffer_keys_def)
qed

text \<open>A machine that joins, and whose game then has the buffer.\<close>

lemma join:
  assumes m: "m < N" and idle: "pending S m = None" and st: "dstate (w_disk (worlds S m)) = STATE_INIT"
    and np: "num_players (w_proto (worlds S m)) \<le> MAX_PLAYERS"
  obtains w where "(session_step N idx)\<^sup>*\<^sup>* S (set_world m w S)" and "w_proto w = w_proto (worlds S m)"
    and "STATE_INIT < dstate (w_disk w)" and "w_mem w = typed_mem"
proof -
  let ?w = "(worlds S m)\<lparr>int26_count := int26_count (worlds S m) + 1, w_pc := dos_setvect 0x13 Int13 (w_pc (worlds S m))\<rparr>"
  obtain r' w' where fin: "finish_call SwapCommand data_write ?w = Done (r', w')"
      and w': "w_proto w' = w_proto ?w" "dstate (w_disk w') = STATE_WAITING_READ"
    using st np by (auto simp: finish_call_def write_at_with_def WriteSector_with_def WriteData_with_def sector_defs
        data_write_simps Let_def)
  have "\<not> exchanges data_write ?w" using st by (simp add: exchanges_def)
  with m idle fin have "session_step N idx S (set_world m w' S)"
    by (intro session_step.write_other [where c = data_write]) (simp_all add: data_write_simps)
  moreover have "session_step N idx (set_world m w' S) (set_world m (w'\<lparr>w_pc := w_pc w', w_mem := typed_mem\<rparr>) S)"
    using session_step.program [where m = m and N = N and S = "set_world m w' S" and idx = idx
        and pc' = "w_pc w'" and mem' = typed_mem] m idle
    by (simp add: set_world_def)
  ultimately show thesis
    using w' by (intro that [of "w'\<lparr>w_pc := w_pc w', w_mem := typed_mem\<rparr>"]) (auto simp: less_disk_state_def)
qed


text \<open>The session up to the end of the first write of machine 0.\<close>

lemma pair_register_1:
  obtains p where "swap_register 5 (w_proto (pair_world 1)) = Done p" and "(1, peer_packet) \<in> set (sent (driver p))"
  using pair_register by (auto simp: pair_world_simps pair_start_def)

lemma pair_two_joined:
  obtains w0 w1 where "reachable_session 2 pair_idx (\<lambda>m. m) (set_world 0 w0 (set_world 1 w1 pair_session))"
    and "w_proto w0 = w_proto (pair_world 0)" and "STATE_INIT < dstate (w_disk w0)" and "w_mem w0 = typed_mem"
    and "w_proto w1 = w_proto (pair_world 1)" and "STATE_INIT < dstate (w_disk w1)" and "w_mem w1 = typed_mem"
proof -
  have np: "num_players (w_proto (pair_world m)) \<le> MAX_PLAYERS" for m
    by (simp add: pair_world_simps) (simp add: fresh_protocol_def sample_doomcom_def MAX_PLAYERS_def)
  have st: "dstate (w_disk (pair_world m)) = STATE_INIT" for m by (simp add: pair_world_simps static_disk_def)
  obtain w1 where w1: "(session_step 2 pair_idx)\<^sup>*\<^sup>* pair_session (set_world 1 w1 pair_session)"
      "w_proto w1 = w_proto (pair_world 1)" "STATE_INIT < dstate (w_disk w1)" "w_mem w1 = typed_mem"
    using join [of 1 2 pair_session pair_idx] np [of 1] st [of 1] by (auto simp: pair_session_def)
  obtain w0 where w0: "(session_step 2 pair_idx)\<^sup>*\<^sup>* (set_world 1 w1 pair_session) (set_world 0 w0 (set_world 1 w1 pair_session))"
      "w_proto w0 = w_proto (pair_world 0)" "STATE_INIT < dstate (w_disk w0)" "w_mem w0 = typed_mem"
    using join [of 0 2 "set_world 1 w1 pair_session" pair_idx] np [of 0] st [of 0] by (auto simp: pair_session_def)
  have "reachable_session 2 pair_idx (\<lambda>m. m) pair_session" using pair_session_start by (rule reach_init)
  with w1(1) w0(1) have "reachable_session 2 pair_idx (\<lambda>m. m) (set_world 0 w0 (set_world 1 w1 pair_session))"
    by (meson reach_rtranclp)
  with w0 w1 that show thesis by blast
qed

lemma pair_second_typed:
  obtains S c where "reachable_session 2 pair_idx (\<lambda>m. m) S" and "pending S 0 = None" and "pending S 1 = Some c"
    and "given S 0 = []" and "given S 1 = [5]" and "seen S = (\<lambda>_. [])"
    and "w_proto (worlds S 0) = sample_protocol [peer_answer]"
    and "STATE_INIT < dstate (w_disk (worlds S 0))" and "w_mem (worlds S 0) = typed_mem"
proof -
  obtain w0 w1 where r: "reachable_session 2 pair_idx (\<lambda>m. m) (set_world 0 w0 (set_world 1 w1 pair_session))"
    and w0: "w_proto w0 = w_proto (pair_world 0)" "STATE_INIT < dstate (w_disk w0)" "w_mem w0 = typed_mem"
    and w1: "w_proto w1 = w_proto (pair_world 1)" "STATE_INIT < dstate (w_disk w1)" "w_mem w1 = typed_mem"
    by (rule pair_two_joined)
  let ?S = "set_world 0 w0 (set_world 1 w1 pair_session)"
  obtain p where p: "swap_register 5 (w_proto w1) = Done p" "(1, peer_packet) \<in> set (sent (driver p))"
    using pair_register_1 w1(1) by metis
  let ?w = "w1\<lparr>int26_count := int26_count w1 + 1, w_pc := dos_setvect 0x13 Int13 (w_pc w1)\<rparr>"
  have ex: "exchanges data_write ?w"
    using w1 by (simp add: exchanges_def data_write_simps pair_world_simps)
      (simp add: fresh_protocol_def MAX_DELAY_def)
  have cmd: "5 = buffer_keys data_write ?w ! consoleplayer (w_proto ?w)"
    using w1(1,3) typed_mem_keys [of ?w] by (simp add: pair_world_simps) (simp add: fresh_protocol_def sample_doomcom_def)
  let ?S1 = "(set_world 1 (?w\<lparr>w_proto := p\<rparr>) ?S)
      \<lparr>pending := (pending ?S)(1 := Some data_write), given := (given ?S)(1 := given ?S 1 @ [5])\<rparr>"
  have "session_step 2 pair_idx ?S ?S1"
    using ex cmd p(1) by (intro session_step.write_begin [where c = data_write])
      (simp_all add: data_write_simps pair_session_def)
  moreover let ?v = "w0\<lparr>w_proto := (w_proto w0)\<lparr>driver := (driver (w_proto w0))\<lparr>answers := [peer_answer]\<rparr>, clock := \<lambda>k. of_nat k\<rparr>\<rparr>"
  have "deliverable 2 pair_idx (network ?S1) 0 peer_answer"
    using p(2) by (simp add: deliverable_def peer_answer_def peer_packet_def DATA_SIZE_def)
      (intro exI [of _ 1], simp add: pair_idx_def network_def peer_packet_def)
  then have "session_step 2 pair_idx ?S1 (set_world 0 ?v ?S1)"
    by (intro session_step.input) (simp_all add: pair_session_def)
  ultimately have "reachable_session 2 pair_idx (\<lambda>m. m) (set_world 0 ?v ?S1)"
    using r by (meson reach_step)
  moreover have "w_proto ?v = sample_protocol [peer_answer]"
    by (simp add: w0(1) pair_world_simps sample_protocol_def fresh_protocol_def idle_driver_def)
  ultimately show thesis
    using w0 that [of "set_world 0 ?v ?S1" data_write] by (simp add: pair_session_def)
qed


lemma sample_exchange:
  "\<exists>q. SwapCommand 9 buf (sample_protocol [peer_answer]) = Done (True, [0, 0, 0, 0], q)"
proof -
  obtain q where "SwapCommand 9 [] (sample_protocol [peer_answer]) = Done (True, [0, 0, 0, 0], q)"
    using sample_swap by (auto simp: peer_answer_def split: outcome.splits)
  from SwapCommand_buffer [OF this] show ?thesis by blast
qed

lemma pair_write:
  obtains S r' w' where "reachable_session 2 pair_idx (\<lambda>m. m) S" and "pending S 0 = None"
    and "run_int26 (dos_regs\<lparr>r_dl := 3\<rparr>) (worlds S 0) = Done (Returns, r', w')"
    and "reachable_session 2 pair_idx (\<lambda>m. m) (after_exchange 0 data_write 9 w' S)"
    and "given S 0 = []" and "given S 1 = [5]" and "seen S = (\<lambda>_. [])" and "num_players (w_proto w') = 2"
    and "pending S 1 \<noteq> None" and "joined 0 (after_exchange 0 data_write 9 w' S)"
proof -
  obtain S c where S: "reachable_session 2 pair_idx (\<lambda>m. m) S" "pending S 0 = None" "given S 0 = []" "given S 1 = [5]"
      "seen S = (\<lambda>_. [])" "w_proto (worlds S 0) = sample_protocol [peer_answer]"
      "STATE_INIT < dstate (w_disk (worlds S 0))" "w_mem (worlds S 0) = typed_mem" "pending S 1 = Some c"
    by (rule pair_second_typed)
  let ?w = "(worlds S 0)\<lparr>int26_count := int26_count (worlds S 0) + 1, w_pc := dos_setvect 0x13 Int13 (w_pc (worlds S 0))\<rparr>"
  have np: "num_players (w_proto ?w) = 2" "consoleplayer (w_proto ?w) = 0"
    using S(6) by (simp_all add: sample_protocol_def fresh_protocol_def sample_doomcom_def)
  have cmd: "buffer_keys data_write ?w ! consoleplayer (w_proto ?w) = 9"
    using np(2) typed_mem_keys [of ?w] S(8) by simp
  have call: "call_count data_write = 1" "call_sector data_write = SECTOR_SOPWITH1" "STATE_INIT < dstate (w_disk ?w)"
    "num_players (w_proto ?w) \<le> MAX_PLAYERS" "consoleplayer (w_proto ?w) < num_players (w_proto ?w)"
    using S(7) np by (simp_all add: data_write_simps MAX_PLAYERS_def)
  obtain q where q: "SwapCommand 9 (cmd_buf (w_disk ?w)) (w_proto ?w) = Done (True, [0, 0, 0, 0], q)"
    using sample_exchange [of "cmd_buf (w_disk ?w)"] S(6) by auto
  have "finish_call (\<lambda>_ _ _. Done (True, [0, 0, 0, 0], q)) data_write ?w = finish_call SwapCommand data_write ?w"
    by (rule finish_SwapCommand_eq [OF call(1-3)]) (use q cmd np in simp_all)
  moreover have "\<exists>r' w'. finish_call (\<lambda>_ _ _. Done (True, [0, 0, 0, 0], q)) data_write ?w = Done (r', w') \<and> w_proto w' = q"
    unfolding finish_exchange(1) [OF call] by simp
  ultimately have "\<exists>r' w'. finish_call SwapCommand data_write ?w = Done (r', w') \<and> w_proto w' = q" by simp
  then obtain r' w' where fin: "finish_call SwapCommand data_write ?w = Done (r', w')" "w_proto w' = q" by blast
  have "exchanges data_write ?w"
    using S(6,7) by (simp add: exchanges_def data_write_simps)
      (simp add: sample_protocol_def fresh_protocol_def MAX_DELAY_def)
  from exchange_run [where m = 0 and N = 2 and c = data_write and idx = pair_idx, OF _ S(2) _ _ this call(4,5) fin(1)]
  have "(session_step 2 pair_idx)\<^sup>*\<^sup>* S (after_exchange 0 data_write 9 w' S)"
    using cmd by (simp add: data_write_simps)
  then have "reachable_session 2 pair_idx (\<lambda>m. m) (after_exchange 0 data_write 9 w' S)"
    "joined 0 (after_exchange 0 data_write 9 w' S)"
    using S(1,7) run_joined [of 2 pair_idx S "after_exchange 0 data_write 9 w' S" 0]
    by (auto intro: reach_rtranclp simp: joined_def)
  moreover have "run_int26 (dos_regs\<lparr>r_dl := 3\<rparr>) (worlds S 0) = Done (Returns, r', w')"
    using run_call_parts [of data_write "worlds S 0"] fin(1)
    by (simp add: data_write_simps run_call_def) (simp add: data_write_def)
  moreover have "num_players q = 2" using counters_SwapCommand [OF q] np by (simp add: counters_def)
  ultimately show thesis using S that fin(2) by simp
qed

lemma pair_exchanged:
  obtains S where "reachable_session 2 pair_idx (\<lambda>m. m) S" and "given S 0 = [9]" and "given S 1 = [5]"
    and "length (seen S 0) = 1" and "seen S 1 = []" and "pending S 0 = None" and "num_players (w_proto (worlds S 0)) = 2"
    and "pending S 1 \<noteq> None" and "joined 0 S"
proof -
  obtain S r' w' where S: "reachable_session 2 pair_idx (\<lambda>m. m) S" "pending S 0 = None"
      "run_int26 (dos_regs\<lparr>r_dl := 3\<rparr>) (worlds S 0) = Done (Returns, r', w')"
      "reachable_session 2 pair_idx (\<lambda>m. m) (after_exchange 0 data_write 9 w' S)"
      "given S 0 = []" "given S 1 = [5]" "seen S = (\<lambda>_. [])" "num_players (w_proto w') = 2" "pending S 1 \<noteq> None" "joined 0 (after_exchange 0 data_write 9 w' S)"
    by (rule pair_write)
  then show thesis using that [of "after_exchange 0 data_write 9 w' S"] by (simp add: after_exchange_def)
qed

end
