(* ===== verification/Progress.thy ===== *)
theory Progress
  imports Lockstep
begin

text \<open>
  The game never gets stuck. Whatever packets have been lost so far, a machine that is not
  ahead of the others by more than the pipeline allows can play its next tic: it sends its
  window again, the other machine answers with its own, and the tic is complete. The first
  packet is needed because it carries the acknowledgement without which the other machine
  keeps sending a window whose beginning has been played already, which
  \<^verbatim>\<open>ReceivePacket\<close> ignores as a whole.
\<close>

section \<open>One packet delivered\<close>

definition wins :: "(nat \<Rightarrow> nat \<Rightarrow> nat) \<Rightarrow> game \<Rightarrow> nat \<Rightarrow> nat \<Rightarrow> window \<times> window" where
  "wins idx g x y = (send_window (node_for idx g x y), recv_window (node_for idx g x y))"

definition same_play :: "game \<Rightarrow> game \<Rightarrow> bool" where
  "same_play g g' \<longleftrightarrow> typed g' = typed g \<and> played g' = played g \<and> swapping g' = swapping g"

lemma same_play_simps:
  assumes "same_play g g'"
  shows "stream g' = stream g" and "tics g' = tics g" and "swapping g' = swapping g"
    and "game_ok N g' \<longleftrightarrow> game_ok N g"
  using assms by (auto simp: same_play_def stream_def tics_def game_ok_def)

lemma same_play_set_machine: "same_play g (set_machine m p g)"
  by (simp add: same_play_def set_machine_def)

lemma wins_other: "x \<noteq> m \<Longrightarrow> wins idx (set_machine m p g) x y = wins idx g x y"
  by (simp add: wins_def node_for_def set_machine_def)

lemma wins_self: "wins idx (set_machine m p g) m y
    = (send_window (nodes p ! idx m y), recv_window (nodes p ! idx m y))"
  by (simp add: wins_def node_for_def set_machine_def)

text \<open>The two windows of the receiver after a packet with the sender's windows.\<close>

definition after_packet :: "window \<times> window \<Rightarrow> window \<times> window \<Rightarrow> window \<times> window" where
  "after_packet = (\<lambda>(S', R') (S, R).
     (ack_step (w_start R' + ucast (w_len R')) S,
      if w_start S' < w_start R then R else stored (unat (w_start S' - w_start R)) (win_cmds S') R))"

lemma resend_step:
  assumes inv: "game_inv N idx pl g" and ok: "game_ok N g" and k: "k < N" and m: "m < N" "m \<noteq> k"
  defines "bs \<equiv> packet_for (idx k m) (machines g k)"
  obtains p where "game_step N idx g (set_machine k p g)"
    and "game_inv N idx pl (set_machine k p g)"
    and "(int (idx k m), bs) \<in> set (sent (driver p))"
    and "\<And>y. y < N \<Longrightarrow> wins idx (set_machine k p g) k y = wins idx g k y"
proof -
  note mok = inv_machine [OF inv k]
  have wf: "wf_protocol (machines g k)" and top: "topology N idx pl"
    using mok inv by (auto intro: machine_wf simp: game_inv_def)
  have i: "idx k m < MAX_PLAYERS" "1 \<le> idx k m" "idx k m < N"
    using topology_idx [OF top k m(1)] m(2) by auto
  obtain dc where dc: "SendPacket (idx k m) (machines g k) = Done (sent_state (idx k m) dc (machines g k))"
    using SendPacket_total [OF wf i(1)] by blast
  let ?p = "sent_state (idx k m) dc (machines g k)"
  have "idx k m < length (nodes (machines g k))" using wf i(1) by (simp add: wf_protocol_def)
  then have "wins idx (set_machine k ?p g) k y = wins idx g k y" for y
    by (simp add: wins_self wins_def node_for_def sent_state_def nth_list_update)
  moreover have "game_step N idx g (set_machine k ?p g)"
    using k i(2,3) dc by (rule game_step.resend)
  moreover have "game_inv N idx pl (set_machine k ?p g)"
    using inv ok k i(3) dc by (rule resend_inv)
  moreover have "(int (idx k m), bs) \<in> set (sent (driver ?p))"
    by (simp add: sent_state_def bs_def)
  ultimately show thesis using that by blast
qed

lemma receive_step:
  fixes a :: answer
  assumes inv: "game_inv N idx pl g" and ok: "game_ok N g" and m: "m < N" and k: "k < N" "k \<noteq> m"
    and sent: "(int (idx k m), ans_bytes a) \<in> set (sent (driver (machines g k)))"
    and a: "ans_node a = int (idx m k)" "ans_bytes a = packet_bytes st ack (of_nat (pl k)) cs"
      "length cs \<le> MAX_DELAY"
  obtains p where "run N idx g (set_machine m p g)" and "game_inv N idx pl (set_machine m p g)"
    and "\<And>y. y < N \<Longrightarrow> y \<noteq> k \<Longrightarrow> wins idx (set_machine m p g) m y = wins idx g m y"
    and "wins idx (set_machine m p g) m k =
      (send_window (received st ack (of_nat (pl k)) cs (node_for idx g m k)),
       recv_window (received st ack (of_nat (pl k)) cs (node_for idx g m k)))"
proof -
  define s where "s = (machines g m)\<lparr>driver := (driver (machines g m))\<lparr>answers := [a]\<rparr>,
     clock := clock (machines g m)\<rparr>"
  let ?h = "set_machine m s g"
  have top: "topology N idx pl" using inv by (simp add: game_inv_def)
  have "length (ans_bytes a) \<le> DATA_SIZE"
    using a(2,3) by (simp add: MAX_DELAY_def DATA_SIZE_def)
  then have del: "\<forall>b \<in> set [a]. deliverable N idx g m b"
    using sent a(1) k by (auto simp: deliverable_def)
  have step1: "game_step N idx g ?h" unfolding s_def using m del by (rule game_step.input)
  have invh: "game_inv N idx pl ?h" unfolding s_def using inv ok m del by (rule input_inv)
  have okh: "game_ok N ?h" using ok same_play_simps(4) [OF same_play_set_machine] by blast
  have wf: "wf_protocol s" using machine_wf [OF inv_machine [OF invh m]] by simp
  have "pl k < 4" using top k(1) by (simp add: topology_def MAX_PLAYERS_def)
  then have pl: "unat (of_nat (pl k) :: u8) < MAX_PLAYERS" by (simp add: MAX_PLAYERS_def)
  define i where "i = idx m k"
  have i: "i < MAX_PLAYERS" "nat (ans_node a) = i"
    using topology_idx [OF top m k(1)] a(1) by (simp_all add: i_def)
  have li: "i < length (nodes s)" using wf i(1) by (simp add: wf_protocol_def)
  define p where "p = (take_answer a [] s)\<lparr>nodes := (nodes s)[i := received st ack (of_nat (pl k)) cs (nodes s ! i)]\<rparr>"
  have rcv: "ReceivePacket (nat (ans_node a)) (take_answer a [] (machines ?h m)) = Done p"
    using ReceivePacket_bytes [OF wf i(1) a(3) pl a(2), of "[]"] by (simp add: i(2) p_def)
  have as: "answers (driver (machines ?h m)) = a # []" by (simp add: s_def)
  have node: "ans_node a \<noteq> -1" using a(1) by simp
  have "game_step N idx ?h (set_machine m p ?h)"
    using m as node rcv by (rule game_step.receive)
  with step1 have "run N idx g (set_machine m p g)" by simp
  moreover have "game_inv N idx pl (set_machine m p g)"
    using receive_inv [OF invh okh m as node rcv] by simp
  moreover have "wins idx (set_machine m p g) m y = wins idx g m y" if "y < N" "y \<noteq> k" for y
    using topology_inj [OF top m that(1) k(1)] that(2)
    by (simp add: wins_self wins_def node_for_def p_def i_def s_def)
  moreover have "wins idx (set_machine m p g) m k =
      (send_window (received st ack (of_nat (pl k)) cs (node_for idx g m k)),
       recv_window (received st ack (of_nat (pl k)) cs (node_for idx g m k)))"
    using li by (simp add: wins_self p_def i_def [symmetric]) (simp add: node_for_def s_def i_def)
  ultimately show thesis using that by blast
qed

lemma deliver:
  assumes inv: "game_inv N idx pl g" and ok: "game_ok N g" and m: "m < N" and k: "k < N" "k \<noteq> m"
  shows "\<exists>g'. run N idx g g' \<and> game_inv N idx pl g' \<and> same_play g g'
    \<and> (\<forall>x < N. \<forall>y < N. (x, y) \<noteq> (m, k) \<longrightarrow> wins idx g' x y = wins idx g x y)
    \<and> wins idx g' m k = after_packet (wins idx g k m) (wins idx g m k)"
proof -
  define i where "i = idx k m"
  define S R where "S = send_window (node_for idx g k m)" and "R = recv_window (node_for idx g k m)"
  let ?ack = "w_start R + ucast (w_len R)"
  define bs where "bs = packet_for i (machines g k)"
  obtain p where p: "game_step N idx g (set_machine k p g)" "game_inv N idx pl (set_machine k p g)"
      "(int i, bs) \<in> set (sent (driver p))"
      "\<And>y. y < N \<Longrightarrow> wins idx (set_machine k p g) k y = wins idx g k y"
    using resend_step [OF inv ok k(1) m] k(2) unfolding i_def bs_def by metis
  let ?h = "set_machine k p g"
  note mok = inv_machine [OF inv k(1)]
  have top: "topology N idx pl" using inv by (simp add: game_inv_def)
  have "player (nodes (machines g k) ! 0) = int (pl k)" using mok by (simp add: machine_ok_def Let_def)
  then have bs: "bs = packet_bytes (w_start S) ?ack (of_nat (pl k)) (win_cmds S)"
    by (simp add: bs_def packet_for_def Let_def S_def R_def i_def node_for_def)
  have "wf_window S"
    using wf_nth [OF machine_wf [OF mok] topology_idx(3) [OF top k(1) m]]
    by (simp add: S_def node_for_def wf_node_def)
  then have len: "length (win_cmds S) \<le> MAX_DELAY" by (simp add: length_win_cmds) (simp add: wf_window_def)
  have okh: "game_ok N ?h" using ok same_play_simps(4) [OF same_play_set_machine] by blast
  have node_h: "node_for idx ?h m k = node_for idx g m k"
    using k(2) by (simp add: node_for_def set_machine_def)
  obtain q where q: "run N idx ?h (set_machine m q ?h)" "game_inv N idx pl (set_machine m q ?h)"
      "\<And>y. y < N \<Longrightarrow> y \<noteq> k \<Longrightarrow> wins idx (set_machine m q ?h) m y = wins idx ?h m y"
      "wins idx (set_machine m q ?h) m k =
      (send_window (received (w_start S) ?ack (of_nat (pl k)) (win_cmds S) (node_for idx g m k)),
       recv_window (received (w_start S) ?ack (of_nat (pl k)) (win_cmds S) (node_for idx g m k)))"
    using receive_step [OF p(2) okh m k, of "\<lparr>ans_node = int (idx m k), ans_bytes = bs\<rparr>" "w_start S" ?ack "win_cmds S"]
      p(3) bs len unfolding node_h by (auto simp: i_def)
  let ?g = "set_machine m q ?h"
  have "run N idx g ?g" using p(1) q(1) by simp
  moreover have "same_play g ?g" by (simp add: same_play_def set_machine_def)
  moreover have "wins idx ?g x y = wins idx g x y" if "x < N" "y < N" "(x, y) \<noteq> (m, k)" for x y
    using that p(4) q(3) k(2) wins_other by (cases "x = m"; cases "x = k") auto
  moreover have "wins idx ?g m k = after_packet (wins idx g k m) (wins idx g m k)"
    unfolding q(4) by (simp add: after_packet_def wins_def S_def R_def received_def Let_def)
  ultimately show ?thesis using q(2) by blast
qed

section \<open>An exchange brings a machine up to date\<close>

lemma got_wins: "got idx g m k = tics g m + unat (w_len (snd (wins idx g m k)))"
  by (simp add: got_def wins_def)

lemma after_packet_simps:
  "fst (after_packet a b) = ack_step (w_start (snd a) + ucast (w_len (snd a))) (fst b)"
  "snd (after_packet a b) = (if w_start (fst a) < w_start (snd b) then snd b
     else stored (unat (w_start (fst a) - w_start (snd b))) (win_cmds (fst a)) (snd b))"
  by (simp_all add: after_packet_def split_def)

lemma exchange_window:
  assumes inv: "game_inv N idx pl g" and ok: "game_ok N g" and m: "m < N" and k: "k < N" "k \<noteq> m"
  defines "R \<equiv> snd (wins idx g m k)"
  defines "S' \<equiv> ack_step (w_start R + ucast (w_len R)) (fst (wins idx g k m))"
  shows "unat (w_len (if w_start S' < w_start R then R else stored (unat (w_start S' - w_start R)) (win_cmds S') R))
    = length (stream g k) - tics g m"
proof -
  define S where "S = fst (wins idx g k m)"
  let ?ack = "w_start R + ucast (w_len R)"
  have defs: "S = send_window (node_for idx g k m)" "R = recv_window (node_for idx g m k)"
    by (simp_all add: S_def R_def wins_def)
  have link: "link_ok idx pl g m k" "link_ok idx pl g k m" using inv m k by (simp_all add: game_inv_def)
  have bound: "length (stream g k) < 2 ^ 32" using ok k(1) by (rule stream_bound)
  have le: "got idx g m k \<le> length (stream g k)" "tics g m \<le> got idx g m k"
      "unat (w_start S) \<le> got idx g m k" "length (stream g k) \<le> tics g m + 8"
    using inv_link(1,2,3) [OF inv m k] inv_link(6) [OF inv k(1) m k(2) [symmetric]] by (simp_all add: defs)
  have R: "wf_window R" "unat (w_start R) = tics g m" "got idx g m k = tics g m + unat (w_len R)"
    using link(1) by (auto simp: link_ok_def pair_ok_def defs got_def)
  have ack: "unat ?ack = got idx g m k"
    using R le bound by (subst unat_window_end) auto
  have S: "wf_window S" "unat (w_start S) + unat (w_len S) = length (stream g k)"
      "win_cmds S = drop (unat (w_start S)) (stream g k)"
    using link(2) by (auto simp: link_ok_def pair_ok_def defs)
  have S': "unat (w_start S') = got idx g m k" "win_cmds S' = drop (got idx g m k) (stream g k)"
    using ack_step_stream(2,4) [OF S(1,2) bound S(3), of ?ack] ack le by (auto simp: S'_def S_def [symmetric])
  have "\<not> w_start S' < w_start R" using S'(1) R(2) le(2) by (simp add: word_less_nat_alt)
  moreover have "unat (w_start S' - w_start R) = unat (w_len R)"
    using S'(1) R(2,3) by (simp add: unat_sub_small)
  moreover have "unat (w_len (stored (unat (w_len R)) (win_cmds S') R)) = length (stream g k) - tics g m"
    using stored_simps(3) [OF R(1), of "unat (w_len R)" "win_cmds S'"] S'(2) R(3) le
    by (auto simp: MAX_DELAY_def)
  ultimately show ?thesis by simp
qed

lemma exchange:
  assumes inv: "game_inv N idx pl g" and ok: "game_ok N g" and m: "m < N" and k: "k < N" "k \<noteq> m"
  shows "\<exists>g'. run N idx g g' \<and> game_inv N idx pl g' \<and> same_play g g'
    \<and> (\<forall>y < N. y \<noteq> k \<longrightarrow> wins idx g' m y = wins idx g m y)
    \<and> got idx g' m k = length (stream g k)"
proof -
  obtain g1 where g1: "run N idx g g1" "game_inv N idx pl g1" "same_play g g1"
      "\<forall>x < N. \<forall>y < N. (x, y) \<noteq> (k, m) \<longrightarrow> wins idx g1 x y = wins idx g x y"
      "wins idx g1 k m = after_packet (wins idx g m k) (wins idx g k m)"
    using deliver [OF inv ok k(1) m k(2) [symmetric]] by blast
  note frame1 = same_play_simps [OF g1(3)]
  have fst1: "fst (wins idx g1 k m) = ack_step (w_start (snd (wins idx g m k)) + ucast (w_len (snd (wins idx g m k))))
      (fst (wins idx g k m))"
    by (simp add: g1(5) after_packet_simps)
  have snd1: "wins idx g1 m k = wins idx g m k" using g1(4) m k by auto
  obtain g2 where g2: "run N idx g1 g2" "game_inv N idx pl g2" "same_play g1 g2"
      "\<forall>x < N. \<forall>y < N. (x, y) \<noteq> (m, k) \<longrightarrow> wins idx g2 x y = wins idx g1 x y"
      "wins idx g2 m k = after_packet (wins idx g1 k m) (wins idx g1 m k)"
    using deliver [OF g1(2) _ m k] ok frame1(4) by blast
  note frame2 = same_play_simps [OF g2(3)]
  have "unat (w_len (snd (wins idx g2 m k))) = length (stream g k) - tics g m"
    unfolding g2(5) after_packet_simps snd1 fst1 using exchange_window [OF inv ok m k] .
  moreover have "tics g m \<le> length (stream g k)" using inv_link(1,2) [OF inv m k] by simp
  ultimately have "got idx g2 m k = length (stream g k)"
    using frame1 frame2 by (simp add: got_wins)
  moreover have "wins idx g2 m y = wins idx g m y" if "y < N" "y \<noteq> k" for y
    using g2(4) g1(4) m k that by auto
  moreover have "run N idx g g2" using g1(1) g2(1) by simp
  moreover have "same_play g g2" using g1(3) g2(3) by (simp add: same_play_def)
  ultimately show ?thesis using g2(2) by blast
qed

lemma catch_up:
  assumes inv: "game_inv N idx pl g" and ok: "game_ok N g" and m: "m < N"
    and "set ks \<subseteq> {..<N} - {m}" and "distinct ks"
  shows "\<exists>g'. run N idx g g' \<and> game_inv N idx pl g' \<and> same_play g g'
    \<and> (\<forall>k \<in> set ks. got idx g' m k = length (stream g k))"
  using assms(4,5)
proof (induction ks)
  case Nil
  show ?case using inv by (intro exI [of _ g]) (simp add: same_play_def)
next
  case (Cons k ks)
  then obtain h where h: "run N idx g h" "game_inv N idx pl h" "same_play g h"
      "\<forall>j \<in> set ks. got idx h m j = length (stream g j)"
    by auto
  note frame = same_play_simps [OF h(3)]
  from Cons.prems have k: "k < N" "k \<noteq> m" by auto
  obtain g' where g': "run N idx h g'" "game_inv N idx pl g'" "same_play h g'"
      "\<forall>y < N. y \<noteq> k \<longrightarrow> wins idx g' m y = wins idx h m y"
      "got idx g' m k = length (stream h k)"
    using exchange [OF h(2) _ m k] ok frame(4) by blast
  have "got idx g' m j = length (stream g j)" if "j \<in> set (k # ks)" for j
  proof (cases "j = k")
    case True
    then show ?thesis using g'(5) frame(1) by simp
  next
    case False
    with that Cons.prems have "j \<in> set ks" "j < N" by auto
    with False g'(4) h(4) same_play_simps(2) [OF g'(3)] show ?thesis by (simp add: got_wins)
  qed
  moreover have "run N idx g g'" using h(1) g'(1) by simp
  moreover have "same_play g g'" using h(3) g'(3) by (simp add: same_play_def)
  ultimately show ?case using g'(2) by blast
qed

section \<open>Progress\<close>

lemma ready_when_up_to_date:
  assumes inv: "game_inv N idx pl g" and m: "m < N" and busy: "swapping g m"
    and up: "\<And>k. k < N \<Longrightarrow> k \<noteq> m \<Longrightarrow> tics g m < got idx g m k"
  shows "NewTicReady (machines g m)"
proof -
  note mok = inv_machine [OF inv m]
  have top: "topology N idx pl" and n: "num_nodes (machines g m) = N"
    using inv mok by (simp_all add: game_inv_def machine_ok_def Let_def)
  have "0 < unat (w_len (recv_window (nodes (machines g m) ! i)))" if i: "i < N" for i
  proof -
    obtain k where k: "k < N" "idx m k = i" using topology_surj [OF top m i] by blast
    show ?thesis
    proof (cases "k = m")
      case True
      then have "i = 0" using topology_idx(2) [OF top m k(1)] k(2) by simp
      then show ?thesis using own_window(2) [OF mok busy] by simp
    next
      case False
      with up [OF k(1)] k(2) show ?thesis by (simp add: got_def node_for_def)
    qed
  qed
  then show ?thesis by (simp add: NewTicReady_iff n word_less_nat_alt)
qed

lemma finish_tic:
  assumes inv: "game_inv N idx pl g" and ok: "game_ok N g" and m: "m < N" and busy: "swapping g m"
    and peers: "\<And>k. k < N \<Longrightarrow> k \<noteq> m \<Longrightarrow> tics g m < length (stream g k)"
  shows "\<exists>g'. run N idx g g' \<and> tics g' m = Suc (tics g m) \<and> typed g' = typed g
    \<and> (\<forall>k. k \<noteq> m \<longrightarrow> played g' k = played g k)"
proof -
  let ?ks = "filter (\<lambda>k. k \<noteq> m) [0..<N]"
  have "set ?ks \<subseteq> {..<N} - {m}" "distinct ?ks" by auto
  from catch_up [OF inv ok m this] obtain h where
    h: "run N idx g h" "game_inv N idx pl h" "same_play g h"
      "\<And>k. k < N \<Longrightarrow> k \<noteq> m \<Longrightarrow> got idx h m k = length (stream g k)"
    by auto
  note frame = same_play_simps [OF h(3)]
  have busy_h: "swapping h m" using busy frame(3) by simp
  have ready: "NewTicReady (machines h m)"
    using ready_when_up_to_date [OF h(2) m busy_h] h(4) peers frame(2) by simp
  obtain cs p where "swap_collect (machines h m) = Done (cs, p)"
    using swap_collect_eq(1) [OF machine_wf [OF inv_machine [OF h(2) m]] ready] by blast
  from game_step.swap_end [OF m busy_h ready this]
  have "game_step N idx h (after_tic m cs p h)" by (simp add: after_tic_def)
  with h(1) have "run N idx g (after_tic m cs p h)" by simp
  moreover have "tics (after_tic m cs p h) m = Suc (tics g m)"
    using h(3) by (simp add: after_tic_def tics_def set_machine_def same_play_def)
  moreover have "typed (after_tic m cs p h) = typed g" "k \<noteq> m \<Longrightarrow> played (after_tic m cs p h) k = played g k" for k
    using h(3) by (simp_all add: after_tic_def set_machine_def same_play_def)
  ultimately show ?thesis by blast
qed

text \<open>Machine \<open>m\<close> can play its next tic, if it is not in a call with the command \<open>cmd\<close>, while
  the others neither play a tic nor make a command.\<close>

definition can_play :: "nat \<Rightarrow> (nat \<Rightarrow> nat \<Rightarrow> nat) \<Rightarrow> nat \<Rightarrow> u16 \<Rightarrow> game \<Rightarrow> bool" where
  "can_play N idx m cmd g \<longleftrightarrow> (\<exists>g'. run N idx g g' \<and> tics g' m = Suc (tics g m)
    \<and> typed g' m = (if swapping g m then typed g m else typed g m @ [cmd])
    \<and> (\<forall>k. k \<noteq> m \<longrightarrow> played g' k = played g k \<and> typed g' k = typed g k))"

lemma play_next_tic:
  assumes "reachable_game N idx pl g" and "m < N"
    and "\<forall>k < N. Suc (length (typed g k)) < 2 ^ 32 - 16"
    and "\<forall>k < N. k \<noteq> m \<longrightarrow> tics g m < 3 + length (typed g k)"
  shows "can_play N idx m cmd g"
proof -
  have ok: "game_ok N g" using assms(3) by (auto simp: game_ok_def)
  have inv: "game_inv N idx pl g" using assms(1) ok by (rule game_safe.reach_inv)
  have peers: "tics g m < length (stream g k)" if "k < N" "k \<noteq> m" for k
    using assms(4) that by (simp add: stream_def)
  show ?thesis
  proof (cases "swapping g m")
    case True
    from finish_tic [OF inv ok assms(2) True peers] True show ?thesis by (auto simp: can_play_def)
  next
    case False
    note mok = inv_machine [OF inv assms(2)]
    have "\<forall>i < num_nodes (machines g m). new_length i (machines g m) \<le> MAX_DELAY"
      using register_lengths(4) [OF inv ok assms(2) False] mok
      by (force simp: MAX_DELAY_def machine_ok_def Let_def)
    then obtain p where p: "swap_register cmd (machines g m) = Done p"
      using swap_register_total [OF machine_wf [OF mok]] by blast
    let ?h = "after_register m cmd p g"
    have step: "game_step N idx g ?h"
      unfolding after_register_def using assms(2) False p by (rule game_step.swap_begin)
    have okh: "game_ok N ?h"
      using assms(3) by (auto simp: game_ok_def after_register_def set_machine_def)
    note invh = game_step_inv [OF step okh inv]
    have h: "swapping ?h m" "tics ?h m = tics g m" "typed ?h m = typed g m @ [cmd]"
      "\<And>k. k \<noteq> m \<Longrightarrow> stream ?h k = stream g k \<and> played ?h k = played g k \<and> typed ?h k = typed g k"
      by (auto simp: after_register_def set_machine_def tics_def stream_def)
    then obtain g' where g': "run N idx ?h g'" "tics g' m = Suc (tics ?h m)" "typed g' = typed ?h"
        "\<forall>k. k \<noteq> m \<longrightarrow> played g' k = played ?h k"
      using finish_tic [OF invh okh assms(2)] peers by metis
    have "run N idx g g'" using step g'(1) by simp
    with g' h False show ?thesis by (auto simp: can_play_def)
  qed
qed

text \<open>A tic that was played had a command of every machine.\<close>

lemma played_needs_commands:
  assumes "game_inv N idx pl g" and "m < N" and "k < N" and "k \<noteq> m"
  shows "tics g m \<le> 3 + length (typed g k)"
  using inv_link(1,2) [OF assms] by (simp add: stream_def)

text \<open>C6: the game never deadlocks, and exactly when a machine can go on. Take a reachable game
  in which no other machine makes a command from now on. A machine can play its next tic, with
  whatever packets were lost so far, if and only if every other machine has made its command
  of that tic: it has typed one for all but the first three tics, which every game starts with.
  It is enough for this that the machine is at most two tics ahead of every other one, so in
  particular the machine that is furthest behind can always go on, and at three or four tics
  (\<^verbatim>\<open>DELAY\<close>) ahead it depends on whether the others have typed. A machine that was in a
  call of \<^verbatim>\<open>SwapCommand\<close> finishes it, any other one makes the call with a command of its
  choice.\<close>

theorem lockstep_progress:
  assumes "reachable_game N idx pl g" and "m < N"
    and "\<forall>k < N. Suc (length (typed g k)) < 2 ^ 32 - 16"
  shows "(can_play N idx m cmd g \<longleftrightarrow> (\<forall>k < N. k \<noteq> m \<longrightarrow> tics g m < 3 + length (typed g k)))
    \<and> ((\<forall>k < N. tics g m \<le> tics g k + 2) \<longrightarrow> can_play N idx m cmd g)"
proof -
  have ok: "game_ok N g" using assms(3) by (auto simp: game_ok_def)
  have inv: "game_inv N idx pl g" using assms(1) ok by (rule game_safe.reach_inv)
  have "tics g m < 3 + length (typed g k)" if k: "k < N" "k \<noteq> m" and "can_play N idx m cmd g" for k
  proof -
    from that(3) obtain g' where g': "run N idx g g'" "tics g' m = Suc (tics g m)"
      "typed g' m = (if swapping g m then typed g m else typed g m @ [cmd])"
      "\<And>j. j \<noteq> m \<Longrightarrow> typed g' j = typed g j" unfolding can_play_def by blast
    have "length (typed g' j) < 2 ^ 32 - 16" if "j < N" for j
      using assms(3) that g'(3) g'(4) [of j] by (cases "j = m") (auto intro: Suc_lessD)
    then have "game_ok N g'" by (simp add: game_ok_def)
    then have "game_inv N idx pl g'" using run_inv [OF g'(1) inv] by blast
    from played_needs_commands [OF this assms(2) k] g'(2) g'(4) [OF k(2)] show ?thesis by simp
  qed
  moreover have "tics g m < 3 + length (typed g k)"
    if "\<forall>k < N. tics g m \<le> tics g k + 2" "k < N" "k \<noteq> m" for k
    using inv_stream [OF inv_machine [OF inv that(2)]] that(1,2) by (fastforce simp: stream_def split: if_splits)
  ultimately show ?thesis using play_next_tic [OF assms] by blast
qed

theorem lockstep_progress_witness:
  "\<exists>g'. run 2 pair_idx pair_start g' \<and> tics g' 0 = 1 \<and> typed g' 0 = [7] \<and> typed g' 1 = []"
proof -
  have "\<forall>k < 2. Suc (length (typed pair_start k)) < 2 ^ 32 - 16"
    "\<forall>k < 2. tics pair_start 0 \<le> tics pair_start k + 2"
    by (simp_all add: pair_start_def tics_def)
  with lockstep_progress [OF pair_start_reachable _ this(1), of 0 7] have "can_play 2 pair_idx 0 7 pair_start"
    by (meson zero_less_numeral)
  then show ?thesis by (fastforce simp: can_play_def pair_start_def tics_def)
qed

end
