(* ===== verification/Session_Progress.thy ===== *)
theory Session_Progress
  imports Session_Pair Progress
begin

text \<open>
  A write that waits can always return: whatever packets have been lost, when the driver delivers the
  packets that are sent again, the polls of the machines, in disk interrupts and in the loops of their
  own waiting writes, bring the missing commands.
\<close>

section \<open>What one poll of the driver does\<close>

text \<open>The part of the nodes that is sent: a resend changes the time only.\<close>

definition view :: "protocol \<Rightarrow> (window \<times> window \<times> int) list" where
  "view p = map (\<lambda>n. (send_window n, recv_window n, player n)) (nodes p)"

lemma view_length: "view p = view q \<Longrightarrow> length (nodes p) = length (nodes q)"
  unfolding view_def by (rule map_eq_imp_length_eq)

lemma view_nth:
  assumes "view p = view q" and "i < length (nodes q)"
  shows "send_window (nodes p ! i) = send_window (nodes q ! i)" and "recv_window (nodes p ! i) = recv_window (nodes q ! i)"
    and "player (nodes p ! i) = player (nodes q ! i)"
proof -
  have "view p ! i = view q ! i" using assms(1) by simp
  then show "send_window (nodes p ! i) = send_window (nodes q ! i)" "recv_window (nodes p ! i) = recv_window (nodes q ! i)"
    "player (nodes p ! i) = player (nodes q ! i)"
    using assms(2) view_length [OF assms(1)] by (auto simp: view_def)
qed

lemma view_sent_state [simp]: "view (sent_state i dc s) = view s"
  by (simp add: view_def sent_state_def map_update)
    (cases "i < length (nodes s)"; simp add: list_update_same_conv list_update_beyond)

lemma view_updates [simp]:
  "view (s\<lparr>clock_calls := n\<rparr>) = view s" "view (s\<lparr>driver := d\<rparr>) = view s" "view (s\<lparr>clock := c\<rparr>) = view s"
  "view (no_packet s) = view s" "view (take_answer a as s) = view s"
  by (simp_all add: view_def)

lemma packet_for_view: "view p = view q \<Longrightarrow> i < length (nodes q) \<Longrightarrow> packet_for i p = packet_for i q"
  using view_nth [of p q i] view_nth [of p q 0] by (cases "nodes q") (auto simp: packet_for_def Let_def)

lemma resends_late:
  assumes "ofold (resend_node T) is t = Done t'" and "wf_protocol t" and "clock t = (\<lambda>_. T)" and "distinct is"
    and "\<forall>i \<in> set is. i < MAX_PLAYERS"
  shows "view t' = view t \<and> wf_protocol t' \<and> answers (driver t') = answers (driver t)
    \<and> set (sent (driver t)) \<subseteq> set (sent (driver t'))
    \<and> (\<forall>i \<in> set is. last_send_time (nodes t ! i) \<noteq> T \<longrightarrow> (int i, packet_for i t) \<in> set (sent (driver t')))"
  using assms
proof (induction "is" arbitrary: t)
  case (Cons i "is")
  have len: "length (nodes t) = MAX_PLAYERS" using Cons.prems(2) by (simp add: wf_protocol_def)
  have i: "i < MAX_PLAYERS" using Cons.prems(5) by simp
  from Cons.prems(1) obtain u where u: "resend_node T i t = Done u" "ofold (resend_node T) is u = Done t'"
    by (auto simp: obind_eq_Done)
  show ?case
  proof (cases "last_send_time (nodes t ! i) \<noteq> T")
    case False
    then have "u = t" using u(1) by (simp add: resend_node_def)
    with Cons.IH [OF u(2)] Cons.prems False show ?thesis by auto
  next
    case True
    obtain dc where dc: "SendPacket i t = Done (sent_state i dc t)" "wf_protocol (sent_state i dc t)"
      using SendPacket_total [OF Cons.prems(2) i] by blast
    have u': "u = sent_state i dc t" using u(1) dc(1) True by (simp add: resend_node_def word_gt_0)
    have "clock u = (\<lambda>_. T)" using Cons.prems(3) by (simp add: u' sent_state_def)
    with Cons.IH [OF u(2)] dc(2) Cons.prems(4,5)
    have IH: "view t' = view u" "wf_protocol t'" "answers (driver t') = answers (driver u)"
      "set (sent (driver u)) \<subseteq> set (sent (driver t'))"
      "\<forall>j \<in> set is. last_send_time (nodes u ! j) \<noteq> T \<longrightarrow> (int j, packet_for j u) \<in> set (sent (driver t'))"
      by (simp_all add: u')
    have "last_send_time (nodes u ! j) = last_send_time (nodes t ! j)" "packet_for j u = packet_for j t"
      if j: "j \<in> set is" for j
    proof -
      have "i \<noteq> j" "j < length (nodes t)" using j Cons.prems(4,5) len by auto
      then show "last_send_time (nodes u ! j) = last_send_time (nodes t ! j)" "packet_for j u = packet_for j t"
        using packet_for_view [of u t j] by (simp_all add: u') (simp add: sent_state_def)
    qed
    with IH show ?thesis by (auto simp: u')
  qed
qed simp

lemma CheckResends_view:
  assumes "CheckResends s = Done s'" and "wf_protocol s"
  shows "view s' = view s" and "wf_protocol s'" and "answers (driver s') = answers (driver s)"
    and "set (sent (driver s)) \<subseteq> set (sent (driver s'))" and "num_nodes s' = num_nodes s"
proof -
  let ?P = "\<lambda>t. view t = view s \<and> wf_protocol t \<and> set (sent (driver s)) \<subseteq> set (sent (driver t))"
  have "?P s'"
  proof (rule CheckResends_invariant [OF _ _ assms(1), of ?P])
    fix i t t' assume i: "i \<in> {1..<num_nodes s}" and P: "?P t" and send: "SendPacket i t = Done t'"
    have "i < MAX_PLAYERS" using i assms(2) by (auto simp: wf_protocol_def)
    with P obtain dc where "SendPacket i t = Done (sent_state i dc t)" "wf_protocol (sent_state i dc t)"
      using SendPacket_total by blast
    with send P show "?P t'" by auto
  qed (use assms(2) in \<open>auto simp: wf_protocol_def\<close>)
  then show "view s' = view s" "wf_protocol s'" "set (sent (driver s)) \<subseteq> set (sent (driver s'))" by simp_all
  show "answers (driver s') = answers (driver s)" using assms(1) by (rule CheckResends_answers)
  show "num_nodes s' = num_nodes s" using counters_CheckResends [OF assms(1)] by (simp add: counters_def)
qed

text \<open>A poll that finds no packet, at a time at which no packet was sent, sends the window of every
  node again.\<close>

lemma poll_silent:
  assumes "wf_protocol p" and "clock p = (\<lambda>_. T)" and "\<forall>n \<in> set (nodes p). last_send_time n \<noteq> T"
    and "answers (driver p) = []"
  obtains q where "ReceivePackets p = Done q" and "view q = view p"
    and "\<And>i. 1 \<le> i \<Longrightarrow> i < num_nodes p \<Longrightarrow> (int i, packet_for i p) \<in> set (sent (driver q))"
proof -
  let ?t = "p\<lparr>clock_calls := Suc (clock_calls p)\<rparr>"
  obtain q where q: "CheckResends p = Done q" using CheckResends_total [OF assms(1)] by blast
  then have fold: "ofold (resend_node T) [1..<num_nodes p] ?t = Done q"
    by (simp add: CheckResends_def time_now_def assms(2))
  have n: "num_nodes p \<le> MAX_PLAYERS" "length (nodes p) = MAX_PLAYERS" "wf_protocol ?t"
    using assms(1) by (auto simp: wf_protocol_def)
  then have "\<forall>i \<in> set [1..<num_nodes p]. i < MAX_PLAYERS" by auto
  from resends_late [OF fold n(3) _ _ this] assms(2)
  have late: "answers (driver q) = []" "\<forall>i \<in> set [1..<num_nodes p]. last_send_time (nodes p ! i) \<noteq> T
      \<longrightarrow> (int i, packet_for i ?t) \<in> set (sent (driver q))"
    using assms(4) by simp_all
  have "(int i, packet_for i p) \<in> set (sent (driver q))" if i: "1 \<le> i" "i < num_nodes p" for i
  proof -
    have "nodes p ! i \<in> set (nodes p)" using i n by simp
    then have "last_send_time (nodes p ! i) \<noteq> T" using assms(3) by simp
    then show ?thesis using late(2) i packet_for_view [of ?t p i] n by auto
  qed
  moreover have "ReceivePackets p = Done (no_packet q)"
    using receive_loop_Nil [OF late(1)] by (simp add: ReceivePackets_def q)
  ultimately show thesis using CheckResends_view(1) [OF q assms(1)] that [of "no_packet q"] by simp
qed

text \<open>A poll that finds one packet.\<close>

lemma poll_packet:
  assumes "wf_protocol p" and "answers (driver p) = [a]" and "ans_node a = int i" and "i < num_nodes p"
    and "ans_bytes a = packet_bytes st ack pn cs" and "length cs \<le> MAX_DELAY" and "unat pn < MAX_PLAYERS"
  obtains q where "ReceivePackets p = Done q" and "length (nodes q) = length (nodes p)"
    and "\<And>j. j < length (nodes p) \<Longrightarrow> j \<noteq> i \<Longrightarrow> send_window (nodes q ! j) = send_window (nodes p ! j)
      \<and> recv_window (nodes q ! j) = recv_window (nodes p ! j)"
    and "send_window (nodes q ! i) = send_window (received st ack pn cs (nodes p ! i))"
    and "recv_window (nodes q ! i) = recv_window (received st ack pn cs (nodes p ! i))"
proof -
  obtain u where u: "CheckResends p = Done u" using CheckResends_total [OF assms(1)] by blast
  note v = CheckResends_view [OF u assms(1)]
  have i: "i < MAX_PLAYERS" "i < length (nodes p)" using assms(1,4) by (auto simp: wf_protocol_def)
  let ?q = "(take_answer a [] u)\<lparr>nodes := (nodes u)[i := received st ack pn cs (nodes u ! i)]\<rparr>"
  have len: "length (nodes u) = length (nodes p)" using v(1) by (rule view_length)
  have "ReceivePacket (nat (ans_node a)) (take_answer a [] u) = Done ?q"
    using ReceivePacket_bytes [OF v(2) i(1) assms(6,7,5)] assms(3) by simp
  then have "ReceivePackets p = Done (no_packet ?q)"
    using receive_loop_Cons [of u a "[]"] receive_loop_Nil [of ?q] v(3,5) assms(2,3,4)
    by (simp add: ReceivePackets_def u)
  moreover have "send_window (nodes ?q ! j) = send_window (nodes p ! j)
      \<and> recv_window (nodes ?q ! j) = recv_window (nodes p ! j)" if "j < length (nodes p)" "j \<noteq> i" for j
    using view_nth [OF v(1) that(1)] that(2) by simp
  moreover have "send_window (nodes ?q ! i) = send_window (received st ack pn cs (nodes p ! i))"
    "recv_window (nodes ?q ! i) = recv_window (received st ack pn cs (nodes p ! i))"
    using view_nth [OF v(1) i(2)] i(2) len by (simp_all add: received_def Let_def)
  ultimately show thesis using that [of "no_packet ?q"] len by simp
qed

section \<open>One packet delivered in a session\<close>

text \<open>A machine is free to poll when it is not waiting, or has to wait on.\<close>

definition free :: "nat \<Rightarrow> session \<Rightarrow> bool" where
  "free m S \<longleftrightarrow> pending S m = None \<or> \<not> NewTicReady (w_proto (worlds S m))"

definition with_input :: "answer list \<Rightarrow> (nat \<Rightarrow> u32) \<Rightarrow> protocol \<Rightarrow> protocol" where
  "with_input as c p = p\<lparr>driver := (driver p)\<lparr>answers := as\<rparr>, clock := c\<rparr>"

lemma with_input_simps [simp]:
  "nodes (with_input as c p) = nodes p" "num_nodes (with_input as c p) = num_nodes p"
  "answers (driver (with_input as c p)) = as" "clock (with_input as c p) = c"
  "view (with_input as c p) = view p" "packet_for i (with_input as c p) = packet_for i p"
  "wf_protocol (with_input as c p) = wf_protocol p"
  by (simp_all add: with_input_def view_def packet_for_def wf_protocol_def)

lemma NewTicReady_nodes: "nodes p = nodes q \<Longrightarrow> num_nodes p = num_nodes q \<Longrightarrow> NewTicReady p = NewTicReady q"
  by (simp add: NewTicReady_iff)

lemma two_steps: "r a b \<Longrightarrow> r b c \<Longrightarrow> r\<^sup>*\<^sup>* a c"
  by (rule rtranclp.rtrancl_into_rtrancl [OF r_into_rtranclp])

text \<open>The network gives a machine new answers, and the machine polls: in a disk interrupt that resets
  the drive, or in the loop of its waiting write.\<close>

lemma poll_step:
  assumes m: "m < N" and free: "free m S" and as: "\<forall>a \<in> set as. deliverable N idx (network S) m a"
    and poll: "ReceivePackets (with_input as c (w_proto (worlds S m))) = Done q"
  obtains w where "(session_step N idx)\<^sup>*\<^sup>* S (set_world m w S)" and "w_proto w = q"
proof -
  let ?w = "(worlds S m)\<lparr>w_proto := with_input as c (w_proto (worlds S m))\<rparr>"
  let ?S = "set_world m ?w S"
  have input: "session_step N idx S ?S"
    using session_step.input [OF m as refl, of c] by (simp add: with_input_def)
  show thesis
  proof (cases "pending S m")
    case None
    let ?r = "dos_regs\<lparr>r_ah := 0, r_dl := 1\<rparr>"
    have "\<exists>r' w'. run_int13 ?r ?w = Done (Returns, r', w') \<and> w_proto w' = q"
      using poll by (simp add: run_int13_def RealInt13_def Let_def)
    then obtain r' w' where w': "run_int13 ?r ?w = Done (Returns, r', w')" "w_proto w' = q" by blast
    have "session_step N idx ?S (set_world m w' ?S)"
      using None w'(1) by (intro session_step.int13 [OF m]) simp_all
    from two_steps [where r = "session_step N idx", OF input this] w'(2) that [of w'] show ?thesis by simp
  next
    case (Some call)
    let ?w' = "?w\<lparr>w_proto := q\<rparr>"
    have "\<not> NewTicReady (w_proto (worlds S m))" using free Some by (simp add: free_def)
    then have "\<not> NewTicReady (w_proto ?w)" by (simp add: NewTicReady_iff)
    then have "session_step N idx ?S (set_world m ((worlds ?S m)\<lparr>w_proto := q\<rparr>) ?S)"
      using Some poll by (intro session_step.write_poll [OF m]) simp_all
    from two_steps [where r = "session_step N idx", OF input this] that [of ?w'] show ?thesis by simp
  qed
qed

text \<open>There are \<open>2 ^ 32\<close> times and at most four nodes.\<close>

lemma other_time:
  assumes "length ns = MAX_PLAYERS"
  shows "\<exists>T :: u32. \<forall>n \<in> set ns. last_send_time n \<noteq> T"
proof -
  have "card (last_send_time ` set ns) \<le> MAX_PLAYERS"
    using assms card_image_le [of "set ns" last_send_time] card_length [of ns] by simp
  moreover have "card (UNIV :: u32 set) = 2 ^ 32" by (simp add: card_word)
  ultimately have "last_send_time ` set ns \<noteq> UNIV" by (auto simp: MAX_PLAYERS_def)
  then obtain T where "T \<notin> last_send_time ` set ns" by auto
  then show ?thesis by (intro exI [of _ T]) auto
qed

text \<open>The invariant of the game behind a session, for the session.\<close>

lemma session_facts:
  assumes "reachable_session N idx pl S" and "\<forall>k < N. length (given S k) < 2 ^ 32 - 16"
  obtains g where "game_inv N idx pl g" and "game_ok N g" and "\<And>m. m < N \<Longrightarrow> plays N S g m"
    and "topology N idx pl" and "\<And>m. m < N \<Longrightarrow> wf_protocol (w_proto (worlds S m))"
    and "\<And>m. m < N \<Longrightarrow> num_nodes (w_proto (worlds S m)) = N"
    and "\<And>m. m < N \<Longrightarrow> player (nodes (w_proto (worlds S m)) ! 0) = int (pl m)"
    and "\<And>x y. x < N \<Longrightarrow> wins idx g x y = wins idx (network S) x y"
proof -
  from assms(1) obtain g where g: "reachable_game N idx pl g" "\<And>m. m < N \<Longrightarrow> plays N S g m"
    by (rule reachable_game_of) blast
  have ok: "game_ok N g" using assms(2) g(2) by (auto simp: game_ok_def plays_def)
  with g(1) have inv: "game_inv N idx pl g" by (rule game_safe.reach_inv)
  have "wf_protocol (w_proto (worlds S m)) \<and> num_nodes (w_proto (worlds S m)) = N
      \<and> player (nodes (w_proto (worlds S m)) ! 0) = int (pl m)" if "m < N" for m
    using inv_machine [OF inv that] g(2) [OF that] by (auto simp: machine_ok_def plays_def Let_def)
  moreover have "wins idx g x y = wins idx (network S) x y" if "x < N" for x y
    using g(2) [OF that] by (simp add: wins_def node_for_def network_def plays_def)
  moreover have "topology N idx pl" using inv by (simp add: game_inv_def)
  ultimately show thesis using that inv ok g(2) by blast
qed

lemma wins_set_world:
  "wins idx (network (set_world m w S)) x y = (if x = m
    then (send_window (nodes (w_proto w) ! idx m y), recv_window (nodes (w_proto w) ! idx m y))
    else wins idx (network S) x y)"
  by (simp add: wins_def node_for_def network_def)

lemma wins_network: "wins idx (network S) x y
    = (send_window (nodes (w_proto (worlds S x)) ! idx x y), recv_window (nodes (w_proto (worlds S x)) ! idx x y))"
  by (simp add: wins_def node_for_def network_def)

lemma topology_nonzero:
  "topology N idx pl \<Longrightarrow> x < N \<Longrightarrow> y < N \<Longrightarrow> x \<noteq> y \<Longrightarrow> 1 \<le> idx x y"
  using topology_idx(2) [of N idx pl x y] by (metis One_nat_def Suc_leI bot_nat_0.not_eq_extremum)

text \<open>Machine \<open>x\<close> sends its window for \<open>y\<close> again.\<close>

lemma send_again:
  assumes S: "reachable_session N idx pl S" "\<forall>k < N. length (given S k) < 2 ^ 32 - 16"
    and x: "x < N" "free x S" and y: "y < N" "x \<noteq> y"
  shows "\<exists>w. (session_step N idx)\<^sup>*\<^sup>* S (set_world x w S) \<and> view (w_proto w) = view (w_proto (worlds S x))
    \<and> num_nodes (w_proto w) = num_nodes (w_proto (worlds S x))
    \<and> (int (idx x y), packet_for (idx x y) (w_proto (worlds S x))) \<in> set (sent (driver (w_proto w)))"
proof -
  let ?p = "w_proto (worlds S x)"
  obtain top: "topology N idx pl" and wf: "\<And>m. m < N \<Longrightarrow> wf_protocol (w_proto (worlds S m))"
    and n: "\<And>m. m < N \<Longrightarrow> num_nodes (w_proto (worlds S m)) = N"
    by (rule session_facts [OF S]) blast
  have i: "1 \<le> idx x y" "idx x y < N"
    using topology_nonzero [OF top x(1) y] topology_idx(1) [OF top x(1) y(1)] by simp_all
  obtain T where T: "\<forall>n \<in> set (nodes ?p). last_send_time n \<noteq> T"
    using other_time wf [OF x(1)] unfolding wf_protocol_def by blast
  have wfx: "wf_protocol (with_input [] (\<lambda>_. T) ?p)" using wf [OF x(1)] by simp
  obtain q where q: "ReceivePackets (with_input [] (\<lambda>_. T) ?p) = Done q" "view q = view ?p"
    "(int (idx x y), packet_for (idx x y) ?p) \<in> set (sent (driver q))"
    by (rule poll_silent [OF wfx, of T]) (use T i n [OF x(1)] in auto)
  obtain w where w: "(session_step N idx)\<^sup>*\<^sup>* S (set_world x w S)" "w_proto w = q"
    by (rule poll_step [OF x _ q(1)]) auto
  have "num_nodes q = num_nodes ?p" using counters_ReceivePackets [OF q(1)] by (simp add: counters_def)
  with w q(2,3) show ?thesis by blast
qed

text \<open>Machine \<open>y\<close> receives a packet that \<open>x\<close> has sent.\<close>

lemma accept_packet:
  assumes S: "reachable_session N idx pl S" "\<forall>k < N. length (given S k) < 2 ^ 32 - 16"
    and x: "x < N" and y: "y < N" "free y S" "x \<noteq> y" and len: "length cs \<le> MAX_DELAY"
    and sent: "(int (idx x y), packet_bytes st ack (of_nat (pl x)) cs) \<in> set (sent (driver (w_proto (worlds S x))))"
  defines "n \<equiv> nodes (w_proto (worlds S y)) ! idx y x"
  shows "\<exists>w. (session_step N idx)\<^sup>*\<^sup>* S (set_world y w S)
    \<and> (\<forall>z < N. z \<noteq> x \<longrightarrow> wins idx (network (set_world y w S)) y z = wins idx (network S) y z)
    \<and> wins idx (network (set_world y w S)) y x
        = (send_window (received st ack (of_nat (pl x)) cs n), recv_window (received st ack (of_nat (pl x)) cs n))"
proof -
  let ?p = "w_proto (worlds S y)" and ?pn = "of_nat (pl x) :: u8"
  obtain top: "topology N idx pl" and wf: "\<And>m. m < N \<Longrightarrow> wf_protocol (w_proto (worlds S m))"
    and nn: "\<And>m. m < N \<Longrightarrow> num_nodes (w_proto (worlds S m)) = N"
    by (rule session_facts [OF S]) blast
  define a :: answer where "a = \<lparr>ans_node = int (idx y x), ans_bytes = packet_bytes st ack ?pn cs\<rparr>"
  have del: "\<forall>b \<in> set [a]. deliverable N idx (network S) y b"
    using sent len x y(3) by (auto simp: deliverable_def a_def network_def MAX_DELAY_def DATA_SIZE_def)
  have "pl x < 4" using top x by (simp add: topology_def MAX_PLAYERS_def)
  then have pn: "unat ?pn < MAX_PLAYERS" by (simp add: MAX_PLAYERS_def)
  have wfy: "wf_protocol (with_input [a] (clock ?p) ?p)" using wf [OF y(1)] by simp
  obtain q where q: "ReceivePackets (with_input [a] (clock ?p) ?p) = Done q"
    "\<And>k. k < length (nodes ?p) \<Longrightarrow> k \<noteq> idx y x \<Longrightarrow> send_window (nodes q ! k) = send_window (nodes ?p ! k)
      \<and> recv_window (nodes q ! k) = recv_window (nodes ?p ! k)"
    "send_window (nodes q ! idx y x) = send_window (received st ack ?pn cs n)"
    "recv_window (nodes q ! idx y x) = recv_window (received st ack ?pn cs n)"
    by (rule poll_packet [OF wfy _ _ _ _ len pn, of a "idx y x"])
      (use nn [OF y(1)] topology_idx(1) [OF top y(1) x] in \<open>auto simp: a_def n_def\<close>)
  obtain w where w: "(session_step N idx)\<^sup>*\<^sup>* S (set_world y w S)" "w_proto w = q"
    by (rule poll_step [OF y(1,2) del, of "clock ?p" q]) (use q(1) in auto)
  have nodes: "idx y z < length (nodes ?p)" if "z < N" for z
    using topology_idx(3) [OF top y(1) that] wf [OF y(1)] by (simp add: wf_protocol_def)
  have "wins idx (network (set_world y w S)) y z = wins idx (network S) y z" if "z < N" "z \<noteq> x" for z
    using q(2) [OF nodes [OF that(1)]] topology_inj [OF top y(1) that(1) x] that(2)
    by (simp add: wins_set_world wins_network w(2))
  moreover have "wins idx (network (set_world y w S)) y x
      = (send_window (received st ack ?pn cs n), recv_window (received st ack ?pn cs n))"
    using q(3,4) by (simp add: wins_set_world w(2))
  ultimately show ?thesis using w(1) by blast
qed

lemma deliver_session:
  assumes S: "reachable_session N idx pl S" "\<forall>k < N. length (given S k) < 2 ^ 32 - 16"
    and x: "x < N" "free x S" and y: "y < N" "free y S" and xy: "x \<noteq> y"
  shows "\<exists>w w'. (session_step N idx)\<^sup>*\<^sup>* S (set_world y w' (set_world x w S))
    \<and> view (w_proto w) = view (w_proto (worlds S x)) \<and> num_nodes (w_proto w) = num_nodes (w_proto (worlds S x))
    \<and> (\<forall>z < N. z \<noteq> x \<longrightarrow> wins idx (network (set_world y w' (set_world x w S))) y z = wins idx (network S) y z)
    \<and> wins idx (network (set_world y w' (set_world x w S))) y x
        = after_packet (wins idx (network S) x y) (wins idx (network S) y x)"
proof -
  let ?p = "w_proto (worlds S x)"
  obtain top: "topology N idx pl" and wf: "\<And>m. m < N \<Longrightarrow> wf_protocol (w_proto (worlds S m))"
    and player: "\<And>m. m < N \<Longrightarrow> player (nodes (w_proto (worlds S m)) ! 0) = int (pl m)"
    by (rule session_facts [OF S]) blast
  from send_again [OF S x y(1) xy] obtain w where w: "(session_step N idx)\<^sup>*\<^sup>* S (set_world x w S)"
    "view (w_proto w) = view ?p" "num_nodes (w_proto w) = num_nodes ?p"
    "(int (idx x y), packet_for (idx x y) ?p) \<in> set (sent (driver (w_proto w)))" by blast
  let ?S = "set_world x w S"
  obtain W R where WR: "wins idx (network S) x y = (W, R)" by fastforce
  define ack where "ack = w_start R + ucast (w_len R)"
  have bs: "packet_for (idx x y) ?p = packet_bytes (w_start W) ack (of_nat (pl x)) (win_cmds W)"
    using WR by (simp add: packet_for_def Let_def wins_network ack_def player [OF x(1)])
  have "wf_window W"
    using wf_nth [OF wf [OF x(1)] topology_idx(3) [OF top x(1) y(1)]] WR by (simp add: wins_network wf_node_def)
  then have len: "length (win_cmds W) \<le> MAX_DELAY" by (simp add: length_win_cmds) (simp add: wf_window_def)
  have reach: "reachable_session N idx pl ?S" using w(1) S(1) by (rule reach_rtranclp)
  have bound: "\<forall>k < N. length (given ?S k) < 2 ^ 32 - 16" using S(2) by simp
  have y': "free y ?S" "worlds ?S y = worlds S y" using xy y(2) by (simp_all add: free_def)
  from accept_packet [OF reach bound x(1) y(1) y'(1) xy len, of "w_start W" ack] w(4) bs obtain w' where
    w': "(session_step N idx)\<^sup>*\<^sup>* ?S (set_world y w' ?S)"
      "\<forall>z < N. z \<noteq> x \<longrightarrow> wins idx (network (set_world y w' ?S)) y z = wins idx (network ?S) y z"
      "wins idx (network (set_world y w' ?S)) y x
        = (send_window (received (w_start W) ack (of_nat (pl x)) (win_cmds W) (nodes (w_proto (worlds S y)) ! idx y x)),
           recv_window (received (w_start W) ack (of_nat (pl x)) (win_cmds W) (nodes (w_proto (worlds S y)) ! idx y x)))"
    using y'(2) by auto
  have "wins idx (network ?S) y z = wins idx (network S) y z" for z using xy by (simp add: wins_set_world)
  moreover have "wins idx (network (set_world y w' ?S)) y x = after_packet (W, R) (wins idx (network S) y x)"
    unfolding w'(3) by (simp add: wins_network after_packet_def ack_def received_def Let_def)
  moreover have "(session_step N idx)\<^sup>*\<^sup>* S (set_world y w' ?S)" using w(1) w'(1) by simp
  ultimately show ?thesis using w(2,3) w'(2) WR by (intro exI [of _ w] exI [of _ w']) simp
qed

section \<open>A write that can return\<close>

text \<open>Only machine \<open>m\<close> has moved, and no game has made a command.\<close>

definition only :: "nat \<Rightarrow> session \<Rightarrow> session \<Rightarrow> bool" where
  "only m S S' \<longleftrightarrow> given S' = given S
     \<and> (\<forall>x. x \<noteq> m \<longrightarrow> worlds S' x = worlds S x \<and> pending S' x = pending S x \<and> seen S' x = seen S x)"

lemma only_wins: "only m S S' \<Longrightarrow> x \<noteq> m \<Longrightarrow> wins idx (network S') x y = wins idx (network S) x y"
  by (simp add: only_def wins_network)

lemma send_window_popped:
  "i < length (nodes s) \<Longrightarrow> send_window (nodes (popped_upto m s) ! i) = send_window (nodes s ! i)"
  by (auto simp: popped_upto_def nth_append pop_node_def)

lemma finish_write:
  assumes S: "reachable_session N idx pl S" "\<forall>k < N. length (given S k) < 2 ^ 32 - 16"
    and m: "m < N" "pending S m = Some c" "NewTicReady (w_proto (worlds S m))"
  shows "\<exists>S' keys. session_step N idx S S' \<and> only m S S' \<and> pending S' m = None \<and> seen S' m = seen S m @ [keys]
    \<and> (\<forall>y < N. fst (wins idx (network S') m y) = fst (wins idx (network S) m y))"
proof -
  let ?p = "w_proto (worlds S m)"
  obtain g where p: "plays N S g m" and top: "topology N idx pl" and wf: "wf_protocol ?p" and n: "num_nodes ?p = N"
    by (rule session_facts [OF S]) (use m(1) in blast)
  have call: "call_count c = 1" "call_sector c = SECTOR_SOPWITH1" "STATE_INIT < dstate (w_disk (worlds S m))"
    using p m(2) by (auto simp: plays_def)
  note col = swap_collect_eq(1) [OF wf m(3)]
  let ?q = "(popped_upto (num_nodes ?p) ?p)\<lparr>maketic := maketic ?p + 1, gametic := gametic ?p + 1\<rparr>"
  obtain r' w' where fin: "finish_call (\<lambda>_ _ _. Done (True, tic_cmds [0..<num_nodes ?p] ?p, ?q)) c (worlds S m) = Done (r', w')"
    and w': "w_proto w' = ?q"
    using finish_exchange(1) [OF call session_players [OF S(1) m(1)]] by auto
  from session_step.write_end [OF m col fin]
  have step: "session_step N idx S ((set_world m w' S)
      \<lparr>pending := (pending S)(m := None), seen := (seen S)(m := seen S m @ [buffer_keys c w'])\<rparr>)" .
  have "idx m y < length (nodes ?p)" if "y < N" for y
    using topology_idx(3) [OF top m(1) that] wf by (simp add: wf_protocol_def)
  then have "send_window (nodes (w_proto w') ! idx m y) = send_window (nodes ?p ! idx m y)" if "y < N" for y
    using that by (simp add: w' send_window_popped)
  with step show ?thesis
    by (intro exI [of _ "(set_world m w' S)
      \<lparr>pending := (pending S)(m := None), seen := (seen S)(m := seen S m @ [buffer_keys c w'])\<rparr>"]
      exI [of _ "buffer_keys c w'"]) (simp add: only_def wins_network)
qed

text \<open>A machine whose write has all its commands finishes it before it polls again.\<close>

lemma settle:
  assumes S: "reachable_session N idx pl S" "\<forall>k < N. length (given S k) < 2 ^ 32 - 16" and m: "m < N"
  shows "\<exists>S'. (session_step N idx)\<^sup>*\<^sup>* S S' \<and> only m S S' \<and> free m S'
    \<and> (\<forall>y < N. fst (wins idx (network S') m y) = fst (wins idx (network S) m y))"
proof (cases "free m S")
  case True
  then show ?thesis by (intro exI [of _ S]) (simp add: only_def)
next
  case False
  then obtain c where "pending S m = Some c" "NewTicReady (w_proto (worlds S m))" by (auto simp: free_def)
  from finish_write [OF S m this] obtain S' where "session_step N idx S S'" "only m S S'" "pending S' m = None"
    "\<forall>y < N. fst (wins idx (network S') m y) = fst (wins idx (network S) m y)" by blast
  then show ?thesis by (intro exI [of _ S']) (auto simp: free_def)
qed

text \<open>Machine \<open>m\<close> sends its window to \<open>k\<close>, which finishes its own write when it can.\<close>

lemma acknowledge_session:
  assumes S: "reachable_session N idx pl S" "\<forall>k < N. length (given S k) < 2 ^ 32 - 16"
    and m: "m < N" "free m S" and k: "k < N" "k \<noteq> m"
  shows "\<exists>S'. (session_step N idx)\<^sup>*\<^sup>* S S' \<and> free m S' \<and> free k S' \<and> pending S' m = pending S m
    \<and> seen S' m = seen S m \<and> given S' = given S \<and> (\<forall>y < N. wins idx (network S') m y = wins idx (network S) m y)
    \<and> fst (wins idx (network S') k m) = fst (after_packet (wins idx (network S) m k) (wins idx (network S) k m))"
proof -
  have bounded: "\<forall>j < N. length (given T j) < 2 ^ 32 - 16" if "given T = given S" for T :: session
    using S(2) that by simp
  have reach: "reachable_session N idx pl T" if "(session_step N idx)\<^sup>*\<^sup>* S T" for T
    using that S(1) by (rule reach_rtranclp)
  from settle [OF S k(1)] obtain S1 where S1: "(session_step N idx)\<^sup>*\<^sup>* S S1" "only k S S1" "free k S1"
    "\<forall>y < N. fst (wins idx (network S1) k y) = fst (wins idx (network S) k y)" by blast
  have m1: "free m S1" "given S1 = given S" using m(2) k(2) S1(2) by (simp_all add: free_def only_def)
  from deliver_session [OF reach [OF S1(1)] bounded [OF m1(2)] m(1) m1(1) k(1) S1(3)] k(2) obtain w w' where
    d: "(session_step N idx)\<^sup>*\<^sup>* S1 (set_world k w' (set_world m w S1))" "view (w_proto w) = view (w_proto (worlds S1 m))"
      "num_nodes (w_proto w) = num_nodes (w_proto (worlds S1 m))"
      "wins idx (network (set_world k w' (set_world m w S1))) k m
        = after_packet (wins idx (network S1) m k) (wins idx (network S1) k m)"
    by metis
  let ?S2 = "set_world k w' (set_world m w S1)"
  have run2: "(session_step N idx)\<^sup>*\<^sup>* S ?S2" using S1(1) d(1) by simp
  obtain wf: "wf_protocol (w_proto (worlds S1 m))" and top: "topology N idx pl"
    by (rule session_facts [OF reach [OF S1(1)] bounded [OF m1(2)]]) (use m(1) in blast)
  have len: "idx m y < length (nodes (w_proto (worlds S1 m)))" if "y < N" for y
    using topology_idx(3) [OF top m(1) that] wf by (simp add: wf_protocol_def)
  have w2: "wins idx (network ?S2) m y = wins idx (network S1) m y" if "y < N" for y
    using view_nth [OF d(2) len [OF that]] k(2) by (simp add: wins_set_world wins_network)
  have "NewTicReady (w_proto w) = NewTicReady (w_proto (worlds S1 m))"
    using view_nth(2) [OF d(2)] wf d(3) by (auto simp: NewTicReady_iff wf_protocol_def)
  then have m2: "free m ?S2" "given ?S2 = given S" using m1 k(2) by (simp_all add: free_def)
  from settle [OF reach [OF run2] bounded [OF m2(2)] k(1)] obtain S3 where
    S3: "(session_step N idx)\<^sup>*\<^sup>* ?S2 S3" "only k ?S2 S3" "free k S3"
    "\<forall>y < N. fst (wins idx (network S3) k y) = fst (wins idx (network ?S2) k y)" by blast
  have "wins idx (network S3) m y = wins idx (network S) m y" if "y < N" for y
    using w2 [OF that] only_wins [OF S3(2)] only_wins [OF S1(2)] k(2) by simp
  moreover have "fst (wins idx (network S3) k m) = fst (after_packet (wins idx (network S) m k) (wins idx (network S) k m))"
    using S3(4) d(4) S1(4) m(1) only_wins [OF S1(2), of m] k(2) by (simp add: after_packet_simps)
  moreover have "(session_step N idx)\<^sup>*\<^sup>* S S3" using run2 S3(1) by simp
  ultimately show ?thesis using m2 k(2) S3(2,3) S1(2) by (intro exI [of _ S3]) (simp add: free_def only_def)
qed

lemma exchange_session:
  assumes S: "reachable_session N idx pl S" "\<forall>k < N. length (given S k) < 2 ^ 32 - 16"
    and m: "m < N" "free m S" and k: "k < N" "k \<noteq> m"
  shows "\<exists>S'. (session_step N idx)\<^sup>*\<^sup>* S S' \<and> pending S' m = pending S m \<and> seen S' m = seen S m \<and> given S' = given S
    \<and> (\<forall>y < N. y \<noteq> k \<longrightarrow> wins idx (network S') m y = wins idx (network S) m y)
    \<and> unat (w_len (snd (wins idx (network S') m k))) = 3 + length (given S k) - length (seen S m)"
proof -
  from acknowledge_session [OF assms] obtain T where T: "(session_step N idx)\<^sup>*\<^sup>* S T" "free m T" "free k T"
    "pending T m = pending S m" "seen T m = seen S m" "given T = given S"
    "\<And>y. y < N \<Longrightarrow> wins idx (network T) m y = wins idx (network S) m y"
    "fst (wins idx (network T) k m) = fst (after_packet (wins idx (network S) m k) (wins idx (network S) k m))"
    by blast
  have reach: "reachable_session N idx pl T" using T(1) S(1) by (rule reach_rtranclp)
  have bound: "\<forall>k < N. length (given T k) < 2 ^ 32 - 16" using S(2) T(6) by simp
  from deliver_session [OF reach bound k(1) T(3) m(1) T(2) k(2)] obtain v v' where
    e: "(session_step N idx)\<^sup>*\<^sup>* T (set_world m v' (set_world k v T))"
      "\<forall>z < N. z \<noteq> k \<longrightarrow> wins idx (network (set_world m v' (set_world k v T))) m z = wins idx (network T) m z"
      "wins idx (network (set_world m v' (set_world k v T))) m k
        = after_packet (wins idx (network T) k m) (wins idx (network T) m k)"
    by metis
  let ?S' = "set_world m v' (set_world k v T)"
  obtain g where g: "game_inv N idx pl g" "game_ok N g" "\<And>x. x < N \<Longrightarrow> plays N S g x"
    "\<And>x y. x < N \<Longrightarrow> wins idx g x y = wins idx (network S) x y"
    by (rule session_facts [OF S]) blast
  have str: "length (stream g k) = 3 + length (given S k)" "tics g m = length (seen S m)"
    using g(3) [OF k(1)] g(3) [OF m(1)] by (auto simp: stream_def plays_def)
  have "unat (w_len (snd (wins idx (network ?S') m k))) = 3 + length (given S k) - length (seen S m)"
    unfolding e(3) after_packet_simps T(8) T(7) [OF k(1)] str [symmetric]
    using exchange_window [OF g(1,2) m(1) k] unfolding g(4) [OF m(1)] g(4) [OF k(1)] .
  moreover have "(session_step N idx)\<^sup>*\<^sup>* S ?S'" using T(1) e(1) by simp
  ultimately show ?thesis using T(4-7) e(2) k(2) by (intro exI [of _ ?S']) simp
qed

lemma catch_up_session:
  assumes S: "reachable_session N idx pl S" "\<forall>k < N. length (given S k) < 2 ^ 32 - 16"
    and m: "m < N" "pending S m = Some c" and ks: "set ks \<subseteq> {..<N} - {m}" "distinct ks"
  shows "\<exists>S'. (session_step N idx)\<^sup>*\<^sup>* S S' \<and> pending S' m = Some c \<and> seen S' m = seen S m \<and> given S' = given S
    \<and> (NewTicReady (w_proto (worlds S' m)) \<or> (\<forall>k \<in> set ks.
        unat (w_len (snd (wins idx (network S') m k))) = 3 + length (given S k) - length (seen S m)))"
  using ks
proof (induction ks)
  case Nil
  show ?case using m(2) by (intro exI [of _ S]) simp
next
  case (Cons k ks)
  then obtain T where T: "(session_step N idx)\<^sup>*\<^sup>* S T" "pending T m = Some c" "seen T m = seen S m" "given T = given S"
    "NewTicReady (w_proto (worlds T m)) \<or> (\<forall>k \<in> set ks.
       unat (w_len (snd (wins idx (network T) m k))) = 3 + length (given S k) - length (seen S m))"
    by auto
  show ?case
  proof (cases "NewTicReady (w_proto (worlds T m))")
    case True
    with T show ?thesis by blast
  next
    case False
    have reach: "reachable_session N idx pl T" using T(1) S(1) by (rule reach_rtranclp)
    have bound: "\<forall>k < N. length (given T k) < 2 ^ 32 - 16" using S(2) T(4) by simp
    have k: "k < N" "k \<noteq> m" using Cons.prems(1) by auto
    have "free m T" using False by (simp add: free_def)
    from exchange_session [OF reach bound m(1) this k] obtain S' where
      S': "(session_step N idx)\<^sup>*\<^sup>* T S'" "pending S' m = Some c" "seen S' m = seen S m" "given S' = given S"
        "\<forall>y < N. y \<noteq> k \<longrightarrow> wins idx (network S') m y = wins idx (network T) m y"
        "unat (w_len (snd (wins idx (network S') m k))) = 3 + length (given S k) - length (seen S m)"
      using T(2-4) by auto
    have "(session_step N idx)\<^sup>*\<^sup>* S S'" using T(1) S'(1) by simp
    moreover have "unat (w_len (snd (wins idx (network S') m j))) = 3 + length (given S j) - length (seen S m)"
      if "j \<in> set (k # ks)" for j
      using that S'(5,6) T(5) False Cons.prems by (cases "j = k") auto
    ultimately show ?thesis using S'(2-4) by blast
  qed
qed

lemma ready_session:
  assumes S: "reachable_session N idx pl S" "\<forall>k < N. length (given S k) < 2 ^ 32 - 16"
    and m: "m < N" "pending S m = Some c"
    and up: "\<And>k. k < N \<Longrightarrow> k \<noteq> m \<Longrightarrow> 0 < unat (w_len (snd (wins idx (network S) m k)))"
  shows "NewTicReady (w_proto (worlds S m))"
proof -
  obtain g where g: "game_inv N idx pl g" "\<And>x. x < N \<Longrightarrow> plays N S g x"
    "\<And>x y. x < N \<Longrightarrow> wins idx g x y = wins idx (network S) x y"
    by (rule session_facts [OF S]) blast
  have "swapping g m" "machines g m = w_proto (worlds S m)" using g(2) [OF m(1)] m(2) by (auto simp: plays_def)
  moreover have "tics g m < got idx g m k" if "k < N" "k \<noteq> m" for k
    using up [OF that] g(3) [OF m(1)] by (simp add: got_wins)
  ultimately show ?thesis using ready_when_up_to_date [OF g(1) m(1)] by simp
qed

lemma write_returns:
  assumes "reachable_session N idx pl S" and "\<forall>k < N. length (given S k) < 2 ^ 32 - 16"
    and "m < N" and "pending S m = Some c"
    and "\<forall>k < N. length (seen S m) < 3 + length (given S k)"
  shows "\<exists>S' keys. (session_step N idx)\<^sup>*\<^sup>* S S' \<and> pending S' m = None \<and> seen S' m = seen S m @ [keys]
    \<and> given S' = given S"
proof -
  let ?ks = "filter (\<lambda>k. k \<noteq> m) [0..<N]"
  have "set ?ks \<subseteq> {..<N} - {m}" "distinct ?ks" by auto
  from catch_up_session [OF assms(1-4) this] obtain T where
    T: "(session_step N idx)\<^sup>*\<^sup>* S T" "pending T m = Some c" "seen T m = seen S m" "given T = given S"
      "NewTicReady (w_proto (worlds T m)) \<or> (\<forall>k \<in> set ?ks.
        unat (w_len (snd (wins idx (network T) m k))) = 3 + length (given S k) - length (seen S m))"
    by blast
  have reach: "reachable_session N idx pl T" using T(1) assms(1) by (rule reach_rtranclp)
  have bound: "\<forall>k < N. length (given T k) < 2 ^ 32 - 16" using assms(2) T(4) by simp
  have "NewTicReady (w_proto (worlds T m))"
    using T(5) ready_session [OF reach bound assms(3) T(2)] assms(5) by fastforce
  from finish_write [OF reach bound assms(3) T(2) this] obtain S' keys where
    "session_step N idx T S'" "only m T S'" "pending S' m = None" "seen S' m = seen T m @ [keys]" by blast
  with T(1,3,4) show ?thesis by (intro exI [of _ S'] exI [of _ keys]) (simp add: only_def)
qed

section \<open>A game that writes its next command\<close>

text \<open>A buffer with one command for all players.\<close>

definition command_mem :: "u16 \<Rightarrow> memory" where
  "command_mem cmd = mstore (call_buffer data_write) (overwrite (replicate 512 0) 0 (enc_multio
     \<lparr>mu_max_players = 0, mu_num_players = 0, mu_last_player = 0, mu_key = replicate 4 cmd,
      mu_state = replicate 4 0, mu_explseed = 0\<rparr>)) (\<lambda>_. 0)"

lemma command_mem_keys: "w_mem w = command_mem cmd \<Longrightarrow> buffer_keys data_write w = replicate 4 cmd"
proof -
  let ?mu = "\<lparr>mu_max_players = 0, mu_num_players = 0, mu_last_player = 0, mu_key = replicate 4 cmd,
      mu_state = replicate 4 0, mu_explseed = 0\<rparr>"
  have wf: "wf_multio ?mu" by (simp add: wf_multio_def)
  have "length (overwrite (replicate 512 0) 0 (enc_multio ?mu)) = 512" using mu.store_length [OF wf] by simp
  then have "region (command_mem cmd) (call_buffer data_write) 512 = overwrite (replicate 512 0) 0 (enc_multio ?mu)"
    using region_mstore_wrap [of "overwrite (replicate 512 0) 0 (enc_multio ?mu)"] by (simp add: command_mem_def)
  moreover assume "w_mem w = command_mem cmd"
  ultimately show "buffer_keys data_write w = replicate 4 cmd"
    using mu.dec_store [OF wf] by (simp add: buffer_keys_def)
qed

lemma begin_write:
  assumes S: "reachable_session N idx pl S" "\<forall>k < N. length (given S k) < 2 ^ 32 - 16"
    and m: "m < N" "pending S m = None" "joined m S"
  obtains S' where "(session_step N idx)\<^sup>*\<^sup>* S S'" and "pending S' m = Some data_write" and "seen S' = seen S"
    and "given S' = (given S)(m := given S m @ [cmd])" and "\<And>k. k \<noteq> m \<Longrightarrow> pending S' k = pending S k"
proof -
  let ?p = "w_proto (worlds S m)"
  obtain g where g: "game_inv N idx pl g" "game_ok N g" "\<And>m. m < N \<Longrightarrow> plays N S g m"
    by (rule session_facts [OF S]) blast
  have gm: "machines g m = ?p" "\<not> swapping g m" using g(3) [OF m(1)] m(2) by (auto simp: plays_def)
  note fit = machine_exchange_fit(1) [OF g(1) m(1)]
  have wf: "wf_protocol ?p" and d: "maketic ?p - gametic ?p = of_nat DELAY"
    using fit gm(1) by (auto simp: exchange_fit_def)
  have n: "num_nodes ?p = N" using g(3) [OF m(1)] gm(1) by (simp add: plays_def)
  have "\<forall>i < num_nodes ?p. new_length i ?p \<le> MAX_DELAY"
    using register_lengths(4) [OF g(1,2) m(1) gm(2)] n gm(1) by (force simp: MAX_DELAY_def)
  then obtain p where p: "swap_register cmd ?p = Done p" using swap_register_total [OF wf] by blast
  let ?S = "set_world m ((worlds S m)\<lparr>w_pc := w_pc (worlds S m), w_mem := command_mem cmd\<rparr>) S"
  have one: "session_step N idx S ?S" using m(1,2) by (rule session_step.program)
  let ?w = "(worlds ?S m)\<lparr>int26_count := int26_count (worlds ?S m) + 1, w_pc := dos_setvect 0x13 Int13 (w_pc (worlds ?S m))\<rparr>"
  have cons: "consoleplayer ?p < 4" using session_players [OF S(1) m(1)] by (simp add: MAX_PLAYERS_def)
  have keys: "buffer_keys data_write ?w = replicate 4 cmd" by (rule command_mem_keys) simp
  have "exchanges data_write ?w"
    using m(3) d by (simp add: exchanges_def data_write_simps joined_def DELAY_def MAX_DELAY_def)
  then have "session_step N idx ?S ((set_world m (?w\<lparr>w_proto := p\<rparr>) ?S)
      \<lparr>pending := (pending ?S)(m := Some data_write), given := (given ?S)(m := given ?S m @ [cmd])\<rparr>)"
    using m(2) p keys cons by (intro session_step.write_begin [OF m(1)]) (simp_all add: data_write_simps)
  from two_steps [where r = "session_step N idx", OF one this] show thesis by (rule that) simp_all
qed

lemma next_exchange:
  assumes S: "reachable_session N idx pl S" and small: "\<forall>k < N. Suc (length (given S k)) < 2 ^ 32 - 16"
    and m: "m < N" and st: "pending S m = None \<longrightarrow> STATE_INIT < dstate (w_disk (worlds S m))"
    and up: "\<forall>k < N. k \<noteq> m \<longrightarrow> length (seen S m) < 3 + length (given S k)"
  shows "\<exists>S' keys. (session_step N idx)\<^sup>*\<^sup>* S S' \<and> pending S' m = None \<and> seen S' m = seen S m @ [keys]
    \<and> given S' = (if pending S m = None then (given S)(m := given S m @ [cmd]) else given S)"
proof -
  have bound: "\<forall>k < N. length (given S k) < 2 ^ 32 - 16" using small by auto
  obtain g where g: "game_inv N idx pl g" "\<And>m. m < N \<Longrightarrow> plays N S g m"
    by (rule session_facts [OF S bound]) blast
  have own: "length (given S m) = length (seen S m) + (if pending S m = None then 0 else 1)"
    using inv_machine [OF g(1) m] g(2) [OF m] by (auto simp: machine_ok_def plays_def Let_def)
  show ?thesis
  proof (cases "pending S m")
    case (Some c)
    have "\<forall>k < N. length (seen S m) < 3 + length (given S k)" using up own by auto
    from write_returns [OF S bound m Some this] Some show ?thesis by simp
  next
    case None
    with st have "joined m S" by (simp add: joined_def)
    with S bound m None obtain T where T: "(session_step N idx)\<^sup>*\<^sup>* S T" "pending T m = Some data_write" "seen T = seen S"
      "given T = (given S)(m := given S m @ [cmd])" by (rule begin_write [where cmd = cmd])
    have reach: "reachable_session N idx pl T" using T(1) S by (rule reach_rtranclp)
    have "\<forall>k < N. length (given T k) < 2 ^ 32 - 16" using small by (auto simp: T(4))
    moreover have "\<forall>k < N. length (seen T m) < 3 + length (given T k)" using up own None by (auto simp: T(3,4))
    ultimately obtain S' keys where "(session_step N idx)\<^sup>*\<^sup>* T S'" "pending S' m = None" "seen S' m = seen T m @ [keys]"
      "given S' = given T" using write_returns [OF reach _ m T(2)] by blast
    moreover from this(1) T(1) have "(session_step N idx)\<^sup>*\<^sup>* S S'" by simp
    ultimately show ?thesis using T(3,4) None by (intro exI [of _ S'] exI [of _ keys]) simp
  qed
qed

text \<open>C4: the whole program never gets stuck. In every session, a machine that has joined can make its next
  exchange of commands, and a write of the data sector that already waits in the loop can return, as soon as
  the other games have made their commands for the tic: the network has to deliver packets that are sent
  again, but no other game has to make another command. Its game then has seen one more tic.\<close>

theorem session_progress:
  assumes "reachable_session N idx pl S" and "\<forall>k < N. Suc (length (given S k)) < 2 ^ 32 - 16"
    and "m < N" and "pending S m = None \<longrightarrow> STATE_INIT < dstate (w_disk (worlds S m))"
    and "\<forall>k < N. k \<noteq> m \<longrightarrow> length (seen S m) < 3 + length (given S k)"
  shows "\<exists>S' keys. (session_step N idx)\<^sup>*\<^sup>* S S' \<and> pending S' m = None \<and> seen S' m = seen S m @ [keys]
    \<and> given S' = (if pending S m = None then (given S)(m := given S m @ [cmd]) else given S)"
  using assms by (rule next_exchange)

theorem session_progress_witness:
  "\<exists>S S'. reachable_session 2 pair_idx (\<lambda>m. m) S \<and> pending S 1 \<noteq> None \<and> seen S 1 = []
    \<and> (session_step 2 pair_idx)\<^sup>*\<^sup>* S S' \<and> pending S' 1 = None \<and> length (seen S' 1) = 1"
proof (rule pair_exchanged)
  fix S assume S: "reachable_session 2 pair_idx (\<lambda>m. m) S" "given S 0 = [9]" "given S 1 = [5]" "seen S 1 = []"
    "pending S 1 \<noteq> None"
  from S(5) obtain c where c: "pending S 1 = Some c" by auto
  have h: "\<forall>k < 2. Suc (length (given S k)) < 2 ^ 32 - 16" "\<forall>k < 2. k \<noteq> 1 \<longrightarrow> length (seen S 1) < 3 + length (given S k)"
    using S(2-4) by (simp_all add: two_machines)
  from session_progress [OF S(1) h(1) _ _ h(2)] c obtain S' keys where
    "(session_step 2 pair_idx)\<^sup>*\<^sup>* S S'" "pending S' 1 = None" "seen S' 1 = seen S 1 @ [keys]" by auto
  with S show ?thesis by (intro exI [of _ S] exI [of _ S']) simp
qed

text \<open>The session of two machines, until machine 0 has seen the tic of the first commands.\<close>

lemma pair_seen:
  obtains S where "reachable_session 2 pair_idx (\<lambda>m. m) S" and "length (given S 0) \<le> 10" and "given S 1 = [5]"
    and "length (seen S 0) = 4" and "given S 0 \<noteq> []" and "hd (given S 0) = 9" and "num_players (w_proto (worlds S 0)) = 2"
proof -
  have more: "\<exists>T. (session_step 2 pair_idx)\<^sup>*\<^sup>* S T \<and> length (seen T 0) = Suc n \<and> joined 0 T \<and> given T 1 = [5]
      \<and> hd (given T 0) = 9 \<and> given T 0 \<noteq> [] \<and> length (given T 0) \<le> Suc (length (given S 0))
      \<and> reachable_session 2 pair_idx (\<lambda>m. m) T \<and> num_players (w_proto (worlds T 0)) = 2"
    if S: "reachable_session 2 pair_idx (\<lambda>m. m) S" "length (seen S 0) = n" "n < 4" "joined 0 S" "given S 1 = [5]"
      "hd (given S 0) = 9" "given S 0 \<noteq> []" "length (given S 0) \<le> 9" "num_players (w_proto (worlds S 0)) = 2"
    for S :: session and n
  proof -
    have h: "\<forall>k < 2. Suc (length (given S k)) < 2 ^ 32 - 16" "\<forall>k < 2. k \<noteq> 0 \<longrightarrow> length (seen S 0) < 3 + length (given S k)"
      "pending S 0 = None \<longrightarrow> STATE_INIT < dstate (w_disk (worlds S 0))"
      using S by (simp_all add: two_machines joined_def)
    from next_exchange [OF S(1) h(1) _ h(3,2), of 0] obtain T keys where
      T: "(session_step 2 pair_idx)\<^sup>*\<^sup>* S T" "seen T 0 = seen S 0 @ [keys]"
        "given T = (if pending S 0 = None then (given S)(0 := given S 0 @ [0]) else given S)" by auto
    with S reach_rtranclp [OF T(1) S(1)] run_joined [OF T(1) S(4)] run_num_players [OF T(1), of 0] show ?thesis
      by (intro exI [of _ T]) simp
  qed
  obtain S where S: "reachable_session 2 pair_idx (\<lambda>m. m) S" "given S 0 = [9]" "given S 1 = [5]" "length (seen S 0) = 1"
      "num_players (w_proto (worlds S 0)) = 2" "joined 0 S"
    by (rule pair_exchanged)
  obtain T where T: "reachable_session 2 pair_idx (\<lambda>m. m) T" "length (seen T 0) = 2" "joined 0 T" "given T 1 = [5]"
      "hd (given T 0) = 9" "given T 0 \<noteq> []" "length (given T 0) \<le> 2" "num_players (w_proto (worlds T 0)) = 2"
    using more [of S 1] S by (auto simp: numeral_2_eq_2)
  obtain U where U: "reachable_session 2 pair_idx (\<lambda>m. m) U" "length (seen U 0) = 3" "joined 0 U" "given U 1 = [5]"
      "hd (given U 0) = 9" "given U 0 \<noteq> []" "length (given U 0) \<le> 3" "num_players (w_proto (worlds U 0)) = 2"
    using more [of T 2] T by (auto simp: numeral_3_eq_3)
  show thesis using more [of U 3] U that by fastforce
qed

end
