(* ===== verification/Session_Sound.thy ===== *)
theory Session_Sound
  imports Session_Progress
begin

text \<open>
  What holds in every session, for the players and for the program: all games see the same commands,
  no interrupt ever fails an assertion or leaves an array, and an interrupt that returns is a run of
  the session.
\<close>

text \<open>A write call of the session, as one run.\<close>

lemma write_is_run:
  assumes S: "reachable_session N idx pl S" and m: "m < N" and idle: "pending S m = None" and c: "is_call c"
    and run: "run_call c (worlds S m) = Done (e, r', w')"
  shows "\<exists>S'. (session_step N idx)\<^sup>*\<^sup>* S S' \<and> worlds S' = (worlds S)(m := w') \<and> pending S' = pending S
    \<and> (\<forall>k. k \<noteq> m \<longrightarrow> given S' k = given S k \<and> seen S' k = seen S k)
    \<and> (given S' m = given S m \<and> seen S' m = seen S m
       \<or> (\<exists>c cmd. given S' m = given S m @ [cmd] \<and> seen S' m = seen S m @ [buffer_keys c w']))"
proof -
  from run obtain w where w: "enter_call c (worlds S m) = Done w" "finish_call SwapCommand c w = Done (r', w')"
    by (auto simp: run_call_parts [OF c] obind_eq_Done)
  show ?thesis
  proof (cases "exchanges c w")
    case False
    from session_step.write_other [OF m idle c w(1) False w(2)]
    show ?thesis by (intro exI [of _ "set_world m w' S"]) auto
  next
    case True
    have np: "num_players (w_proto w) \<le> MAX_PLAYERS" "consoleplayer (w_proto w) < num_players (w_proto w)"
      using session_players [OF S m] enter_call_players [OF w(1)] by simp_all
    from exchange_run [OF m idle c w(1) True np w(2)] show ?thesis
      by (intro exI [of _ "after_exchange m c (buffer_keys c w ! consoleplayer (w_proto w)) w' S"])
        (auto simp: after_exchange_def)
  qed
qed

text \<open>C1: the whole program. However the games on the machines call the disk, however the calls
  overlap, and however packets are lost, duplicated, reordered or damaged (in a way that the length,
  the checksum, the player or the number of commands shows): what a game finds in its
  buffer after the \<open>t\<close>-th write that has returned is, for the player of every machine, what the game
  of that machine had put into its own buffer as its \<open>t\<close>-th command, counting three empty ones at the
  start; so all games go through the same tics. The machines have been started by
  \<^verbatim>\<open>main\<close>, and the handlers are those of interrupts 13h, 25h and 26h.\<close>

theorem session_agreement:
  assumes "reachable_session N idx pl S" and "\<forall>k < N. length (given S k) < 2 ^ 32 - 16"
    and "m < N" and "t < length (seen S m)"
  shows "(\<forall>k < N. pl k < num_players (w_proto (worlds S m)) \<longrightarrow>
        seen S m ! t ! pl k = (replicate 3 0 @ given S k) ! t)
    \<and> (\<forall>k < N. t < length (seen S k) \<longrightarrow> (\<forall>p < num_players (w_proto (worlds S m)).
        p < num_players (w_proto (worlds S k)) \<longrightarrow> seen S k ! t ! p = seen S m ! t ! p))"
proof -
  from assms(1) obtain g where g: "reachable_game N idx pl g" "\<And>m. m < N \<Longrightarrow> plays N S g m"
    by (rule reachable_game_of) blast
  have "game_ok N g" using assms(2) g(2) by (auto simp: game_ok_def plays_def)
  with g(1) have inv: "game_inv N idx pl g" by (rule game_safe.reach_inv)
  then have top: "topology N idx pl" by (simp add: game_inv_def)
  have vec: "seen S k ! t ! p = tic_vector N pl g t ! p"
    if "k < N" "t < length (seen S k)" "p < num_players (w_proto (worlds S k))" for k p
    using g(2) [OF that(1)] that played_vector [OF inv that(1)] by (simp add: plays_def)
  have "stream g k = replicate 3 0 @ given S k" if "k < N" for k
    using g(2) [OF that] by (simp add: stream_def plays_def)
  then show ?thesis
    using vec assms(3,4) tic_vector_player [OF top, of _ g t] by simp
qed


theorem session_agreement_witness:
  "\<exists>S. reachable_session 2 pair_idx (\<lambda>m. m) S \<and> length (seen S 0) = 4 \<and> hd (given S 0) = 9 \<and> given S 1 = [5]
    \<and> seen S 0 ! 3 ! 0 = 9 \<and> seen S 0 ! 3 ! 1 = 5"
proof (rule pair_seen)
  fix S assume S: "reachable_session 2 pair_idx (\<lambda>m. m) S" "length (given S 0) \<le> 10" "given S 1 = [5]"
    "length (seen S 0) = 4" "given S 0 \<noteq> []" "hd (given S 0) = 9" "num_players (w_proto (worlds S 0)) = 2"
  have "\<forall>k < 2. length (given S k) < 2 ^ 32 - 16" using S(2,3) by (simp add: two_machines)
  from session_agreement [OF S(1) this, of 0 3, THEN conjunct1] S(4,7)
  have "seen S 0 ! 3 ! k = (replicate 3 0 @ given S k) ! 3" if "k < 2" for k using that by simp
  from this [of 0] this [of 1] have "seen S 0 ! 3 ! 0 = given S 0 ! 0" "seen S 0 ! 3 ! 1 = given S 1 ! 0"
    by (simp_all add: nth_append)
  then show ?thesis using S by (intro exI [of _ S]) (simp add: hd_conv_nth)
qed

section \<open>No interrupt fails\<close>

definition no_fault :: "'a outcome \<Rightarrow> bool" where
  "no_fault x \<longleftrightarrow> (\<forall>e. x \<noteq> Fault e)"

lemma no_fault_simps [simp]: "no_fault (Done a)" "no_fault Blocked" "\<not> no_fault (Fault e)"
  by (simp_all add: no_fault_def)

lemma no_fault_obind: "no_fault x \<Longrightarrow> (\<And>a. x = Done a \<Longrightarrow> no_fault (f a)) \<Longrightarrow> no_fault (obind x f)"
  by (cases x) auto

text \<open>The calls of the disk, when the numbers of players are in their ranges.\<close>

definition players_ok :: "protocol \<Rightarrow> bool" where
  "players_ok p \<longleftrightarrow> consoleplayer p < num_players p \<and> num_players p \<le> MAX_PLAYERS"

lemma ReadSector_no_fault:
  assumes "players_ok p"
  shows "no_fault (ReadSector p data sector cnt d)"
proof -
  have "no_fault (ReadData p data d)" for data d
    using assms by (cases "dstate d") (auto simp: ReadData_def players_ok_def)
  then show ?thesis by (simp add: ReadSector_def Let_def split: prod.split)
qed

lemma WriteSector_no_fault:
  assumes "players_ok p" and "\<And>cmd cs. no_fault (SwapCommand cmd cs p)"
  shows "no_fault (WriteSector p data sector cnt d)"
proof -
  have "consoleplayer p < 4" using assms(1) by (simp add: players_ok_def MAX_PLAYERS_def)
  then have "no_fault (WriteData_with SwapCommand p data d)" for data d
    using assms by (cases "dstate d")
      (auto simp: WriteData_with_def Let_def players_ok_def intro!: no_fault_obind split: prod.split)
  then show ?thesis by (simp add: WriteSector_def WriteSector_with_def Let_def split: prod.split)
qed

lemma read_at_no_fault: "players_ok (w_proto w) \<Longrightarrow> no_fault (read_at buf sector cnt w)"
  unfolding read_at_def by (intro no_fault_obind ReadSector_no_fault) (auto split: prod.split)

lemma write_at_no_fault:
  "players_ok (w_proto w) \<Longrightarrow> (\<And>cmd cs. no_fault (SwapCommand cmd cs (w_proto w))) \<Longrightarrow>
    no_fault (write_at buf sector cnt w)"
  unfolding write_at_def by (intro no_fault_obind WriteSector_no_fault) (auto split: prod.split)

text \<open>A machine on which no interrupt can fail: the protocol can be polled, and a command can be
  exchanged, before and after the poll.\<close>

definition calls_safe :: "protocol \<Rightarrow> bool" where
  "calls_safe p \<longleftrightarrow> players_ok p \<and> no_fault (ReceivePackets p) \<and> (\<forall>cmd cs. no_fault (SwapCommand cmd cs p))
     \<and> (\<forall>q. ReceivePackets p = Done q \<longrightarrow> players_ok q \<and> (\<forall>cmd cs. no_fault (SwapCommand cmd cs q)))"

lemma interrupts_no_fault:
  assumes "calls_safe (w_proto w)"
  shows "no_fault (run_int13 r w)" and "no_fault (run_int25 r w)" and "no_fault (run_int26 r w)"
proof -
  have p: "players_ok (w_proto w)" "\<And>cmd cs. no_fault (SwapCommand cmd cs (w_proto w))"
    "no_fault (ReceivePackets (w_proto w))"
    using assms by (auto simp: calls_safe_def)
  have q: "players_ok q" "no_fault (SwapCommand cmd cs q)" if "ReceivePackets (w_proto w) = Done q" for q cmd cs
    using assms that by (auto simp: calls_safe_def)
  show "no_fault (run_int13 r w)"
    unfolding run_int13_def RealInt13_def Let_def
    by (intro no_fault_obind p(3)) (auto intro!: no_fault_obind read_at_no_fault write_at_no_fault q split: prod.split)
  show "no_fault (run_int25 r w)"
    unfolding run_int25_def Let_def using p(1)
    by (auto intro!: no_fault_obind read_at_no_fault split: prod.split)
  show "no_fault (run_int26 r w)"
    unfolding run_int26_def Let_def using p(1,2)
    by (auto intro!: no_fault_obind write_at_no_fault split: prod.split)
qed

lemma game_calls_safe:
  assumes g: "reachable_game N idx pl g" and m: "m < N" and idle: "\<not> swapping g m"
    and small: "\<forall>k < N. Suc (length (typed g k)) < 2 ^ 32 - 16"
  shows "calls_safe (machines g m)"
proof -
  let ?p = "machines g m"
  have ok: "game_ok N g" using small by (auto simp: game_ok_def)
  have inv: "game_inv N idx pl g" using g ok by (rule game_safe.reach_inv)
  note fit = machine_exchange_fit(1) [OF inv m]
  have swap: "no_fault (SwapCommand cmd cs (machines h m))"
    if "reachable_game N idx pl h" "\<not> swapping h m" "typed h = typed g" for h cmd cs
    using SwapCommand_game_call [OF that(1) m that(2), of cmd cs] small that(3) by auto
  have "\<exists>q. ReceivePackets ?p = Done q" using ReceivePackets_total [of ?p] fit by (auto simp: exchange_fit_def)
  moreover have "players_ok q \<and> (\<forall>cmd cs. no_fault (SwapCommand cmd cs q))" if q: "ReceivePackets ?p = Done q" for q
  proof -
    have n: "num_nodes ?p = N" using inv_machine [OF inv m] by (simp add: machine_ok_def Let_def)
    from run_ReceivePackets [OF m n q, of idx g] have "run N idx g (set_machine m q g)" by simp
    with g have "reachable_game N idx pl (set_machine m q g)" by (auto intro: reach_rtranclp)
    from swap [OF this] idle have "no_fault (SwapCommand cmd cs q)" for cmd cs
      by (simp add: set_machine_def)
    moreover have "exchange_fit q" using fit q by (rule ReceivePackets_fit)
    ultimately show ?thesis using sw.fit_players by (auto simp: players_ok_def)
  qed
  ultimately show ?thesis
    using swap [OF g idle] sw.fit_players [OF fit] by (auto simp: calls_safe_def players_ok_def)
qed

text \<open>C2: types are kept and no step is stuck. In every session the protocol of every machine is well
  formed: arrays have their lengths and counters are in range. A machine that is not waiting can take
  any disk interrupt with any registers and memory without a failed assertion, an access outside an
  array or a division by zero; and a machine that waits can go on, with a poll of its driver or, when
  all commands are there, to the end of its write.\<close>

theorem session_type_safe:
  assumes "reachable_session N idx pl S" and "\<forall>k < N. Suc (length (given S k)) < 2 ^ 32 - 16" and "m < N"
  shows "wf_protocol (w_proto (worlds S m))
    \<and> (case pending S m of
         None \<Rightarrow> \<forall>r e. run_int13 r (worlds S m) \<noteq> Fault e \<and> run_int25 r (worlds S m) \<noteq> Fault e
           \<and> run_int26 r (worlds S m) \<noteq> Fault e
       | Some c \<Rightarrow> if NewTicReady (w_proto (worlds S m))
           then \<exists>cs p r' w'. swap_collect (w_proto (worlds S m)) = Done (cs, p)
             \<and> finish_call (\<lambda>_ _ _. Done (True, cs, p)) c (worlds S m) = Done (r', w')
           else \<exists>p. ReceivePackets (w_proto (worlds S m)) = Done p)"
proof -
  from assms(1) obtain g where g: "reachable_game N idx pl g" "\<And>m. m < N \<Longrightarrow> plays N S g m"
    by (rule reachable_game_of) blast
  note p = g(2) [OF assms(3)]
  have small: "\<forall>k < N. Suc (length (typed g k)) < 2 ^ 32 - 16"
    using assms(2) g(2) by (simp add: plays_def)
  then have "game_ok N g" by (auto simp: game_ok_def)
  with g(1) have inv: "game_inv N idx pl g" by (rule game_safe.reach_inv)
  have w: "machines g m = w_proto (worlds S m)" using p by (simp add: plays_def)
  have fit: "exchange_fit (w_proto (worlds S m))" using machine_exchange_fit(1) [OF inv assms(3)] w by simp
  then have wf: "wf_protocol (w_proto (worlds S m))" by (simp add: exchange_fit_def)
  show ?thesis
  proof (cases "pending S m")
    case None
    then have "\<not> swapping g m" using p by (simp add: plays_def)
    from game_calls_safe [OF g(1) assms(3) this small] w
    have "calls_safe (w_proto (worlds S m))" by simp
    from interrupts_no_fault [OF this] wf None show ?thesis by (simp add: no_fault_def)
  next
    case (Some c)
    have "\<exists>p. ReceivePackets (w_proto (worlds S m)) = Done p"
      using ReceivePackets_total [of "w_proto (worlds S m)"] fit by (auto simp: exchange_fit_def)
    moreover have "\<exists>cs p. swap_collect (w_proto (worlds S m)) = Done (cs, p)"
      if "NewTicReady (w_proto (worlds S m))"
      using swap_collect_eq(1) [OF wf that] by blast
    moreover have call: "call_count c = 1" "call_sector c = SECTOR_SOPWITH1" "STATE_INIT < dstate (w_disk (worlds S m))"
      using p Some by (auto simp: plays_def)
    ultimately show ?thesis
      using wf Some finish_exchange(1) [OF call session_players [OF assms(1,3)]] by auto
  qed
qed

theorem session_type_safe_witness:
  "\<exists>S. reachable_session 2 pair_idx (\<lambda>m. m) S \<and> given S 0 = [9]
    \<and> wf_protocol (w_proto (worlds S 0)) \<and> (\<forall>r e. run_int13 r (worlds S 0) \<noteq> Fault e)"
proof (rule pair_exchanged)
  fix S assume S: "reachable_session 2 pair_idx (\<lambda>m. m) S" "given S 0 = [9]" "given S 1 = [5]" "pending S 0 = None"
  have "\<forall>k < 2. Suc (length (given S k)) < 2 ^ 32 - 16" using S(2,3) by (simp add: two_machines)
  from session_type_safe [OF S(1) this, of 0] S show ?thesis by (intro exI [of _ S]) simp
qed

text \<open>C3: the steps of a session are the code of the handlers. Every disk interrupt that returns, as
  one call of the handler, is a run of the session that ends with the registers, memory and state
  of the call, and the histories record one exchange at most; so a session has the behaviour of the
  handlers, with a waiting call taken apart at the polls of its loop.\<close>

theorem interrupts_are_runs:
  assumes "reachable_session N idx pl S" and "m < N" and "pending S m = None"
    and "run_int13 r (worlds S m) = Done (e, r', w') \<or> run_int25 r (worlds S m) = Done (e, r', w')
      \<or> run_int26 r (worlds S m) = Done (e, r', w')"
  shows "\<exists>S'. (session_step N idx)\<^sup>*\<^sup>* S S' \<and> worlds S' = (worlds S)(m := w') \<and> pending S' = pending S
    \<and> (\<forall>k. k \<noteq> m \<longrightarrow> given S' k = given S k \<and> seen S' k = seen S k)
    \<and> (given S' m = given S m \<and> seen S' m = seen S m
       \<or> (\<exists>c cmd. given S' m = given S m @ [cmd] \<and> seen S' m = seen S m @ [buffer_keys c w']))"
proof -
  have one: ?thesis if "session_step N idx S (set_world m w' S)"
    using that by (intro exI [of _ "set_world m w' S"]) auto
  from assms(4) show ?thesis
  proof (elim disjE)
    assume run: "run_int13 r (worlds S m) = Done (e, r', w')"
    show ?thesis
    proof (cases "is_call (BiosWrite r)")
      case True
      show ?thesis using run by (intro write_is_run [OF assms(1-3) True, of e r']) (simp add: run_call_def)
    next
      case False
      show ?thesis by (rule one) (rule session_step.int13 [OF assms(2,3) False run])
    qed
  next
    assume run: "run_int26 r (worlds S m) = Done (e, r', w')"
    show ?thesis
    proof (cases "is_call (DosWrite r)")
      case True
      show ?thesis using run by (intro write_is_run [OF assms(1-3) True, of e r']) (simp add: run_call_def)
    next
      case False
      show ?thesis by (rule one) (rule session_step.int26 [OF assms(2,3) False run])
    qed
  next
    assume run: "run_int25 r (worlds S m) = Done (e, r', w')"
    show ?thesis by (rule one) (rule session_step.int25 [OF assms(2,3) run])
  qed
qed


theorem interrupts_are_runs_witness:
  "\<exists>S S' r' w'. reachable_session 2 pair_idx (\<lambda>m. m) S
    \<and> run_int26 (dos_regs\<lparr>r_dl := 3\<rparr>) (worlds S 0) = Done (Returns, r', w')
    \<and> (session_step 2 pair_idx)\<^sup>*\<^sup>* S S' \<and> worlds S' = (worlds S)(0 := w')"
proof (rule pair_write)
  fix S r' w' assume S: "reachable_session 2 pair_idx (\<lambda>m. m) S" "pending S 0 = None"
    "run_int26 (dos_regs\<lparr>r_dl := 3\<rparr>) (worlds S 0) = Done (Returns, r', w')"
  from interrupts_are_runs [OF S(1) _ S(2) disjI2 [OF disjI2 [OF S(3)]]] S(1,3) show ?thesis by fastforce
qed

end
