(* ===== verification/Isrstack.thy ===== *)
theory Isrstack
  imports Interrupts
begin

text \<open>
  The machine code of the interrupt handlers: the change of stack in \<^verbatim>\<open>lib/ints.h\<close>, in
  its versions for the Watcom and the Turbo C compiler, and the return sequence of interrupts
  25h and 26h in \<^verbatim>\<open>fakedisk.c\<close>. The instructions act on registers, flags and the memory
  of the other theories.
\<close>

section \<open>The processor\<close>

datatype reg = AX | BX | CX | DX | SI | DI | BP | SP | SS | DS | ES | CS | IP

datatype instr = Mov reg reg | MovImm reg u16 | Push reg | Pop reg | Sti | Retf

text \<open>The processor, and the two variables with which Watcom checks for stack overflow.\<close>

record cpu =
  rg :: "reg \<Rightarrow> u16"
  eflags :: u16
  ram :: memory
  STACKLOW :: u16
  old_stacklow :: u16

definition INTR_IF :: u16 where "INTR_IF = 0x200"

definition load16 :: "memory \<Rightarrow> farptr \<Rightarrow> u16" where
  "load16 mem p = of_le16 (region mem p 2)"

definition store16 :: "farptr \<Rightarrow> u16 \<Rightarrow> memory \<Rightarrow> memory" where
  "store16 p v mem = mstore p (le16 v) mem"

definition set_reg :: "reg \<Rightarrow> u16 \<Rightarrow> cpu \<Rightarrow> cpu" where
  "set_reg r v c = c\<lparr>rg := (rg c)(r := v)\<rparr>"

definition stack_top :: "cpu \<Rightarrow> farptr" where
  "stack_top c = MK_FP (rg c SS) (rg c SP)"

definition push :: "u16 \<Rightarrow> cpu \<Rightarrow> cpu" where
  "push v c = (let c1 = set_reg SP (rg c SP - 2) c
     in c1\<lparr>ram := store16 (stack_top c1) v (ram c1)\<rparr>)"

definition pop :: "reg \<Rightarrow> cpu \<Rightarrow> cpu" where
  "pop r c = set_reg r (load16 (ram c) (stack_top c)) (set_reg SP (rg c SP + 2) c)"

fun exec1 :: "instr \<Rightarrow> cpu \<Rightarrow> cpu" where
  "exec1 (Mov d s) c = set_reg d (rg c s) c"
| "exec1 (MovImm d v) c = set_reg d v c"
| "exec1 (Push r) c = push (rg c r) c"
| "exec1 (Pop r) c = pop r c"
| "exec1 Sti c = c\<lparr>eflags := eflags c OR INTR_IF\<rparr>"
| "exec1 Retf c = pop CS (pop IP c)"

fun exec :: "instr list \<Rightarrow> cpu \<Rightarrow> cpu" where
  "exec [] c = c"
| "exec (i # is) c = exec is (exec1 i c)"

section \<open>The stack of the handlers\<close>

definition ISR_STACK_SIZE :: nat where "ISR_STACK_SIZE = 1024"

text \<open>The offset of the array \<^verbatim>\<open>isr_stack_space\<close> in the data segment is up to the
  linker.\<close>

definition isr_stack_top :: "u16 \<Rightarrow> u16" where
  "isr_stack_top base = base + of_nat ISR_STACK_SIZE - 32"

definition SwitchStack :: "u16 \<Rightarrow> cpu \<Rightarrow> cpu" where
  "SwitchStack nsp c = exec
    [Mov BX SS, Mov CX SP, Mov DX DS, Mov SS DX, Mov SP AX, Push BX, Push CX, Push BP, Mov BP SP]
    (set_reg AX nsp c)"

definition RestoreStack :: "cpu \<Rightarrow> cpu" where
  "RestoreStack c = exec [Pop BP, Pop CX, Pop BX, Mov SS BX, Mov SP CX] c"

definition SWITCH_ISR_STACK :: "u16 \<Rightarrow> cpu \<Rightarrow> cpu" where
  "SWITCH_ISR_STACK base c =
    (let c1 = SwitchStack (isr_stack_top base) c;
         c2 = c1\<lparr>old_stacklow := STACKLOW c1\<rparr>
     in c2\<lparr>STACKLOW := base\<rparr>)"

definition RESTORE_ISR_STACK :: "cpu \<Rightarrow> cpu" where
  "RESTORE_ISR_STACK c = (let c1 = RestoreStack c in c1\<lparr>STACKLOW := old_stacklow c1\<rparr>)"

text \<open>The macros for Turbo C, which has no such variables.\<close>

definition SWITCH_ISR_STACK_turbo :: "u16 \<Rightarrow> cpu \<Rightarrow> cpu" where
  "SWITCH_ISR_STACK_turbo base c =
    (let nsp = isr_stack_top base
     in exec [MovImm AX nsp, Mov BX SS, Mov CX SP, Mov DX DS, Mov SS DX, Mov SP AX,
              Push BX, Push CX, Push BP, Mov BP SP] c)"

definition RESTORE_ISR_STACK_turbo :: "cpu \<Rightarrow> cpu" where
  "RESTORE_ISR_STACK_turbo c = exec [Pop BP, Pop CX, Pop BX, Mov SS BX, Mov SP CX] c"

section \<open>The return sequence\<close>

definition PopAndReturn :: "cpu \<Rightarrow> cpu" where
  "PopAndReturn c = exec
    [Sti, Pop AX, Pop AX, Pop ES, Pop DS, Pop DI, Pop SI, Pop BP, Pop BX, Pop BX, Pop DX, Pop CX,
     Pop AX, Retf] c"


section \<open>Lemmas\<close>

lemmas exec_simps = exec.simps exec1.simps set_reg_def push_def pop_def stack_top_def MK_FP_def Let_def

lemma length_le16: "length (le16 v) = 2"
  by (simp add: le16_def)

text \<open>A word on the stack is what was stored there, and no other word changes.\<close>

lemma load16_store16_same: "fits p 2 \<Longrightarrow> load16 (store16 p v mem) p = v"
  by (simp add: load16_def store16_def region_mstore length_le16 of_le16_le16)

lemma store16_other:
  assumes "a \<noteq> phys p" and "a \<noteq> phys (far_add p 1)"
  shows "store16 p v mem a = mem a"
  unfolding store16_def
proof (rule mstore_other)
  fix i assume "i < length (le16 v)"
  then have "i = 0 \<or> i = 1" by (auto simp: le16_def)
  with assms show "a \<noteq> phys (far_add p i)" by auto
qed

lemma load16_store16_other:
  assumes "fits p 2" and "fits q 2" and "fst p = fst q"
    and "unat (snd p) + 2 \<le> unat (snd q) \<or> unat (snd q) + 2 \<le> unat (snd p)"
  shows "load16 (store16 p v mem) q = load16 mem q"
proof -
  have "mread (store16 p v mem) (far_add q i) = mread mem (far_add q i)" if "i < 2" for i
    unfolding mread_def
  proof (rule store16_other)
    have "phys (far_add q i) \<noteq> phys (far_add p j)" if "j < 2" for j
      using assms(4) \<open>i < 2\<close> that
      by (subst phys_far_add_inj [OF assms(2,1) assms(3) [symmetric]]) auto
    from this [of 0] this [of 1]
    show "phys (far_add q i) \<noteq> phys p" "phys (far_add q i) \<noteq> phys (far_add p 1)" by simp_all
  qed
  then show ?thesis unfolding load16_def by (metis region_eqI)
qed

lemma load16_region:
  assumes "region mem p n = region mem' p n" and "i + 2 \<le> n"
  shows "load16 mem (far_add p i) = load16 mem' (far_add p i)"
proof -
  have "mread mem (far_add p j) = mread mem' (far_add p j)" if "j < n" for j
    using arg_cong [OF assms(1), of "\<lambda>xs. xs ! j"] that by simp
  then have "region mem (far_add p i) 2 = region mem' (far_add p i) 2"
    using assms(2) by (intro region_eqI) simp
  then show ?thesis by (simp add: load16_def)
qed

lemma far_add_MK: "(seg, off + of_nat n) = far_add (seg, off) n"
  by (simp add: far_add_def)

text \<open>What the instructions of the switch leave.\<close>

lemma SWITCH_ISR_STACK_eq:
  "SWITCH_ISR_STACK base c =
    (let sp = isr_stack_top base; seg = rg c DS in
     c\<lparr>rg := (rg c)(AX := sp, BX := rg c SS, CX := rg c SP, DX := seg, SS := seg, SP := sp - 6, BP := sp - 6),
       ram := store16 (seg, sp - 6) (rg c BP) (store16 (seg, sp - 4) (rg c SP) (store16 (seg, sp - 2) (rg c SS) (ram c))),
       old_stacklow := STACKLOW c, STACKLOW := base\<rparr>)"
  by (simp add: SWITCH_ISR_STACK_def SwitchStack_def exec_simps fun_upd_twist)

lemma RESTORE_ISR_STACK_eq:
  "RESTORE_ISR_STACK c =
    (let p = stack_top c; bx = load16 (ram c) (far_add p 4); cx = load16 (ram c) (far_add p 2) in
     c\<lparr>rg := (rg c)(BP := load16 (ram c) p, CX := cx, BX := bx, SS := bx, SP := cx), STACKLOW := old_stacklow c\<rparr>)"
  by (simp add: RESTORE_ISR_STACK_def RestoreStack_def exec_simps fun_upd_twist far_add_def add.commute [of 4])


text \<open>The three words that the switch saves, when the array lies within its segment.\<close>

definition isr_stack_fits :: "u16 \<Rightarrow> bool" where
  "isr_stack_fits base \<longleftrightarrow> unat base + ISR_STACK_SIZE \<le> 2 ^ 16"

lemma isr_offset:
  assumes "isr_stack_fits base" and "n \<le> 992"
  shows "unat (base + of_nat n) = unat base + n"
  using assms by (simp add: isr_stack_fits_def ISR_STACK_SIZE_def unat_add_small)

lemma isr_words:
  "isr_stack_top base - 2 = base + 990" "isr_stack_top base - 4 = base + 988"
  "isr_stack_top base - 6 = base + 986"
  by (simp_all add: isr_stack_top_def ISR_STACK_SIZE_def)

lemma isr_offsets:
  assumes "isr_stack_fits base"
  shows "unat (base + 990) = unat base + 990" "unat (base + 988) = unat base + 988"
    "unat (base + 986) = unat base + 986"
  using isr_offset [OF assms, of 990] isr_offset [OF assms, of 988] isr_offset [OF assms, of 986] by simp_all

lemma saved_words:
  assumes "isr_stack_fits base"
  shows "load16 (ram (SWITCH_ISR_STACK base c)) (rg c DS, base + 986) = rg c BP"
    and "load16 (ram (SWITCH_ISR_STACK base c)) (rg c DS, base + 988) = rg c SP"
    and "load16 (ram (SWITCH_ISR_STACK base c)) (rg c DS, base + 990) = rg c SS"
proof -
  note off = isr_offsets [OF assms]
  have fits: "fits (rg c DS, base + 986) 2" "fits (rg c DS, base + 988) 2" "fits (rg c DS, base + 990) 2"
    using assms off by (simp_all add: fits_def isr_stack_fits_def ISR_STACK_SIZE_def)
  note [simp] = SWITCH_ISR_STACK_eq isr_words off fits load16_store16_same load16_store16_other
  show "load16 (ram (SWITCH_ISR_STACK base c)) (rg c DS, base + 986) = rg c BP"
    and "load16 (ram (SWITCH_ISR_STACK base c)) (rg c DS, base + 988) = rg c SP"
    and "load16 (ram (SWITCH_ISR_STACK base c)) (rg c DS, base + 990) = rg c SS"
    by (simp_all add: Let_def)
qed


lemma SWITCH_ISR_STACK_regs:
  "rg (SWITCH_ISR_STACK base c) SS = rg c DS" "rg (SWITCH_ISR_STACK base c) SP = base + 986"
  "STACKLOW (SWITCH_ISR_STACK base c) = base" "old_stacklow (SWITCH_ISR_STACK base c) = STACKLOW c"
  "stack_top (SWITCH_ISR_STACK base c) = (rg c DS, base + 986)"
  by (simp_all add: SWITCH_ISR_STACK_eq isr_words Let_def stack_top_def MK_FP_def)

text \<open>The switch writes to six bytes of the array only.\<close>

lemma SWITCH_ISR_STACK_writes:
  assumes "ram (SWITCH_ISR_STACK base c) a \<noteq> ram c a"
  shows "\<exists>i \<in> {986..<992}. a = phys (far_add (MK_FP (rg c DS) base) i)"
proof (rule ccontr)
  assume "\<not> ?thesis"
  then have no: "a \<noteq> phys (rg c DS, base + of_nat i)" if "986 \<le> i" "i < 992" for i
    using that by (auto simp: far_add_def MK_FP_def)
  have "store16 (rg c DS, base + of_nat n) v mem a = mem a" if "986 \<le> n" "n < 991" for n v mem
    using no [of n] no [of "Suc n"] that by (intro store16_other) (simp_all add: far_add_def ac_simps)
  from this [of 986] this [of 988] this [of 990] assms show False
    by (simp add: SWITCH_ISR_STACK_eq isr_words Let_def)
qed

text \<open>The body of a handler may do what it likes as long as it gives back the stack it was given
  and leaves the three words there.\<close>

definition balanced :: "cpu \<Rightarrow> cpu \<Rightarrow> bool" where
  "balanced c c' \<longleftrightarrow> rg c' SS = rg c SS \<and> rg c' SP = rg c SP \<and> old_stacklow c' = old_stacklow c
     \<and> region (ram c') (stack_top c) 6 = region (ram c) (stack_top c) 6"

lemma RESTORE_after_SWITCH:
  assumes "isr_stack_fits base" and "balanced (SWITCH_ISR_STACK base c) c2"
  shows "RESTORE_ISR_STACK c2 =
    c2\<lparr>rg := (rg c2)(BP := rg c BP, CX := rg c SP, BX := rg c SS, SS := rg c SS, SP := rg c SP),
       STACKLOW := STACKLOW c\<rparr>"
proof -
  let ?p = "(rg c DS, base + 986)"
  have top: "stack_top c2 = ?p"
    using assms(2) by (simp add: balanced_def SWITCH_ISR_STACK_regs stack_top_def MK_FP_def)
  have "region (ram c2) ?p 6 = region (ram (SWITCH_ISR_STACK base c)) ?p 6"
    using assms(2) by (simp add: balanced_def SWITCH_ISR_STACK_regs)
  note same = load16_region [OF this, of 0] load16_region [OF this, of 2] load16_region [OF this, of 4]
  have "far_add ?p 2 = (rg c DS, base + 988)" "far_add ?p 4 = (rg c DS, base + 990)"
    by (simp_all add: far_add_def)
  with same saved_words [OF assms(1), of c] top assms(2) show ?thesis
    by (simp add: RESTORE_ISR_STACK_eq Let_def balanced_def SWITCH_ISR_STACK_regs)
qed

text \<open>C23: the change of stack is transparent. If the body of a handler gives the stack back
  balanced, the interrupted program has its stack, frame pointer and stack limit back, the other
  registers (but for two that the code uses) and the memory are those of the body, and the switch
  itself has written nothing outside the array. The body has 986 bytes for its own use, below which
  the compiler's check for overflow finds the bottom of the array.\<close>

theorem isr_stack_restored:
  assumes "isr_stack_fits base" and "balanced (SWITCH_ISR_STACK base c) c2"
  shows "(\<forall>r. r \<notin> {BX, CX} \<longrightarrow> rg (RESTORE_ISR_STACK c2) r = (if r \<in> {SS, SP, BP} then rg c r else rg c2 r))
    \<and> STACKLOW (RESTORE_ISR_STACK c2) = STACKLOW c \<and> ram (RESTORE_ISR_STACK c2) = ram c2
    \<and> rg (SWITCH_ISR_STACK base c) SS = rg c DS \<and> STACKLOW (SWITCH_ISR_STACK base c) = base
    \<and> unat (rg (SWITCH_ISR_STACK base c) SP) = unat base + (ISR_STACK_SIZE - 38)
    \<and> (\<forall>a. ram (SWITCH_ISR_STACK base c) a \<noteq> ram c a \<longrightarrow>
          (\<exists>i < ISR_STACK_SIZE. a = phys (far_add (MK_FP (rg c DS) base) i)))"
proof (intro conjI allI impI)
  fix a assume "ram (SWITCH_ISR_STACK base c) a \<noteq> ram c a"
  from SWITCH_ISR_STACK_writes [OF this]
  obtain i where "i < 992" "a = phys (far_add (MK_FP (rg c DS) base) i)" by auto
  then show "\<exists>i < ISR_STACK_SIZE. a = phys (far_add (MK_FP (rg c DS) base) i)"
    by (intro exI [of _ i]) (simp add: ISR_STACK_SIZE_def)
qed (simp_all add: RESTORE_after_SWITCH [OF assms] SWITCH_ISR_STACK_regs isr_offsets [OF assms(1)]
      ISR_STACK_SIZE_def)

definition sample_cpu :: cpu where
  "sample_cpu = \<lparr>rg = (\<lambda>r. case r of SS \<Rightarrow> 0x2000 | SP \<Rightarrow> 0x80 | DS \<Rightarrow> 0x3000 | BP \<Rightarrow> 7 | _ \<Rightarrow> 1),
     eflags = 0, ram = (\<lambda>_. 0), STACKLOW = 5, old_stacklow = 0\<rparr>"

theorem isr_stack_restored_witness:
  "rg (RESTORE_ISR_STACK (set_reg AX 0x2000 (SWITCH_ISR_STACK 0x100 sample_cpu))) SP = 0x80
   \<and> rg (RESTORE_ISR_STACK (set_reg AX 0x2000 (SWITCH_ISR_STACK 0x100 sample_cpu))) SS = 0x2000"
proof -
  have "isr_stack_fits 0x100" by (simp add: isr_stack_fits_def ISR_STACK_SIZE_def)
  moreover have "balanced (SWITCH_ISR_STACK 0x100 sample_cpu) (set_reg AX 0x2000 (SWITCH_ISR_STACK 0x100 sample_cpu))"
    by (simp add: balanced_def set_reg_def)
  ultimately show ?thesis
    using isr_stack_restored by (simp add: sample_cpu_def)
qed

text \<open>The macros of the two compilers do the same to registers and memory.\<close>

lemma turbo_same:
  "SWITCH_ISR_STACK_turbo base c
     = (SWITCH_ISR_STACK base c)\<lparr>STACKLOW := STACKLOW c, old_stacklow := old_stacklow c\<rparr>"
  "RESTORE_ISR_STACK_turbo c = (RESTORE_ISR_STACK c)\<lparr>STACKLOW := STACKLOW c\<rparr>"
  by (simp_all add: SWITCH_ISR_STACK_turbo_def SWITCH_ISR_STACK_def SwitchStack_def
      RESTORE_ISR_STACK_turbo_def RESTORE_ISR_STACK_def RestoreStack_def exec_simps)

text \<open>There is one such stack: a second switch before the first is undone overwrites what the
  first has saved, so the stack of the interrupted program is lost.\<close>

lemma isr_stack_not_nested:
  assumes "isr_stack_fits base"
  shows "rg (RESTORE_ISR_STACK (RESTORE_ISR_STACK (SWITCH_ISR_STACK base (SWITCH_ISR_STACK base c)))) SS = rg c DS"
proof -
  let ?s = "SWITCH_ISR_STACK base c"
  have ds: "rg ?s DS = rg c DS" by (simp add: SWITCH_ISR_STACK_eq Let_def)
  have "RESTORE_ISR_STACK (SWITCH_ISR_STACK base ?s) = (SWITCH_ISR_STACK base ?s)
    \<lparr>rg := (rg (SWITCH_ISR_STACK base ?s))(BP := rg ?s BP, CX := rg ?s SP, BX := rg ?s SS, SS := rg ?s SS, SP := rg ?s SP),
       STACKLOW := STACKLOW ?s\<rparr>"
    by (rule RESTORE_after_SWITCH [OF assms]) (simp add: balanced_def)
  then have "ram (RESTORE_ISR_STACK (SWITCH_ISR_STACK base ?s)) = ram (SWITCH_ISR_STACK base ?s)"
    "stack_top (RESTORE_ISR_STACK (SWITCH_ISR_STACK base ?s)) = (rg c DS, base + 986)"
    by (simp_all add: stack_top_def MK_FP_def SWITCH_ISR_STACK_regs)
  with saved_words [OF assms, of ?s] ds show ?thesis
    by (simp add: RESTORE_ISR_STACK_eq [of "RESTORE_ISR_STACK x" for x] Let_def far_add_def SWITCH_ISR_STACK_regs
        add.commute [of 990])
qed

section \<open>The return from a DOS interrupt\<close>

text \<open>The frame that the interrupt and the start of the handler have pushed, from its top: the
  words for \<^verbatim>\<open>gs\<close> and \<^verbatim>\<open>fs\<close>, the registers, and what the interrupt
  instruction has left. The halves of \<^verbatim>\<open>ax\<close> and \<^verbatim>\<open>dx\<close> are those of the
  register record of the handlers.\<close>

record frame_rest =
  f_gs :: u16
  f_fs :: u16
  f_di :: u16
  f_si :: u16
  f_bp :: u16
  f_sp :: u16
  f_ip :: u16

definition ax :: "regs \<Rightarrow> u16" where
  "ax r = push_bit 8 (ucast (r_ah r)) OR ucast (r_al r)"

definition frame_words :: "frame_rest \<Rightarrow> regs \<Rightarrow> u16 list" where
  "frame_words f r = [f_gs f, f_fs f, r_es r, r_ds r, f_di f, f_si f, f_bp f, f_sp f, r_bx r, dx r,
     r_cx r, ax r, f_ip f, r_cs r, r_flags r]"

definition frame_at :: "frame_rest \<Rightarrow> regs \<Rightarrow> cpu \<Rightarrow> bool" where
  "frame_at f r c \<longleftrightarrow>
     (\<forall>k < 15. load16 (ram c) (far_add (stack_top c) (2 * k)) = frame_words f r ! k)"

lemma frame_atD: "frame_at f r c \<Longrightarrow> k < 15 \<Longrightarrow>
    load16 (ram c) (rg c SS, rg c SP + of_nat (2 * k)) = frame_words f r ! k"
  by (simp add: frame_at_def stack_top_def MK_FP_def far_add_def)

lemma PopAndReturn_frame:
  assumes "frame_at f r c"
  shows "PopAndReturn c = c\<lparr>rg := (rg c)(AX := ax r, BX := r_bx r, CX := r_cx r, DX := dx r, SI := f_si f, DI := f_di f,
      BP := f_bp f, DS := r_ds r, ES := r_es r, IP := f_ip f, CS := r_cs r, SP := rg c SP + 28),
      eflags := eflags c OR INTR_IF\<rparr>"
proof -
  note words = frame_atD [OF assms]
  note w = words [of 2] words [of 3] words [of 4] words [of 5] words [of 6] words [of 8] words [of 9]
    words [of 10] words [of 11] words [of 12] words [of 13]
  have regs: "rg (PopAndReturn c) = (rg c)(AX := ax r, BX := r_bx r, CX := r_cx r, DX := dx r, SI := f_si f,
      DI := f_di f, BP := f_bp f, DS := r_ds r, ES := r_es r, IP := f_ip f, CS := r_cs r, SP := rg c SP + 28)"
    by (rule ext) (use w in \<open>simp add: PopAndReturn_def exec_simps frame_words_def ac_simps\<close>)
  show ?thesis
    by (rule cpu.equality) (simp add: regs, simp_all add: PopAndReturn_def exec_simps)
qed


lemma words_nth:
  assumes "k < length ws"
  shows "2 * k + 1 < length (concat (map le16 ws))" "concat (map le16 ws) ! (2 * k) = le16 (ws ! k) ! 0"
    "concat (map le16 ws) ! (2 * k + 1) = le16 (ws ! k) ! 1"
  using assms by (induction ws arbitrary: k) (auto simp: nth_append length_le16 nth_Cons split: nat.splits)

lemma load16_words:
  assumes "fits p (2 * length ws)" and "k < length ws"
  shows "load16 (mstore p (concat (map le16 ws)) mem) (far_add p (2 * k)) = ws ! k"
proof -
  have len: "length (concat (map le16 ws)) = 2 * length ws"
    by (induction ws) (simp_all add: length_le16)
  have "region (mstore p (concat (map le16 ws)) mem) (far_add p (2 * k)) 2 = le16 (ws ! k)"
  proof (rule nth_equalityI)
    fix i assume "i < length (region (mstore p (concat (map le16 ws)) mem) (far_add p (2 * k)) 2)"
    then have "i = 0 \<or> i = 1" by auto
    then show "region (mstore p (concat (map le16 ws)) mem) (far_add p (2 * k)) 2 ! i = le16 (ws ! k) ! i"
      using assms words_nth [OF assms(2)] by (auto simp: len mread_mstore)
  qed (simp add: length_le16)
  then show ?thesis by (simp add: load16_def of_le16_le16)
qed

lemma frame_at_mstore:
  assumes "ram c = mstore (stack_top c) (concat (map le16 (frame_words f r))) mem" and "fits (stack_top c) 30"
  shows "frame_at f r c"
  using load16_words [of "stack_top c" "frame_words f r"] assms by (simp add: frame_at_def frame_words_def)

lemma run_dos_result:
  assumes "run_int25 r w = Done (Returns, r', w') \<or> run_int26 r w = Done (Returns, r', w')"
  shows "\<exists>ok. r' = dos_result ok r"
  using assms by (auto simp: run_int25_def run_int26_def Let_def obind_eq_Done split: if_splits prod.splits)

text \<open>C24: the return from interrupts 25h and 26h, when the call was for the emulated drive. The
  caller gets all its registers back but \<^verbatim>\<open>ax\<close>, which has the result, and execution goes on
  behind its interrupt instruction. As the convention of DOS wants, the word of flags stays on the
  stack, and its carry flag says whether the transfer failed. The carry flag of the processor is not
  set by the return sequence: it stays as the handler's code has left it.\<close>

theorem dos_interrupt_return:
  assumes "run_int25 r w = Done (Returns, r', w') \<or> run_int26 r w = Done (Returns, r', w')"
    and "frame_at f r' c"
  shows "let c' = PopAndReturn c; stacked = load16 (ram c') (stack_top c'); failed = (stacked AND INTR_CF \<noteq> 0)
     in stacked = r_flags r' \<and> r_flags r' = (if failed then r_flags r OR INTR_CF else r_flags r AND NOT INTR_CF)
        \<and> rg c' AX = (if failed then 0x200c else 0)
        \<and> (rg c' BX, rg c' CX, rg c' DX, rg c' SI, rg c' DI, rg c' BP) = (r_bx r, r_cx r, dx r, f_si f, f_di f, f_bp f)
        \<and> (rg c' DS, rg c' ES, rg c' SS, rg c' SP) = (r_ds r, r_es r, rg c SS, rg c SP + 28)
        \<and> (rg c' CS, rg c' IP) = (r_cs r, f_ip f)
        \<and> ram c' = ram c \<and> eflags c' = eflags c OR INTR_IF"
proof -
  from run_dos_result [OF assms(1)] obtain ok where r': "r' = dos_result ok r" by blast
  from frame_atD [OF assms(2), of 14]
  have stacked: "load16 (ram c) (rg c SS, rg c SP + 28) = r_flags (with_carry (\<not> ok) r)"
    by (simp add: frame_words_def r' dos_result_def)
  have ax: "ax r' = (if ok then 0 else 0x200c)" by (simp add: ax_def r' dos_result_def)
  show ?thesis
    using stacked ax carry_flag [of "\<not> ok" r]
    by (simp add: PopAndReturn_frame [OF assms(2)] Let_def stack_top_def MK_FP_def)
      (simp add: r' dos_result_def with_carry_def dx_def)
qed


text \<open>A write of two sectors fails.\<close>

definition two_sectors :: regs where
  "two_sectors = dos_regs\<lparr>r_cx := 2\<rparr>"

definition returning_cpu :: cpu where
  "returning_cpu = sample_cpu\<lparr>ram := mstore (0x2000, 0x80)
     (concat (map le16 (frame_words \<lparr>f_gs = 0, f_fs = 0, f_di = 1, f_si = 2, f_bp = 3, f_sp = 0x96, f_ip = 0x100\<rparr>
        (dos_result False two_sectors)))) (\<lambda>_. 0)\<rparr>"

theorem dos_interrupt_return_witness:
  "rg (PopAndReturn returning_cpu) AX = 0x200c \<and> eflags (PopAndReturn returning_cpu) AND INTR_CF = 0
   \<and> load16 (ram (PopAndReturn returning_cpu)) (stack_top (PopAndReturn returning_cpu)) AND INTR_CF = INTR_CF"
proof -
  have "\<exists>w'. run_int26 two_sectors sample_world = Done (Returns, dos_result False two_sectors, w')"
    by (simp add: run_int26_def write_at_def WriteSector_def WriteSector_with_def two_sectors_def dos_regs_def
        sample_regs_def Let_def)
  then obtain w' where run: "run_int26 two_sectors sample_world = Done (Returns, dos_result False two_sectors, w')" ..
  have top: "stack_top returning_cpu = (0x2000, 0x80)" by (simp add: stack_top_def MK_FP_def returning_cpu_def sample_cpu_def)
  have fr: "frame_at \<lparr>f_gs = 0, f_fs = 0, f_di = 1, f_si = 2, f_bp = 3, f_sp = 0x96, f_ip = 0x100\<rparr>
      (dos_result False two_sectors) returning_cpu"
  proof (rule frame_at_mstore)
    show "fits (stack_top returning_cpu) 30" by (simp add: fits_def top)
  qed (simp only: top, simp add: returning_cpu_def)
  have "r_flags two_sectors = r_flags sample_regs" by (simp add: two_sectors_def dos_regs_def)
  moreover have "eflags returning_cpu = 0" by (simp add: returning_cpu_def sample_cpu_def)
  ultimately show ?thesis
    using dos_interrupt_return [OF disjI2 [OF run] fr] carry_flag [of True two_sectors]
    by (auto simp: Let_def INTR_CF_def INTR_IF_def sample_regs_def dos_result_def with_carry_def split: if_splits)
qed

end
