(* ===== verification/Logging.thy ===== *)
theory Logging
  imports Flag Ints
begin

text \<open>
  The rest of the library: \<^verbatim>\<open>lib/log.c\<close>, which writes messages, checks for the Escape
  key and gives time to DOS, \<^verbatim>\<open>GetEntropy\<close> of \<^verbatim>\<open>lib/dos.c\<close>, and the switching of the
  current process and the end of a hardware interrupt in \<^verbatim>\<open>lib/ints.c\<close> and
  \<^verbatim>\<open>lib/ints.h\<close>.
\<close>

section \<open>Messages\<close>

text \<open>The static variables of \<^verbatim>\<open>log.c\<close>, what has been written, the keys that wait in the
  BIOS, and the calls of DOS made.\<close>

datatype dos_call = DosIdleCall | DosGetVersion | ReleaseTimeslice

record console =
  progname :: string
  distinguisher :: string
  written :: string
  keys :: "u16 list"
  dos_major_version :: nat
  dos_calls :: "dos_call list"

text \<open>\<^verbatim>\<open>strncpy\<close> into an array of \<open>n\<close> characters whose last one is then set to the null
  character.\<close>

definition copy_name :: "nat \<Rightarrow> string \<Rightarrow> string" where
  "copy_name n s = take (n - 1) s"

text \<open>The part of the path after the last backslash.\<close>

definition after_backslash :: "string \<Rightarrow> string" where
  "after_backslash s = rev (takeWhile (\<lambda>c. c \<noteq> CHR 0x5C) (rev s))"

definition SetLogName :: "string \<Rightarrow> console \<Rightarrow> console" where
  "SetLogName argv0 c =
    (let name = copy_name 9 (after_backslash argv0);
         name = takeWhile (\<lambda>x. x \<noteq> CHR ''.'') name
     in c\<lparr>progname := map tolower name\<rparr>)"

definition SetLogDistinguisher :: "string \<Rightarrow> console \<Rightarrow> console" where
  "SetLogDistinguisher name c = c\<lparr>distinguisher := copy_name 10 name\<rparr>"

text \<open>The message is what the format and its arguments give.\<close>

definition LogVarargs :: "string \<Rightarrow> string \<Rightarrow> console \<Rightarrow> console" where
  "LogVarargs argv0 message c =
    (let c1 = (if length (progname c) = 0 then SetLogName argv0 c else c)
     in c1\<lparr>written := written c1 @ progname c1
          @ (if length (distinguisher c1) > 0 then ''['' @ distinguisher c1 @ '']'' else [])
          @ '': '' @ message @ [CHR 0x0A]\<rparr>)"

definition LogMessage :: "string \<Rightarrow> string \<Rightarrow> console \<Rightarrow> console" where
  "LogMessage = LogVarargs"

text \<open>The two ways to stop with a message; the second one prints the usage text after it.\<close>

definition Error_exit :: "string \<Rightarrow> complaint \<Rightarrow> string \<Rightarrow> console \<Rightarrow> (stop + unit) \<times> console" where
  "Error_exit argv0 e message c = (Inl (Error e), LogVarargs argv0 message c)"

definition ErrorPrintUsage_exit ::
  "string \<Rightarrow> string option \<Rightarrow> string option \<Rightarrow> bool \<Rightarrow> flag list \<Rightarrow> complaint \<Rightarrow> string \<Rightarrow> console
    \<Rightarrow> (stop + unit) \<times> console" where
  "ErrorPrintUsage_exit argv0 description example baked fl e message c =
    (let c1 = LogVarargs argv0 message c
     in (Inl (ErrorPrintUsage e),
         c1\<lparr>written := written c1 @ PrintProgramUsage argv0 description example baked fl\<rparr>))"

text \<open>The name of a program file: at most eight characters of it, before the extension, in lower
  case.\<close>

lemma SetLogName_path:
  assumes "CHR 0x5C \<notin> set (name @ ext)" and "CHR ''.'' \<notin> set name" and "length name \<le> 8"
    and "dir = [] \<or> last dir = CHR 0x5C" and "ext = [] \<or> hd ext = CHR ''.''"
  shows "progname (SetLogName (dir @ name @ ext) c) = map tolower name"
proof -
  have "takeWhile (\<lambda>c. c \<noteq> CHR 0x5C) (rev (name @ ext) @ rev dir) = rev (name @ ext)"
  proof (cases dir rule: rev_cases)
    case (snoc d x)
    with assms(4) have "x = CHR 0x5C" by simp
    with snoc assms(1) show ?thesis by (subst takeWhile_append2) auto
  qed (use assms(1) in \<open>auto simp: takeWhile_eq_all_conv\<close>)
  then have base: "after_backslash (dir @ name @ ext) = name @ ext" by (simp add: after_backslash_def)
  have "takeWhile (\<lambda>x. x \<noteq> CHR ''.'') (take 8 (name @ ext)) = name"
  proof (cases "take (8 - length name) ext")
    case Nil
    then have "take 8 (name @ ext) = name" using assms(3) by simp
    then show ?thesis using assms(2) by (auto simp: takeWhile_eq_all_conv)
  next
    case (Cons x xs)
    with assms(5) have "x = CHR ''.''" by (cases ext) (auto simp: take_Cons split: nat.splits)
    with Cons assms(3) have "take 8 (name @ ext) = name @ CHR ''.'' # xs" by simp
    then show ?thesis using assms(2) by (simp only:) (subst takeWhile_append2, auto)
  qed
  then show ?thesis by (simp add: SetLogName_def base copy_name_def)
qed

lemma SetLogName_length: "length (progname (SetLogName argv0 c)) \<le> 8"
  by (simp add: SetLogName_def copy_name_def Let_def) (rule le_trans [OF length_takeWhile_le], simp)

section \<open>Waiting\<close>

text \<open>What DOS answers to the question for its version is a parameter. It is asked again as long as
  the answer is 0.\<close>

definition DosIdle :: "nat \<Rightarrow> console \<Rightarrow> console" where
  "DosIdle version c =
    (let c1 = c\<lparr>dos_calls := dos_calls c @ [DosIdleCall]\<rparr>;
         c2 = (if dos_major_version c1 = 0
               then c1\<lparr>dos_calls := dos_calls c1 @ [DosGetVersion], dos_major_version := version\<rparr> else c1)
     in if dos_major_version c2 \<ge> 7 then c2\<lparr>dos_calls := dos_calls c2 @ [ReleaseTimeslice]\<rparr> else c2)"

text \<open>The loop over the keys: it says whether Escape was among those read. The question whether
  a key is ready gives the key itself, or 0 for none, so a key with the code 0 ends the loop and
  stays where it is.\<close>

fun read_keys :: "u16 list \<Rightarrow> bool \<times> u16 list" where
  "read_keys [] = (False, [])"
| "read_keys (k # ks) =
    (if k = 0 then (False, k # ks) else if k AND 0xff = 27 then (True, ks) else read_keys ks)"

definition CheckAbort :: "string \<Rightarrow> string \<Rightarrow> nat \<Rightarrow> console \<Rightarrow> (stop + unit) \<times> console" where
  "CheckAbort argv0 operation version c =
    (case read_keys (keys c) of (abort, ks) \<Rightarrow>
       let c1 = c\<lparr>keys := ks\<rparr>
       in if abort then Error_exit argv0 (Aborted operation) (operation @ '' aborted.'') c1
          else (Inr (), DosIdle version c1))"

text \<open>The keys the loop looks at.\<close>

definition ready_keys :: "u16 list \<Rightarrow> u16 list" where
  "ready_keys = takeWhile (\<lambda>k. k \<noteq> 0)"

lemma read_keys_abort: "fst (read_keys ks) \<longleftrightarrow> (\<exists>k \<in> set (ready_keys ks). k AND 0xff = 27)"
  by (induction ks) (auto simp: ready_keys_def)

lemma read_keys_rest: "\<not> fst (read_keys ks) \<Longrightarrow> snd (read_keys ks) = drop (length (ready_keys ks)) ks"
  by (induction ks) (auto simp: ready_keys_def split: if_splits)

text \<open>A wait is aborted exactly when Escape is among the keys that are ready; otherwise all of
  these are consumed, and DOS is told that the program is idle: once, with the release of the time
  slice exactly under Windows 95 and later, and with the question for the version only the first
  time.\<close>

lemma CheckAbort_correct:
  "fst (CheckAbort argv0 op version c) =
     (if \<exists>k \<in> set (ready_keys (keys c)). k AND 0xff = 27 then Inl (Error (Aborted op)) else Inr ())
   \<and> (fst (CheckAbort argv0 op version c) = Inr () \<longrightarrow>
        ready_keys (keys c) @ keys (snd (CheckAbort argv0 op version c)) = keys c
        \<and> dos_calls (snd (CheckAbort argv0 op version c)) = dos_calls c @ [DosIdleCall]
            @ (if dos_major_version c = 0 then [DosGetVersion] else [])
            @ (if (if dos_major_version c = 0 then version else dos_major_version c) \<ge> 7
               then [ReleaseTimeslice] else []))"
proof -
  have "ready_keys ks @ drop (length (ready_keys ks)) ks = ks" for ks
    by (simp add: ready_keys_def dropWhile_eq_drop [symmetric])
  then show ?thesis
    using read_keys_abort [of "keys c"] read_keys_rest [of "keys c"]
    by (auto simp: CheckAbort_def Error_exit_def DosIdle_def Let_def split: prod.splits)
qed

section \<open>Entropy\<close>

text \<open>The clock ticks and the environment are given; \<^verbatim>\<open>atoi\<close> gives an
  \<^verbatim>\<open>int\<close> of 16 bits, which is extended with its sign.\<close>

definition atoi :: "string \<Rightarrow> int" where
  "atoi s = sint (word_of_int (fst (strtol s 10)) :: u16)"

definition GetEntropy :: "u32 \<Rightarrow> (string \<rightharpoonup> string) \<Rightarrow> u32" where
  "GetEntropy ticks environment =
    (case environment ''ENTROPY'' of
       None \<Rightarrow> ticks
     | Some entropy \<Rightarrow> ticks XOR word_of_int (atoi entropy))"

text \<open>Two machines started in the same tick get different values from different small numbers in
  the environment.\<close>

lemma GetEntropy_differs:
  assumes "env1 ''ENTROPY'' = Some (decimal m)" and "env2 ''ENTROPY'' = Some (decimal n)"
    and "m < 32768" and "n < 32768" and "m \<noteq> n"
  shows "GetEntropy ticks env1 \<noteq> GetEntropy ticks env2"
proof -
  have a: "atoi (decimal k) = int k" if "k < 32768" for k
  proof -
    have "signed_take_bit 15 (int k) = int k" using that by (intro signed_take_bit_int_eq_self) auto
    moreover have "uint (of_nat k :: u16) = int k" using that by (simp add: unsigned_of_nat take_bit_nat_eq_self)
    ultimately show ?thesis
      using that by (simp add: atoi_def strtol_decimal_10 LONG_MAX_def sint_uint [of "of_nat k :: u16"])
  qed
  have "unat (word_of_int (int k) :: u32) = k" if "k < 32768" for k using that by simp
  then have "(word_of_int (int m) :: u32) \<noteq> word_of_int (int n)" using assms(3-5) by metis
  then show ?thesis using assms by (simp add: GetEntropy_def a)
qed

section \<open>The search for a free interrupt\<close>

text \<open>The message of \<^verbatim>\<open>FindFreeInterrupt\<close>, with hexadecimal numbers as
  \<^verbatim>\<open>printf\<close> writes them.\<close>

definition hex_char :: "nat \<Rightarrow> char" where
  "hex_char n = (if n < 10 then digit_char n else char_of (87 + n))"

fun hex :: "nat \<Rightarrow> string" where
  "hex n = (if n < 16 then [hex_char n] else hex (n div 16) @ [hex_char (n mod 16)])"

declare hex.simps [simp del]

definition no_interrupt_text :: string where
  "no_interrupt_text = ''No free interrupt handler found in the 0x'' @ hex MIN_USER_INTERRUPT
     @ ''..0x'' @ hex MAX_USER_INTERRUPT @ '' range.''"

definition FindFreeInterrupt_logged :: "string \<Rightarrow> pc \<Rightarrow> console \<Rightarrow> nat \<times> console" where
  "FindFreeInterrupt_logged argv0 s c =
    (let i = FindFreeInterrupt s
     in (i, if i = 0 then LogMessage argv0 no_interrupt_text c else c))"

lemma no_interrupt_text: "no_interrupt_text = ''No free interrupt handler found in the 0x60..0x80 range.''"
proof -
  have "hex 96 = ''60''" "hex 128 = ''80''"
    by (simp_all add: hex.simps hex_char_def digit_char_def) code_simp+
  then show ?thesis by (simp add: no_interrupt_text_def MIN_USER_INTERRUPT_def MAX_USER_INTERRUPT_def)
qed

lemma free_from_0: "0 \<notin> set is \<Longrightarrow> free_from is s = 0 \<longleftrightarrow> (\<forall>i \<in> set is. ivt s i \<noteq> NullHandler)"
  by (induction "is") (auto simp: dos_getvect_def)

text \<open>The user is told exactly when all of the vectors are taken.\<close>

lemma FindFreeInterrupt_told:
  "snd (FindFreeInterrupt_logged argv0 s c) =
    (if \<forall>i. MIN_USER_INTERRUPT \<le> i \<and> i \<le> MAX_USER_INTERRUPT \<longrightarrow> ivt s i \<noteq> NullHandler
     then LogMessage argv0 no_interrupt_text c else c)"
proof -
  have "0 \<notin> set [MIN_USER_INTERRUPT..<MAX_USER_INTERRUPT + 1]" by (simp add: MIN_USER_INTERRUPT_def)
  from free_from_0 [OF this, of s] show ?thesis
    by (auto simp: FindFreeInterrupt_logged_def FindFreeInterrupt_def Let_def less_Suc_eq_le)
qed

section \<open>The current process\<close>

text \<open>DOS keeps the program segment prefix of the current process. An interrupt handler makes its
  own program the current one and restores the other at its end. The call of DOS is a parameter: it
  gets the number of the interrupt, the registers and the state of DOS, of any type; the registers
  that a function does not set (\<open>regs\<close>) have any value.\<close>

record api_regs =
  a_ah :: u8
  a_bx :: u16

type_synonym 'd dos_int86 = "nat \<Rightarrow> api_regs \<Rightarrow> 'd \<Rightarrow> api_regs \<times> 'd"

definition DOS_INTERRUPT_API :: nat where "DOS_INTERRUPT_API = 0x21"
definition DOS_API_SET_CURRENT_PROCESS :: u8 where "DOS_API_SET_CURRENT_PROCESS = 0x50"
definition DOS_API_GET_CURRENT_PROCESS :: u8 where "DOS_API_GET_CURRENT_PROCESS = 0x51"

definition RestorePSP :: "'d dos_int86 \<Rightarrow> api_regs \<Rightarrow> u16 \<Rightarrow> 'd \<Rightarrow> 'd" where
  "RestorePSP int86 regs psp d =
    snd (int86 DOS_INTERRUPT_API (regs\<lparr>a_ah := DOS_API_SET_CURRENT_PROCESS, a_bx := psp\<rparr>) d)"

definition SwitchPSP :: "'d dos_int86 \<Rightarrow> api_regs \<Rightarrow> api_regs \<Rightarrow> u16 \<Rightarrow> 'd \<Rightarrow> u16 \<times> 'd" where
  "SwitchPSP int86 regs regs' own_psp d =
    (let (r, d1) = int86 DOS_INTERRUPT_API (regs\<lparr>a_ah := DOS_API_GET_CURRENT_PROCESS\<rparr>) d;
         d2 = RestorePSP int86 regs' own_psp d1
     in (a_bx r, d2))"

text \<open>The two functions as DOS documents them: one sets the current process, the other gives
  it.\<close>

definition keeps_process :: "'d dos_int86 \<Rightarrow> ('d \<Rightarrow> u16) \<Rightarrow> bool" where
  "keeps_process int86 current \<longleftrightarrow>
     (\<forall>r d. a_ah r = 0x50 \<longrightarrow> current (snd (int86 0x21 r d)) = a_bx r)
     \<and> (\<forall>r d. a_ah r = 0x51 \<longrightarrow> a_bx (fst (int86 0x21 r d)) = current d \<and> current (snd (int86 0x21 r d)) = current d)"

lemma SwitchPSP_restored:
  assumes "keeps_process int86 current" and "SwitchPSP int86 regs regs' own d = (old, d1)"
  shows "old = current d \<and> current d1 = own \<and> current (RestorePSP int86 regs'' old d2) = current d"
  using assms
  by (auto simp: keeps_process_def SwitchPSP_def RestorePSP_def DOS_INTERRUPT_API_def
      DOS_API_SET_CURRENT_PROCESS_def DOS_API_GET_CURRENT_PROCESS_def case_prod_unfold)

text \<open>A DOS whose state is the current process.\<close>

lemma keeps_process_example:
  "keeps_process (\<lambda>n r d. if a_ah r = 0x50 then (r, a_bx r) else (r\<lparr>a_bx := d\<rparr>, d)) (\<lambda>d. d)"
  by (simp add: keeps_process_def)

text \<open>The end of a hardware interrupt: the old handler, or the specific end-of-interrupt command
  for the controller.\<close>

definition PIC_COMMAND_PORT :: nat where "PIC_COMMAND_PORT = 0x20"

datatype irq_end = ChainTo handler | Acknowledge nat nat

definition END_OF_IRQ :: "irq_hook \<Rightarrow> irq_end" where
  "END_OF_IRQ h = (if chained h then ChainTo (irq_old_isr h) else Acknowledge PIC_COMMAND_PORT (0x60 + irq h))"

end
