(* ===== verification/Report.thy ===== *)
theory Report
  imports Imaginot Logging
begin

text \<open>
  How the program ends when it does not start a command: the text it writes, for every error with the
  format of its message, and its exit status. What goes to the two output streams is kept in the order
  in which it is written.
\<close>

section \<open>Messages\<close>

definition quoted :: "string \<Rightarrow> string" where
  "quoted s = [CHR 0x27] @ s @ [CHR 0x27]"

text \<open>The formats with their arguments, one for each call of \<^verbatim>\<open>Error\<close> and
  \<^verbatim>\<open>ErrorPrintUsage\<close>; the one for an empty command line is empty.\<close>

definition response_file_text :: "string \<Rightarrow> string" where
  "response_file_text filename = ''Response file not found: '' @ quoted filename"

definition unknown_flag_text :: "string \<Rightarrow> string" where
  "unknown_flag_text name = ''Unknown flag '' @ quoted name"

definition invalid_value_text :: "string \<Rightarrow> string \<Rightarrow> string" where
  "invalid_value_text flag_name val = ''Invalid value for flag '' @ quoted flag_name @ '': '' @ quoted val @ ''.''"

definition out_of_range_text :: "string \<Rightarrow> int \<Rightarrow> int \<Rightarrow> int \<Rightarrow> string" where
  "out_of_range_text flag_name result lo hi = ''Value out of range for flag '' @ quoted flag_name @ '': ''
     @ decimal_int result @ '' not in range '' @ decimal_int lo @ '' - '' @ decimal_int hi @ ''.''"

definition no_value_text :: "string \<Rightarrow> string" where
  "no_value_text name = ''No value given for '' @ quoted name @ ''.''"

definition no_driver_text :: string where
  "no_driver_text = ''You should run this program via a driver, eg. IPXSETUP.''"

definition aborted_text :: "string \<Rightarrow> string" where
  "aborted_text operation = operation @ '' aborted.''"

fun message :: "complaint \<Rightarrow> string" where
  "message (ResponseFileNotFound filename) = response_file_text filename"
| "message (UnknownFlag name) = unknown_flag_text name"
| "message (InvalidValue name val) = invalid_value_text name val"
| "message (ValueOutOfRange name result lo hi) = out_of_range_text name result lo hi"
| "message (NoValueGiven name) = no_value_text name"
| "message NoCommand = []"
| "message NoDriver = no_driver_text"
| "message (Aborted operation) = aborted_text operation"

section \<open>The help text\<close>

record help_text =
  description :: "string option"
  example :: "string option"

definition no_help_text :: help_text where
  "no_help_text = \<lparr>description = None, example = None\<rparr>"

definition SetHelpText :: "string \<Rightarrow> string \<Rightarrow> help_text \<Rightarrow> help_text" where
  "SetHelpText program_description example_cmd h =
    h\<lparr>description := Some program_description, example := Some example_cmd\<rparr>"

text \<open>The call in \<^verbatim>\<open>main\<close>.\<close>

definition main_help :: help_text where
  "main_help = SetHelpText ''Sopwith multiplayer adapter'' ''ipxsetup %s sopwith2'' no_help_text"

section \<open>The end of the program\<close>

text \<open>The exit status and the console at the end. A failed assertion and an invalid access have
  no status of their own.\<close>

definition usage_exit ::
  "string \<Rightarrow> string option \<Rightarrow> string option \<Rightarrow> bool \<Rightarrow> flag list \<Rightarrow> console \<Rightarrow> (stop + unit) \<times> console" where
  "usage_exit argv0 descr ex baked fl c =
    (Inl ShowUsage, c\<lparr>written := written c @ PrintProgramUsage argv0 descr ex baked fl\<rparr>)"

definition stop_program :: "help_text \<Rightarrow> bool \<Rightarrow> flag list \<Rightarrow> string \<Rightarrow> stop \<Rightarrow> console \<Rightarrow> int option \<times> console" where
  "stop_program h baked fl argv0 e c =
    (case e of
       ShowUsage \<Rightarrow> (Some 0, snd (usage_exit argv0 (description h) (example h) baked fl c))
     | Error m \<Rightarrow> (Some 1, snd (Error_exit argv0 m (message m) c))
     | ErrorPrintUsage m \<Rightarrow>
         (Some 1, snd (ErrorPrintUsage_exit argv0 (description h) (example h) baked fl m (message m) c))
     | NullPointer \<Rightarrow> (None, c)
     | Crash f \<Rightarrow> (None, c))"

section \<open>Which errors there are\<close>

lemma read_args_stops: "read_args n fs = Inl e \<Longrightarrow> e = Crash OutOfBounds"
proof (induction n fs rule: read_args.induct)
  case (1 n fs)
  obtain c fs1 where s: "skip_spaces None fs = (c, fs1)" by fastforce
  obtain buf n' fs2 where r: "read_arg c [] n fs1 = (buf, n', fs2)" by (cases "read_arg c [] n fs1") auto
  have run: "read_args n fs = (if eof fs1 then Inr [] else if \<not> length buf < n' then Inl (Crash OutOfBounds)
      else ebind (read_args n' fs2) (\<lambda>args. Inr (takeWhile (\<lambda>x. x \<noteq> NUL) buf # args)))"
    by (subst read_args.simps) (simp add: s r)
  show ?case
  proof (cases "eof fs1 \<or> \<not> length buf < n'")
    case True
    with run "1.prems" show ?thesis by (auto split: if_splits)
  next
    case False
    with run "1.prems" have "ebind (read_args n' fs2) (\<lambda>args. Inr (takeWhile (\<lambda>x. x \<noteq> NUL) buf # args)) = Inl e" by simp
    then have "read_args n' fs2 = Inl e" by (auto simp: ebind_eq_Inl)
    with "1.IH" [OF s [symmetric]] False r show ?thesis by auto
  qed
qed

lemma expand_args_stops:
  "expand_args fs as = Inl e \<Longrightarrow> e = Crash OutOfBounds
    \<or> (\<exists>a \<in> set as. \<exists>f. arg_text a = CHR ''@'' # f \<and> fs f = None \<and> e = Error (ResponseFileNotFound f))"
proof (induction as)
  case (Cons a as)
  show ?case
  proof (cases "arg_text a")
    case Nil
    with Cons show ?thesis by (auto simp: ebind_eq_Inl NUL_def)
  next
    case (Cons c cs)
    with Cons.IH Cons.prems show ?thesis
      by (auto simp: ebind_eq_Inl ReadResponseFile_def dest: read_args_stops split: if_splits option.splits)
  qed
qed simp

lemma baked_loop_stops: "baked_loop config c args = Inl e \<Longrightarrow> e = Crash OutOfBounds"
proof (induction config c args rule: baked_loop.induct)
  case (1 config c args)
  then show ?case by (simp add: baked_loop.simps [of config c args] Let_def split: if_splits)
qed

text \<open>The program has no flags with values but the pointer of the driver, which is taken out before.\<close>

lemma parse_loop_stops:
  assumes "\<forall>f \<in> set fl. f_type f = FLAG_BOOL \<or> f_type f = FLAG_API_POINTER" and "1 \<le> i"
    and "list_all (\<lambda>a. api_flag fl a = None) (drop 1 argv)" and "parse_loop fl argv i v = Inl e"
  shows "\<exists>a \<in> set (drop 1 argv). e = ErrorPrintUsage (UnknownFlag (arg_text a)) \<and> char0 (arg_text a) = CHR ''-''
    \<and> FindFlagForName fl (arg_text a) = None"
  using assms
proof (induction fl argv i v rule: parse_loop.induct)
  case (1 fl argv i v)
  note run = "1.prems"(4)
  have i: "i < length argv" using run by (auto simp: parse_loop.simps [of fl argv i v] split: if_splits)
  have dash: "char0 (arg_text (argv ! i)) = CHR ''-''"
    using run i by (auto simp: parse_loop.simps [of fl argv i v] split: if_splits)
  have "argv ! i = drop 1 argv ! (i - 1)" "i - 1 < length (drop 1 argv)" using i "1.prems"(2) by simp_all
  then have a: "argv ! i \<in> set (drop 1 argv)" by (metis nth_mem)
  show ?case
  proof (cases "FindFlagForName fl (arg_text (argv ! i))")
    case None
    with run i dash have "e = ErrorPrintUsage (UnknownFlag (arg_text (argv ! i)))"
      by (simp add: parse_loop.simps [of fl argv i v] MustFindFlagForName_def)
    with a dash None show ?thesis by blast
  next
    case (Some f)
    have "api_flag fl (argv ! i) = None" using a "1.prems"(3) by (simp add: list_all_iff)
    with Some dash have "f_type f \<noteq> FLAG_API_POINTER" by (auto simp: api_flag_def)
    moreover have "f \<in> set fl" using FindFlagForName_Some [OF Some] by simp
    ultimately have f: "f_type f = FLAG_BOOL" using "1.prems"(1) by blast
    have must: "MustFindFlagForName fl (arg_text (argv ! i)) = Inr f" using Some by (simp add: MustFindFlagForName_def)
    with run i dash f have "parse_loop fl argv (i + 1) (v\<lparr>v_int := (v_int v)(f_value f := 1)\<rparr>) = Inl e"
      by (subst (asm) parse_loop.simps) simp
    from "1.IH"(1) [OF i _ must _ f "1.prems"(1) _ "1.prems"(3) this] dash f show ?thesis by simp
  qed
qed

lemma DoParseArgs_stops:
  assumes "\<forall>f \<in> set fl. f_type f = FLAG_BOOL \<or> f_type f = FLAG_API_POINTER"
    and "DoParseArgs fl args v = Inl e"
  shows "e = ShowUsage \<or> e = NullPointer \<or> e = Crash AssertFailed
    \<or> (\<exists>a \<in> set args. e = ErrorPrintUsage (UnknownFlag (arg_text a)) \<and> char0 (arg_text a) = CHR ''-''
         \<and> FindFlagForName fl (arg_text a) = None)"
proof (cases args)
  case Nil
  with assms(2) show ?thesis
    by (simp add: DoParseArgs_def StripAPIPointers_def strip_loop.simps [of fl "[]"] parse_loop.simps [of fl "[]"])
next
  case (Cons p as)
  show ?thesis
  proof (cases "strip_args fl as v")
    case (Inl e')
    with assms(2) Cons have "e = ShowUsage \<or> e = e'"
      by (auto simp: DoParseArgs_def StripAPIPointers_args split: if_splits)
    with Inl strip_args_result [of fl as v] show ?thesis by auto
  next
    case (Inr rw)
    then obtain r w where rw: "strip_args fl as v = Inr (r, w)" by (cases rw) auto
    have r: "list_all (\<lambda>a. api_flag fl a = None) (drop 1 (p # r))" "set r \<subseteq> set as"
      using strip_args_result [of fl as v] rw by (auto elim!: list_emb_set)
    from assms(2) Cons rw have "e = ShowUsage \<or> parse_loop fl (p # r) 1 w = Inl e"
      by (auto simp: DoParseArgs_def StripAPIPointers_args split: if_splits)
    with parse_loop_stops [OF assms(1) order_refl r(1), of w e] r(2) Cons show ?thesis by auto
  qed
qed

text \<open>The arguments before response files are read: the program's name, the baked-in arguments, and
  those of the user.\<close>

definition given_args :: "string \<Rightarrow> string list \<Rightarrow> arg list" where
  "given_args config argv = (case AppendBakedInArgs config (AppendArgList [] 1 (argv_list argv)) of
     Inl _ \<Rightarrow> []
   | Inr args \<Rightarrow> AppendArgList args (length argv - 1) (drop 1 (argv_list argv)))"

text \<open>How the parser and \<^verbatim>\<open>main\<close> can stop, with the cause of each message.\<close>

definition parse_error :: "string \<Rightarrow> files \<Rightarrow> string list \<Rightarrow> stop \<Rightarrow> bool" where
  "parse_error config fs argv e \<longleftrightarrow> e \<in> {ShowUsage, NullPointer, Crash AssertFailed, Crash OutOfBounds}
     \<or> (\<exists>f a. a \<in> set (given_args config argv) \<and> arg_text a = CHR ''@'' # f \<and> fs f = None
          \<and> e = Error (ResponseFileNotFound f))
     \<or> (\<exists>s xs. ExpandResponseArgs fs (given_args config argv) = Inr xs \<and> s \<in> arg_text ` set xs
          \<and> char0 s = CHR ''-'' \<and> FindFlagForName the_flags s = None \<and> e = ErrorPrintUsage (UnknownFlag s))"

definition main_error :: "string \<Rightarrow> files \<Rightarrow> string list \<Rightarrow> stop \<Rightarrow> bool" where
  "main_error config fs argv e \<longleftrightarrow> parse_error config fs argv e
     \<or> (\<exists>v. ParseCommandLine the_flags config fs argv static_vars = Inr (None, v) \<and> e = ErrorPrintUsage NoCommand)
     \<or> (\<exists>cmd v. ParseCommandLine the_flags config fs argv static_vars = Inr (Some cmd, v) \<and> doomcom_addr v = 0
          \<and> e = ErrorPrintUsage NoDriver)"

lemma set_reordered: "set (ReorderArgsForBakedIn fl args callee) = set args"
proof (cases args)
  case Nil
  then show ?thesis
    by (simp add: ReorderArgsForBakedIn_def sort_loop.simps [of fl "[]"] move_loop.simps [of _ "[]"] overwrite_def
        split: option.splits)
next
  case (Cons p as)
  then show ?thesis using ReorderArgsForBakedIn_split [of fl p as callee] by (metis set_mset_mset)
qed

lemma ParseCommandLine_stops:
  assumes "ParseCommandLine the_flags config fs argv v = Inl e"
  shows "parse_error config fs argv e"
proof -
  have flags: "\<forall>f \<in> set the_flags. f_type f = FLAG_BOOL \<or> f_type f = FLAG_API_POINTER" by (simp add: the_flags_def)
  have expand: "parse_error config fs argv e" if "ExpandResponseArgs fs (given_args config argv) = Inl e"
  proof (cases "given_args config argv")
    case (Cons p as)
    with that have "expand_args fs as = Inl e" by (auto simp: ExpandResponseArgs_args ebind_eq_Inl)
    from expand_args_stops [OF this] Cons show ?thesis by (auto simp: parse_error_def)
  qed (use that in \<open>simp add: ExpandResponseArgs_def expand_loop.simps [of fs "[]"]\<close>)
  have parse: "parse_error config fs argv e"
    if "DoParseArgs the_flags args v = Inl e" "ExpandResponseArgs fs (given_args config argv) = Inr xs" "set args = set xs"
    for args xs
    using DoParseArgs_stops [OF flags that(1)] that(2,3) unfolding parse_error_def by blast
  show ?thesis
  proof (cases "list_ex asks_for_help (drop 1 argv)")
    case True
    with assms show ?thesis by (simp add: ParseCommandLine_def parse_error_def)
  next
    case False
    show ?thesis
    proof (cases "AppendBakedInArgs config (AppendArgList [] 1 (argv_list argv))")
      case (Inl e')
      with assms False have "e = Crash OutOfBounds"
        using baked_loop_stops by (auto simp: ParseCommandLine_def AppendBakedInArgs_def)
      then show ?thesis by (simp add: parse_error_def)
    next
      case (Inr args)
      then have given: "AppendArgList args (length argv - 1) (drop 1 (argv_list argv)) = given_args config argv"
        by (simp add: given_args_def)
      show ?thesis
      proof (cases "ExpandResponseArgs fs (given_args config argv)")
        case (Inl e')
        with assms False Inr given expand show ?thesis by (simp add: ParseCommandLine_def)
      next
        case xs: (Inr xs)
        have "set (if HAVE_BAKED_IN_CONFIG config
            then ReorderArgsForBakedIn the_flags xs (IdentifyCallee the_flags (argv_list argv)) else xs) = set xs"
          by (simp add: set_reordered)
        from parse [OF _ xs this] assms False Inr given xs show ?thesis by (simp add: ParseCommandLine_def)
      qed
    qed
  qed
qed

lemma NetGetHandle_stops: "NetGetHandle l mem = Inl e \<Longrightarrow> e = Crash AssertFailed"
  by (auto simp: NetGetHandle_def Let_def split: if_splits)

lemma InitProtocol_stops: "lift (InitProtocol dc s) = Inl e \<Longrightarrow> e = Crash AssertFailed"
  by (auto simp: InitProtocol_def Let_def split: if_splits)

lemma main_stops:
  assumes "main config fs argv w = (Inl e, w')"
  shows "main_error config fs argv e"
proof (cases "ParseCommandLine the_flags config fs argv static_vars")
  case (Inl e')
  with assms have "e = e'" by (simp add: main_def register_flags_eq)
  with ParseCommandLine_stops [OF Inl] show ?thesis by (simp add: main_error_def)
next
  case (Inr rv)
  then obtain res v where r: "ParseCommandLine the_flags config fs argv static_vars = Inr (res, v)" by (cases rv) auto
  show ?thesis
  proof (cases "\<exists>cmd. res = Some cmd \<and> doomcom_addr v \<noteq> 0")
    case False
    with assms r show ?thesis
      by (cases res) (auto simp: main_def register_flags_eq Let_def main_error_def)
  next
    case True
    with assms r have "e = Crash AssertFailed"
      by (auto simp: main_def register_flags_eq Let_def ebind_eq_Inl split: sum.splits
          dest!: NetGetHandle_stops InitProtocol_stops)
    then show ?thesis by (simp add: main_error_def parse_error_def)
  qed
qed

section \<open>What the user sees\<close>

text \<open>The beginning of a message: the name of the program, and a distinguisher if one was set.\<close>

definition log_prefix :: "string \<Rightarrow> console \<Rightarrow> string" where
  "log_prefix argv0 c =
    progname (if progname c = [] then SetLogName argv0 c else c)
    @ (if distinguisher c = [] then [] else ''['' @ distinguisher c @ '']'') @ '': ''"

lemma LogVarargs_written: "written (LogVarargs argv0 msg c) = written c @ log_prefix argv0 c @ msg @ [CHR 0x0A]"
  by (simp add: LogVarargs_def log_prefix_def Let_def SetLogName_def)

text \<open>C39: what the user sees when \<^verbatim>\<open>main\<close> does not start a command, for every way in
  which it stops and with the cause of each. The usage, with exit status 0. A message behind the name of the
  program, with exit status 1: a response file is missing, whose name is in an argument behind an
  \<^verbatim>\<open>@\<close>; or, followed by the usage, an argument that looks like a flag is not one of the
  program's flags; no command was given (an empty message); or no driver gave its address. No other message
  of the library can appear, since the flags of the program have no values to check. Else nothing is
  written, and the program has failed an assertion (in \<^verbatim>\<open>StripAPIPointers\<close>,
  \<^verbatim>\<open>NetGetHandle\<close> or \<^verbatim>\<open>InitProtocol\<close>), has given a null pointer to the
  C library or has left the array of the baked-in arguments or the buffer of a response file.\<close>

theorem main_reports:
  fixes prog :: string
  assumes "main config fs argv w = (Inl e, w')"
  defines "usage \<equiv> PrintProgramUsage prog (Some ''Sopwith multiplayer adapter'') (Some ''ipxsetup %s sopwith2'')
    (HAVE_BAKED_IN_CONFIG config) the_flags"
  shows "case stop_program main_help (HAVE_BAKED_IN_CONFIG config) the_flags prog e c of (status, c') \<Rightarrow>
     (case e of
        ShowUsage \<Rightarrow> status = Some 0 \<and> written c' = written c @ usage
      | Error m \<Rightarrow> status = Some 1 \<and> (\<exists>f a. m = ResponseFileNotFound f
          \<and> a \<in> set (given_args config argv) \<and> arg_text a = CHR ''@'' # f \<and> fs f = None
          \<and> written c' = written c @ log_prefix prog c
              @ ''Response file not found: '' @ [CHR 0x27] @ f @ [CHR 0x27] @ [CHR 0x0A])
      | ErrorPrintUsage m \<Rightarrow> status = Some 1 \<and>
          ((\<exists>s xs. m = UnknownFlag s \<and> ExpandResponseArgs fs (given_args config argv) = Inr xs \<and> s \<in> arg_text ` set xs
             \<and> char0 s = CHR ''-'' \<and> FindFlagForName the_flags s = None
             \<and> written c' = written c @ log_prefix prog c
                 @ ''Unknown flag '' @ [CHR 0x27] @ s @ [CHR 0x27] @ [CHR 0x0A] @ usage)
           \<or> (\<exists>v. m = NoCommand \<and> ParseCommandLine the_flags config fs argv static_vars = Inr (None, v)
             \<and> written c' = written c @ log_prefix prog c @ [CHR 0x0A] @ usage)
           \<or> (\<exists>cmd v. m = NoDriver \<and> ParseCommandLine the_flags config fs argv static_vars = Inr (Some cmd, v)
             \<and> doomcom_addr v = 0
             \<and> written c' = written c @ log_prefix prog c
                 @ ''You should run this program via a driver, eg. IPXSETUP.'' @ [CHR 0x0A] @ usage))
      | _ \<Rightarrow> e \<in> {NullPointer, Crash AssertFailed, Crash OutOfBounds} \<and> status = None \<and> c' = c)"
proof -
  have texts: "description main_help = Some ''Sopwith multiplayer adapter''" "example main_help = Some ''ipxsetup %s sopwith2''"
    by (simp_all add: main_help_def SetHelpText_def)
  note defs = stop_program_def usage_exit_def Error_exit_def ErrorPrintUsage_exit_def LogVarargs_written texts usage_def [symmetric]
    Let_def response_file_text_def unknown_flag_text_def no_driver_text_def quoted_def
  from main_stops [OF assms(1)] show ?thesis
    unfolding main_error_def parse_error_def by (elim disjE exE conjE) (auto simp: defs)
qed

text \<open>The program as it is shipped, started by a user and not by a driver.\<close>

definition fresh_console :: console where
  "fresh_console = \<lparr>progname = [], distinguisher = [], written = [], keys = [], dos_major_version = 0, dos_calls = []\<rparr>"

lemma no_driver_run:
  "main (shipped_config []) Map.empty [''imaginot''] w = (Inl (ErrorPrintUsage NoDriver), with_flags static_vars w)"
proof -
  let ?sop = "Baked 0 ''sopwith2''" and ?db = "Baked 9 ''-db''"
  have argv: "argv_list [''imaginot''] = [Argv 0 ''imaginot'']" by (simp add: argv_list_def)
  have callee: "IdentifyCallee the_flags [Argv 0 ''imaginot''] = None" by (simp add: IdentifyCallee_def)
  have bs: "\<forall>s \<in> set [''sopwith2'', ''-db'']. s \<noteq> [] \<and> NUL \<notin> set s" by (simp add: NUL_def)
  have expand: "expand_args Map.empty [?sop, ?db] = Inr [?sop, ?db]" by (rule expand_plain) simp
  have sorted: "arranged the_flags None [?sop, ?db] = [?sop, ?db]"
    by (simp add: arranged_def callee_first_def find_flag Let_def)
  have strip: "strip_args the_flags [?sop, ?db] static_vars = Inr ([] @ command (Some [?sop, ?db]), static_vars)"
    by (simp add: api_flag_def find_flag command_def)
  have "ParseCommandLine the_flags (bake [''sopwith2'', ''-db''] @ []) Map.empty [''imaginot''] static_vars
      = Inr (Some [?sop, ?db], static_vars)"
    unfolding ParseCommandLine_iff [OF bs] argv
  proof (intro conjI exI)
    show "expand_args Map.empty (baked_at 0 [''sopwith2'', ''-db''] @ drop 1 [Argv 0 ''imaginot'']) = Inr [?sop, ?db]"
      using expand by (simp add: eval_nat_numeral)
    show "strip_args the_flags (if [''sopwith2'', ''-db''] = [] then [?sop, ?db]
        else arranged the_flags (IdentifyCallee the_flags [Argv 0 ''imaginot'']) [?sop, ?db]) static_vars
      = Inr ([] @ command (Some [?sop, ?db]), static_vars)"
      using strip by (simp only: callee sorted) simp
  qed (simp_all add: good_command_def settings_none)
  then show ?thesis
    by (simp add: main_def register_flags_eq shipped_config_def doomcom_addr_def static_vars_def)
qed

theorem main_reports_witness:
  "\<exists>c' rest. stop_program main_help True the_flags ''imaginot'' (ErrorPrintUsage NoDriver) fresh_console = (Some 1, c')
    \<and> written c' = ''imaginot: '' @ ''You should run this program via a driver, eg. IPXSETUP.'' @ [CHR 0x0A] @ rest"
proof -
  have baked: "HAVE_BAKED_IN_CONFIG (shipped_config []) = True"
    by (simp add: HAVE_BAKED_IN_CONFIG_def shipped_config_def bake_def NUL_def)
  have prefix: "log_prefix ''imaginot'' fresh_console = ''imaginot: ''"
    by (simp add: log_prefix_def fresh_console_def SetLogName_def after_backslash_def copy_name_def tolower_def)
  obtain c' where stop: "stop_program main_help True the_flags ''imaginot'' (ErrorPrintUsage NoDriver) fresh_console = (Some 1, c')"
    by (simp add: stop_program_def)
  from main_reports [OF no_driver_run, where prog = "''imaginot''" and c = fresh_console, unfolded baked stop]
  have "\<exists>rest. written c' = written fresh_console @ log_prefix ''imaginot'' fresh_console
      @ ''You should run this program via a driver, eg. IPXSETUP.'' @ [CHR 0x0A] @ rest"
    unfolding prod.case stop.case complaint.distinct by blast
  then show ?thesis unfolding stop prefix by (simp add: fresh_console_def)
qed

end
