(* ===== verification/Spec2Isabelle.thy ===== *)
theory Spec2Isabelle
  imports Crc32 Session_Sound Isrstack Report
begin

text \<open>
  A verification library for imaginot, which lets the game Sopwith be played over a network. The
  game was written for machines that share a floppy disk: its players exchange their commands in
  one sector of drive B. The program is started by a driver of the network game Doom, emulates that
  disk in the interrupts of the BIOS and of DOS, and exchanges the commands with the other machines
  over the driver.

  \<^bold>\<open>How the parts interact.\<close> \<^verbatim>\<open>main\<close> (\<^verbatim>\<open>imaginot.c\<close>) parses the command line
  (\<^verbatim>\<open>lib/flag.c\<close>), finds the structure of the driver in memory (\<^verbatim>\<open>doomnet.c\<close>),
  initialises the protocol (\<^verbatim>\<open>protocol.c\<close>), installs the disk interrupts
  (\<^verbatim>\<open>fakedisk.c\<close>) and starts the game. The game reads and writes sectors; a write of
  the data sector calls \<^verbatim>\<open>SwapCommand\<close>, which sends the command of the player, waits for
  those of the others and returns all commands of a tic. The first read by DOS patches the memory
  of the game (\<^verbatim>\<open>mempatch.c\<close>).

  \<^bold>\<open>Theories.\<close>
  \<^item> Prelude: words, outcomes of calls that can stop, arrays, encodings, and the generic interfaces
    (\<^verbatim>\<open>fixed_codec\<close>, \<^verbatim>\<open>record_codec\<close>, \<^verbatim>\<open>invariant\<close>, \<^verbatim>\<open>bounded_invariant\<close>).
  \<^item> Crc32 (\<^verbatim>\<open>crc32.c\<close>): the table and the routine; it is the bitwise CRC-32 and detects
    every burst of errors within four bytes.
  \<^item> Doomnet (\<^verbatim>\<open>doomnet.h\<close>, \<^verbatim>\<open>doomnet.c\<close>): the structure shared with the driver and
    the two calls. The driver is another program: what it will answer is part of the state.
  \<^item> Protocol (\<^verbatim>\<open>protocol.c\<close>): one machine, every function; Protocol_Sound: no call faults on
    well-formed states, whatever packets arrive, and what the calls return.
  \<^item> Window_Pair, Game, Game_Invariant, Lockstep, Progress: several machines and a network that may
    lose, repeat, delay, reorder and damage packets (damage is what the checks of
    \<^verbatim>\<open>ReceivePacket\<close> see; a damaged packet with a right checksum is not considered). A window of the receiver agrees with what the
    sender has made; so all machines play the same commands in every tic, stay within four tics of
    each other, and a machine can go on when packets get through exactly if all others have made their
    commands.
  \<^item> Farmem (\<^verbatim>\<open>lib/dos.c\<close>): segmented memory and the four memory routines. Mempatch
    (\<^verbatim>\<open>mempatch.c\<close>): the search for a pattern and the two patches.
  \<^item> Fakedisk (\<^verbatim>\<open>fakedisk.c\<close>): the sectors as functions on their 512 bytes, the state machine
    of the data sector, over the interface \<^verbatim>\<open>command_exchange\<close> that \<^verbatim>\<open>SwapCommand\<close>
    implements. Gameplay joins it with the game of several machines.
  \<^item> Ints (\<^verbatim>\<open>lib/ints.c\<close>): interrupt vectors and hardware interrupts; two instances of one
    interface of hooks that leave no trace when they are removed in reverse order. Interrupts
    (\<^verbatim>\<open>fakedisk.c\<close>): the three disk interrupts on registers and memory, their
    installation and removal, and the counts of calls printed at the end. Isrstack (\<^verbatim>\<open>lib/ints.h\<close>, \<^verbatim>\<open>fakedisk.c\<close>): their
    machine code, which is the change to a stack of their own and the return from a DOS interrupt.
  \<^item> Cstring: characters, \<^verbatim>\<open>strtol\<close>. Flag, Args, Response, Parse (\<^verbatim>\<open>lib/flag.c\<close>): the
    table of flags, numbers and the usage text; baked-in arguments and the sorting of arguments;
    response files read and written; the parser.
  \<^item> Logging (\<^verbatim>\<open>lib/log.c\<close> and the rest of the library): messages, the Escape key,
    entropy, the current process (over a parameter that stands for the calls of DOS).
  \<^item> Imaginot (\<^verbatim>\<open>imaginot.c\<close>): \<^verbatim>\<open>NetGetHandle\<close> and \<^verbatim>\<open>main\<close>.
  \<^item> Session, Session_Pair, Session_Progress, Session_Sound: the whole program on several machines. A session starts when
    \<^verbatim>\<open>main\<close> has started the game on every machine; its steps are the disk interrupts in any
    order, whatever the games and other programs do to memory and vectors, and the network. A call that
    waits in \<^verbatim>\<open>SwapCommand\<close> is taken apart at the polls of its loop, so that calls of different
    machines overlap. Every step is a run of theory Game (a simulation), and every interrupt that
    returns is a run of the session; so the games find the same commands in their buffers (Session_Sound),
    no interrupt fails, and a machine can make its next exchange once the other games have made their
    commands (Session_Progress). Session_Pair is a session of two machines, for the witnesses.
  \<^item> Report (\<^verbatim>\<open>lib/flag.c\<close>, \<^verbatim>\<open>lib/log.c\<close>, \<^verbatim>\<open>imaginot.c\<close>): the texts
    of the messages, and what the program writes and returns when it does not start a command.

  \<^bold>\<open>Conventions.\<close> Functions and types have the names of the source. The compiler is the 16-bit
  Watcom compiler: \<^verbatim>\<open>int\<close> and \<^verbatim>\<open>size_t\<close> have 16 bits, \<^verbatim>\<open>long\<close> has 32.
  A \<^verbatim>\<open>time_t\<close> is an unsigned number of 32 bits. Unsigned fields are words, and so are the counters of \<^verbatim>\<open>fakedisk.c\<close>, which are printed with a
  sign; the signed \<^verbatim>\<open>short\<close> fields of the driver's structure and lengths of command lines are
  integers. The counters of the loops of \<^verbatim>\<open>lib/dos.c\<close>, \<^verbatim>\<open>int\<close>s whose overflow the C
  standard leaves undefined, wrap. A failed assertion, an access outside an array
  and a division by zero are results (\<^verbatim>\<open>Fault\<close>, \<^verbatim>\<open>Crash\<close>), and so is every exit of the
  program (\<^verbatim>\<open>stop\<close>). The state of a file is a record that its operations take and return.

  \<^bold>\<open>Termination.\<close> No fuel is used. All loops are total functions. The wait of
  \<^verbatim>\<open>SwapCommand\<close> consumes the list of answers the driver will give and is \<^verbatim>\<open>Blocked\<close>
  when it is used up; that it returns when the packets arrive is the property of Progress and Session_Progress.

  \<^bold>\<open>Not modelled.\<close> The code that the compiler adds at the start and the end of an interrupt
  handler; the registers an interrupt handler does not use; the disabling of interrupts while a hardware
  interrupt is hooked; translation of line ends in text files; allocation failures (a response file that cannot be created is
  modelled). The driver, the game,
  the BIOS and DOS are other programs: their answers are inputs. Every function of the sources has its
  definition; what is left of them are prototypes, the macros for the two compilers in
  \<^verbatim>\<open>lib/dos.h\<close>, and constants that no code uses (four command bits and
  \<^verbatim>\<open>BACKUPTICS\<close> in \<^verbatim>\<open>doomnet.h\<close>, \<^verbatim>\<open>PLAYER_FINISHED\<close>).
\<close>

end
